(* ===== verification/Kernel_Prelude.thy ===== *)
theory Kernel_Prelude
  imports Main "HOL-Library.Word" "HOL-Library.Monad_Syntax"
begin

text \<open>
  Shared vocabulary of the development.

  The kernel is 32-bit C: \<open>uint8_t\<close>, \<open>uint16_t\<close>, \<open>uint32_t\<close> and \<open>uint64_t\<close> are words of
  that width, a pointer is a 32-bit word, and arithmetic wraps as it does in the compiled
  code. A function that may not come back (a failed \<open>ASSERT\<close>, a \<open>PANIC\<close>, an \<open>int3\<close>, a
  division fault, a loop that never ends) has an \<open>option\<close> result, and \<^const>\<open>None\<close>
  is \<open>the cpu never returns from this call\<close>. Mutated state is passed in and handed back.
\<close>

unbundle bit_operations_syntax

type_synonym u8 = "8 word"
type_synonym u16 = "16 word"
type_synonym u32 = "32 word"
type_synonym u64 = "64 word"

text \<open>The address types of \<open>types.h\<close> are all \<open>uint32_t\<close>.\<close>

type_synonym addr = u32

named_theorems panic_simps \<open>rules that open a checked computation\<close>
named_theorems word_bounds \<open>facts that move between words and their unsigned values\<close>

subsection \<open>Assertions and panics\<close>

text \<open>\<open>ASSERT(condition)\<close> and \<open>PANIC(...)\<close> of \<open>debug.h\<close>: a panic locks the cpu up.\<close>

definition ASSERT :: "bool \<Rightarrow> unit option" where
  "ASSERT c = (if c then Some () else None)"

abbreviation PANIC :: "'a option" where
  "PANIC \<equiv> None"

lemma ASSERT_True [simp]: "ASSERT True = Some ()"
  by (simp add: ASSERT_def)

lemma ASSERT_False [simp]: "ASSERT False = None"
  by (simp add: ASSERT_def)

lemma ASSERT_eq_Some [simp]: "ASSERT c = Some u \<longleftrightarrow> c"
  by (simp add: ASSERT_def)

lemma ASSERT_bind [panic_simps]: "Option.bind (ASSERT c) f = (if c then f () else None)"
  by (simp add: ASSERT_def)

lemma ASSERT_bind_eq_Some [simp]:
  "Option.bind (ASSERT c) f = Some r \<longleftrightarrow> c \<and> f () = Some r"
  by (simp add: ASSERT_def)

lemma bind_Some_elim:
  assumes "Option.bind m f = Some r"
  obtains x where "m = Some x" and "f x = Some r"
  using assms by (auto simp: Option.bind_eq_Some_conv)

lemma bind_pair_elim:
  assumes "Option.bind m (\<lambda>(x, s). f x s) = Some r"
  obtains x s where "m = Some (x, s)" and "f x s = Some r"
  using assms by (auto simp: Option.bind_eq_Some_conv)

lemma if_None_eq_Some [panic_simps]:
  "(if c then None else x) = Some r \<longleftrightarrow> \<not> c \<and> x = Some r"
  "(if c then x else None) = Some r \<longleftrightarrow> c \<and> x = Some r"
  by auto

subsection \<open>Words and their unsigned values\<close>

lemma u32_less_iff [word_bounds]: "(a :: u32) < b \<longleftrightarrow> unat a < unat b"
  by (simp add: word_less_nat_alt)

lemma u32_le_iff [word_bounds]: "(a :: u32) \<le> b \<longleftrightarrow> unat a \<le> unat b"
  by (simp add: word_le_nat_alt)

lemma unat_u32_bound: "unat (a :: u32) < 2 ^ 32"
  using unsigned_less [of a] by simp

lemma unat_u64_bound: "unat (a :: u64) < 2 ^ 64"
  using unsigned_less [of a] by simp

lemma unat_u32_minus_one [simp]: "unat (- 1 :: u32) = 4294967295"
  by (simp add: unsigned_minus_1_eq_mask mask_eq_exp_minus_1)

lemma unat_add_no_overflow:
  fixes a b :: "'a :: len word"
  assumes "unat a + unat b < 2 ^ LENGTH('a)"
  shows "unat (a + b) = unat a + unat b"
  using assms by (simp add: unat_word_ariths)

lemma unat_mult_no_overflow:
  fixes a b :: "'a :: len word"
  assumes "unat a * unat b < 2 ^ LENGTH('a)"
  shows "unat (a * b) = unat a * unat b"
  using assms by (simp add: unat_word_ariths)

lemma unat_sub_no_underflow:
  fixes a b :: "'a :: len word"
  assumes "unat b \<le> unat a"
  shows "unat (a - b) = unat a - unat b"
  using assms by (simp add: unat_sub word_le_nat_alt)

lemma unat_of_nat_bounded:
  assumes "n < 2 ^ LENGTH('a :: len)"
  shows "unat (of_nat n :: 'a word) = n"
  using assms by (simp add: unat_of_nat take_bit_nat_eq_self)

lemma unat_ucast_u64 [simp]: "unat (ucast (x :: u32) :: u64) = unat x"
proof -
  have "unat x < 2 ^ 64" using unat_u32_bound [of x] by simp
  then show ?thesis by (simp add: unsigned_ucast_eq take_bit_nat_eq_self)
qed

lemma unat_ucast_bounded:
  fixes x :: "'a :: len word"
  assumes "unat x < 2 ^ LENGTH('b :: len)"
  shows "unat (ucast x :: 'b word) = unat x"
  using assms by (simp add: unsigned_ucast_eq take_bit_nat_eq_self)

text \<open>The number of distinct 32-bit addresses bounds the length of a duplicate-free list.\<close>

lemma distinct_u32_length:
  fixes xs :: "u32 list"
  assumes "distinct xs"
  shows "length xs \<le> 2 ^ 32"
proof -
  have "inj (unat :: u32 \<Rightarrow> nat)"
    by (simp add: inj_on_def word_unat_eq_iff)
  then have "length xs = card (unat ` set xs)"
    using assms by (metis card_image distinct_card inj_on_subset subset_UNIV)
  also have "\<dots> \<le> card {..< 2 ^ 32 :: nat}"
    using unat_u32_bound by (intro card_mono) auto
  finally show ?thesis by simp
qed

text \<open>Counting loops: \<open>i + 1\<close> does not wrap below a bound.\<close>

lemma unat_inc:
  fixes i n :: "'a :: len word"
  assumes "i < n"
  shows "unat (i + 1) = Suc (unat i)"
proof -
  have "unat i < unat n" using assms by (simp add: word_less_nat_alt)
  moreover have "unat n < 2 ^ LENGTH('a)" by (rule unsigned_less)
  ultimately have "Suc (unat i) < 2 ^ LENGTH('a)" by linarith
  then show ?thesis
    by (simp add: unat_word_ariths)
qed

lemma inc_le_iff:
  fixes i n :: "'a :: len word"
  assumes "i < n"
  shows "i + 1 \<le> j \<longleftrightarrow> i < j"
  using unat_inc [OF assms] by (simp add: word_le_nat_alt word_less_nat_alt Suc_le_eq)

lemma loop_measure:
  fixes i n :: "'a :: len word"
  assumes "i < n"
  shows "unat n - unat (i + 1) < unat n - unat i"
  using unat_inc [OF assms] assms by (simp add: word_less_nat_alt)

end
