(* ===== verification/Kernel_List.thy ===== *)
theory Kernel_List
  imports Kernel_Prelude
begin

text \<open>
  The intrusive doubly linked lists of \<open>list.c\<close> and \<open>list.h\<close>: a heap of \<open>struct list_node\<close>s
  addressed by pointers, the operations as the field writes the code makes, and their
  abstraction to a HOL list. The clients of the kernel (runqueue, message queues, mounts,
  free lists, error lists) rest on the interface locale \<open>intrusive_list\<close> below.
\<close>

subsection \<open>The heap of list nodes and the operations\<close>

record list_node =
  n_prev :: addr
  n_next :: addr

type_synonym list_heap = "addr \<Rightarrow> list_node"

definition set_prev :: "list_heap \<Rightarrow> addr \<Rightarrow> addr \<Rightarrow> list_heap" where
  "set_prev h a p = h(a := (h a)\<lparr>n_prev := p\<rparr>)"

definition set_next :: "list_heap \<Rightarrow> addr \<Rightarrow> addr \<Rightarrow> list_heap" where
  "set_next h a n = h(a := (h a)\<lparr>n_next := n\<rparr>)"

definition list_entry :: "addr \<Rightarrow> addr \<Rightarrow> addr" where
  "list_entry node offset = node - offset"

definition list_init :: "list_heap \<Rightarrow> addr \<Rightarrow> list_heap" where
  "list_init h node = set_next (set_prev h node node) node node"

definition list_add_between :: "list_heap \<Rightarrow> addr \<Rightarrow> addr \<Rightarrow> addr \<Rightarrow> list_heap" where
  "list_add_between h p node nx =
     (let h1 = set_next h p node;
          h2 = set_prev h1 nx node;
          h3 = set_prev h2 node p
      in set_next h3 node nx)"

definition list_add :: "list_heap \<Rightarrow> addr \<Rightarrow> addr \<Rightarrow> list_heap" where
  "list_add h head n = list_add_between h head n (n_next (h head))"

definition list_add_tail :: "list_heap \<Rightarrow> addr \<Rightarrow> addr \<Rightarrow> list_heap" where
  "list_add_tail h head n = list_add_between h (n_prev (h head)) n head"

definition list_del :: "list_heap \<Rightarrow> addr \<Rightarrow> list_heap" where
  "list_del h node =
     (let h1 = set_next h (n_prev (h node)) (n_next (h node));
          h2 = set_prev h1 (n_next (h1 node)) (n_prev (h1 node))
      in list_init h2 node)"

definition list_empty :: "list_heap \<Rightarrow> addr \<Rightarrow> bool" where
  "list_empty h head \<longleftrightarrow> n_next (h head) = head"

definition list_first :: "list_heap \<Rightarrow> addr \<Rightarrow> addr" where
  "list_first h head = n_next (h head)"

definition list_last :: "list_heap \<Rightarrow> addr \<Rightarrow> addr" where
  "list_last h head = n_prev (h head)"

text \<open>
  \<open>list_for_each\<close> with a \<open>break\<close>: the cursor starts at \<open>head->next\<close> and follows \<open>next\<close> until
  the loop breaks or is back at the head. On a heap that is not a ring through \<open>head\<close> it
  never ends, so the loop is a partial function and \<^const>\<open>None\<close> is not returning.
\<close>

partial_function (option) list_for_each_from ::
  "list_heap \<Rightarrow> addr \<Rightarrow> (addr \<Rightarrow> bool) \<Rightarrow> addr \<Rightarrow> addr option" where
  "list_for_each_from h head brk cursor =
     (if cursor = head then Some cursor
      else if brk cursor then Some cursor
      else list_for_each_from h head brk (n_next (h cursor)))"

definition list_for_each :: "list_heap \<Rightarrow> addr \<Rightarrow> (addr \<Rightarrow> bool) \<Rightarrow> addr option" where
  "list_for_each h head brk = list_for_each_from h head brk (n_next (h head))"

partial_function (option) list_size_from ::
  "list_heap \<Rightarrow> addr \<Rightarrow> addr \<Rightarrow> u32 \<Rightarrow> u32 option" where
  "list_size_from h head cursor sz =
     (if cursor = head then Some sz
      else list_size_from h head (n_next (h cursor)) (sz + 1))"

definition list_size :: "list_heap \<Rightarrow> addr \<Rightarrow> u32 option" where
  "list_size h head = list_size_from h head (n_next (h head)) 0"

subsection \<open>Abstraction: a ring of nodes is a HOL list\<close>

text \<open>\<open>seg h p xs q\<close>: the nodes \<open>xs\<close> link \<open>p\<close> to \<open>q\<close>, in both directions.\<close>

fun seg :: "list_heap \<Rightarrow> addr \<Rightarrow> addr list \<Rightarrow> addr \<Rightarrow> bool" where
  "seg h p [] q \<longleftrightarrow> n_next (h p) = q \<and> n_prev (h q) = p"
| "seg h p (x # xs) q \<longleftrightarrow> n_next (h p) = x \<and> n_prev (h x) = p \<and> seg h x xs q"

definition dlist :: "list_heap \<Rightarrow> addr \<Rightarrow> addr list \<Rightarrow> bool" where
  "dlist h head xs \<longleftrightarrow> distinct (head # xs) \<and> seg h head xs head"

lemma set_prev_sel [simp]:
  "n_prev (set_prev h a p b) = (if b = a then p else n_prev (h b))"
  "n_next (set_prev h a p b) = n_next (h b)"
  by (simp_all add: set_prev_def)

lemma set_next_sel [simp]:
  "n_next (set_next h a p b) = (if b = a then p else n_next (h b))"
  "n_prev (set_next h a p b) = n_prev (h b)"
  by (simp_all add: set_next_def)

lemma seg_append [simp]: "seg h p (xs @ y # ys) q \<longleftrightarrow> seg h p xs y \<and> seg h y ys q"
  by (induction xs arbitrary: p) auto

lemma seg_cong:
  assumes "\<And>a. a \<in> set (p # xs) \<Longrightarrow> n_next (h' a) = n_next (h a)"
    and "\<And>a. a \<in> set (xs @ [q]) \<Longrightarrow> n_prev (h' a) = n_prev (h a)"
  shows "seg h' p xs q \<longleftrightarrow> seg h p xs q"
  using assms by (induction xs arbitrary: p) auto

lemma seg_next_first: "seg h p xs q \<Longrightarrow> n_next (h p) = hd (xs @ [q])"
  by (cases xs) auto

lemma seg_prev_last: "seg h p xs q \<Longrightarrow> n_prev (h q) = last (p # xs)"
  by (induction xs arbitrary: p) auto

lemma dlist_distinct: "dlist h head xs \<Longrightarrow> distinct xs \<and> head \<notin> set xs"
  by (simp add: dlist_def)

lemma dlist_first: "dlist h head xs \<Longrightarrow> list_first h head = hd (xs @ [head])"
  by (auto simp: dlist_def list_first_def dest: seg_next_first)

lemma dlist_last: "dlist h head xs \<Longrightarrow> list_last h head = last (head # xs)"
  unfolding dlist_def list_last_def using seg_prev_last by blast

lemma dlist_empty_iff: "dlist h head xs \<Longrightarrow> list_empty h head \<longleftrightarrow> xs = []"
  by (cases xs) (auto simp: dlist_def list_empty_def)

subsection \<open>Each operation against the abstraction\<close>

lemma list_init_other: "a \<noteq> n \<Longrightarrow> list_init h n a = h a"
  by (simp add: list_init_def set_prev_def set_next_def)

lemma list_add_between_other:
  "a \<notin> {p, n, nx} \<Longrightarrow> list_add_between h p n nx a = h a"
  by (simp add: list_add_between_def Let_def set_prev_def set_next_def)

lemma list_add_between_sel:
  "n_next (list_add_between h p n nx a) =
     (if a = n then nx else if a = p then n else n_next (h a))"
  "n_prev (list_add_between h p n nx a) =
     (if a = n then p else if a = nx then n else n_prev (h a))"
  by (auto simp: list_add_between_def Let_def)

lemma dlist_init: "dlist (list_init h n) n []"
  by (simp add: dlist_def list_init_def)

text \<open>Two adjacent nodes of a ring, written as the two halves the ring splits into.\<close>

lemma seg_halves:
  "seg h p (xs @ ys) q \<longleftrightarrow>
     (let l = last (p # xs); f = hd (ys @ [q]) in
        n_next (h l) = f \<and> n_prev (h f) = l \<and> seg h p xs f \<and> seg h l ys q)"
proof (induction xs arbitrary: p)
  case Nil
  then show ?case by (cases ys) (auto simp: Let_def)
next
  case (Cons x xs)
  then show ?case by (auto simp: Let_def)
qed

lemma dlist_insert:
  assumes "dlist h head (xs @ ys)" and "n \<notin> set (head # xs @ ys)"
  shows "dlist (list_add_between h (last (head # xs)) n (hd (ys @ [head]))) head (xs @ n # ys)"
proof -
  let ?l = "last (head # xs)" and ?f = "hd (ys @ [head])"
  let ?h = "list_add_between h ?l n ?f"
  from assms(1) have d: "distinct (head # xs @ ys)" and s: "seg h head (xs @ ys) head"
    by (simp_all add: dlist_def)
  have l: "?l \<in> set (head # xs)" and f: "?f \<in> set (ys @ [head])"
    by (rule last_in_set, simp) (rule hd_in_set, simp)
  have left: "seg ?h head xs n"
  proof (cases xs rule: rev_cases)
    case Nil
    with assms(2) show ?thesis by (auto simp: list_add_between_sel)
  next
    case (snoc zs z)
    have "seg h head zs z"
      using s snoc by simp
    moreover have "seg ?h head zs z \<longleftrightarrow> seg h head zs z"
      using d assms(2) f snoc by (intro seg_cong) (auto simp: list_add_between_sel)
    ultimately show ?thesis
      using snoc assms(2) by (auto simp: list_add_between_sel)
  qed
  have right: "seg ?h n ys head"
  proof (cases ys)
    case Nil
    with assms(2) show ?thesis by (auto simp: list_add_between_sel)
  next
    case (Cons z zs)
    have "seg h z zs head"
      using s Cons by simp
    moreover have "seg ?h z zs head \<longleftrightarrow> seg h z zs head"
      using d assms(2) l Cons by (intro seg_cong) (auto simp: list_add_between_sel)
    ultimately show ?thesis
      using Cons assms(2) by (auto simp: list_add_between_sel)
  qed
  from left right d assms(2) show ?thesis by (auto simp: dlist_def)
qed

lemma dlist_add:
  assumes "dlist h head (xs @ ys)" and "n \<notin> set (head # xs @ ys)"
  shows "dlist (list_add h (last (head # xs)) n) head (xs @ n # ys)"
proof -
  have "n_next (h (last (head # xs))) = hd (ys @ [head])"
    using assms(1) by (simp add: dlist_def seg_halves Let_def)
  with dlist_insert [OF assms] show ?thesis by (simp add: list_add_def)
qed

lemma dlist_add_tail:
  assumes "dlist h head (xs @ ys)" and "n \<notin> set (head # xs @ ys)"
  shows "dlist (list_add_tail h (hd (ys @ [head])) n) head (xs @ n # ys)"
proof -
  have "n_prev (h (hd (ys @ [head]))) = last (head # xs)"
    using assms(1) by (simp add: dlist_def seg_halves Let_def)
  with dlist_insert [OF assms] show ?thesis by (simp add: list_add_tail_def)
qed

lemma list_del_sel:
  assumes "n_prev (h n) \<noteq> n" "n_next (h n) \<noteq> n"
  shows "n_next (list_del h n a) =
      (if a = n then n else if a = n_prev (h n) then n_next (h n) else n_next (h a))"
    and "n_prev (list_del h n a) =
      (if a = n then n else if a = n_next (h n) then n_prev (h n) else n_prev (h a))"
  using assms by (auto simp: list_del_def list_init_def Let_def)

lemma dlist_del:
  assumes "dlist h head (xs @ n # ys)"
  shows "dlist (list_del h n) head (xs @ ys)" and "dlist (list_del h n) n []"
proof -
  let ?l = "last (head # xs)" and ?f = "hd (ys @ [head])"
  from assms have d: "distinct (head # xs @ n # ys)"
    and s: "seg h head xs n" "seg h n ys head"
    by (simp_all add: dlist_def)
  have pn: "n_prev (h n) = ?l" "n_next (h n) = ?f"
    using seg_prev_last [OF s(1)] seg_next_first [OF s(2)] by simp_all
  have l: "?l \<in> set (head # xs)" and f: "?f \<in> set (ys @ [head])"
    by (rule last_in_set, simp) (rule hd_in_set, simp)
  have ne: "?l \<noteq> n" "?f \<noteq> n"
    using l f d by auto
  note sel = list_del_sel [of h n, unfolded pn, OF ne]
  show "dlist (list_del h n) n []"
    using sel by (simp add: dlist_def)
  have left: "seg (list_del h n) head xs ?f"
  proof (cases xs rule: rev_cases)
    case Nil
    with ne d show ?thesis by (auto simp: sel)
  next
    case (snoc zs z)
    have "seg (list_del h n) head zs z \<longleftrightarrow> seg h head zs z"
      using d f snoc by (intro seg_cong) (auto simp: sel)
    with s(1) snoc ne show ?thesis by (auto simp: sel)
  qed
  have right: "seg (list_del h n) ?l ys head"
  proof (cases ys)
    case Nil
    with ne d show ?thesis by (auto simp: sel)
  next
    case (Cons z zs)
    have "seg (list_del h n) z zs head \<longleftrightarrow> seg h z zs head"
      using d l Cons by (intro seg_cong) (auto simp: sel)
    with s(2) Cons ne show ?thesis by (auto simp: sel)
  qed
  have "seg (list_del h n) head (xs @ ys) head"
    unfolding seg_halves Let_def using left right ne by (auto simp: sel)
  then show "dlist (list_del h n) head (xs @ ys)"
    using d by (simp add: dlist_def)
qed

text \<open>Deleting the head itself leaves the other nodes as a ring of their own.\<close>

lemma dlist_rotate:
  assumes "dlist h head (x # xs)"
  shows "dlist h x (xs @ [head])"
  using assms by (auto simp: dlist_def)

lemma dlist_del_head:
  assumes "dlist h head (x # xs)"
  shows "dlist (list_del h head) head []" and "dlist (list_del h head) x xs"
  using dlist_del [of h x xs head "[]"] dlist_rotate [OF assms] by simp_all

subsection \<open>Loops over a list\<close>

lemma list_size_from_seg:
  assumes "seg h p xs head" and "head \<notin> set xs"
  shows "list_size_from h head (n_next (h p)) sz = Some (sz + of_nat (length xs))"
  using assms
proof (induction xs arbitrary: p sz)
  case Nil
  then show ?case by (simp add: list_size_from.simps)
next
  case (Cons x xs)
  then have "list_size_from h head (n_next (h x)) (sz + 1) = Some (sz + 1 + of_nat (length xs))"
    by simp
  with Cons.prems show ?case
    by (auto simp: list_size_from.simps [of h head x] algebra_simps)
qed

lemma list_size_dlist:
  assumes "dlist h head xs"
  shows "list_size h head = Some (of_nat (length xs))"
  using assms list_size_from_seg [of h head xs head 0] by (simp add: dlist_def list_size_def)

lemma dlist_length: "dlist h head xs \<Longrightarrow> length xs < 2 ^ 32"
  using distinct_u32_length [of "head # xs"] by (simp add: dlist_def)

text \<open>The count never wraps: it is the number of nodes.\<close>

lemma list_size_unat:
  assumes "dlist h head xs"
  obtains sz where "list_size h head = Some sz" and "unat sz = length xs"
proof
  show "list_size h head = Some (of_nat (length xs))"
    using assms by (rule list_size_dlist)
  show "unat (of_nat (length xs) :: u32) = length xs"
    using dlist_length [OF assms] by (simp add: unat_of_nat_bounded)
qed

lemma list_size_zero_iff:
  assumes "dlist h head xs"
  shows "list_size h head = Some 0 \<longleftrightarrow> xs = []"
proof
  assume z: "list_size h head = Some 0"
  obtain sz where "list_size h head = Some sz" "unat sz = length xs"
    using assms by (rule list_size_unat)
  with z show "xs = []" by simp
next
  assume "xs = []"
  with assms show "list_size h head = Some 0" by (simp add: list_size_dlist)
qed

lemma list_for_each_from_seg:
  assumes "seg h p xs head" and "head \<notin> set xs"
  shows "list_for_each_from h head brk (n_next (h p)) = Some (hd (dropWhile (\<lambda>x. \<not> brk x) xs @ [head]))"
  using assms
proof (induction xs arbitrary: p)
  case Nil
  then show ?case by (simp add: list_for_each_from.simps)
next
  case (Cons x xs)
  then show ?case by (auto simp: list_for_each_from.simps [of h head brk x])
qed

lemma list_for_each_dlist:
  assumes "dlist h head xs"
  shows "list_for_each h head brk = Some (hd (dropWhile (\<lambda>x. \<not> brk x) xs @ [head]))"
  using assms list_for_each_from_seg [of h head xs head brk]
  by (simp add: dlist_def list_for_each_def)

lemma list_for_each_find:
  assumes "dlist h head xs"
  shows "list_for_each h head brk = Some (case find brk xs of None \<Rightarrow> head | Some x \<Rightarrow> x)"
proof -
  have "hd (dropWhile (\<lambda>x. \<not> brk x) xs @ [head]) = (case find brk xs of None \<Rightarrow> head | Some x \<Rightarrow> x)"
    by (induction xs) auto
  with list_for_each_dlist [OF assms, of brk] show ?thesis by simp
qed

subsection \<open>Lists that share the heap do not interfere\<close>

lemma dlist_cong:
  assumes "\<And>a. a \<in> set (head # xs) \<Longrightarrow> h' a = h a"
  shows "dlist h' head xs \<longleftrightarrow> dlist h head xs"
  using assms seg_cong [of head xs h' h head] by (auto simp: dlist_def)

lemma list_add_other:
  assumes "dlist h head (xs @ ys)" and "a \<notin> set (head # n # xs @ ys)"
  shows "list_add h (last (head # xs)) n a = h a"
proof -
  have "n_next (h (last (head # xs))) = hd (ys @ [head])"
    using assms(1) by (simp add: dlist_def seg_halves Let_def)
  moreover have "hd (ys @ [head]) \<in> set (ys @ [head])" "last (head # xs) \<in> set (head # xs)"
    by (rule hd_in_set, simp) (rule last_in_set, simp)
  ultimately show ?thesis
    unfolding list_add_def using assms(2) by (intro list_add_between_other) auto
qed

lemma list_add_tail_other:
  assumes "dlist h head (xs @ ys)" and "a \<notin> set (head # n # xs @ ys)"
  shows "list_add_tail h (hd (ys @ [head])) n a = h a"
proof -
  have "n_prev (h (hd (ys @ [head]))) = last (head # xs)"
    using assms(1) by (simp add: dlist_def seg_halves Let_def)
  moreover have "hd (ys @ [head]) \<in> set (ys @ [head])" "last (head # xs) \<in> set (head # xs)"
    by (rule hd_in_set, simp) (rule last_in_set, simp)
  ultimately show ?thesis
    unfolding list_add_tail_def using assms(2) by (intro list_add_between_other) auto
qed

lemma list_del_other:
  assumes "dlist h head (xs @ n # ys)" and "a \<notin> set (head # xs @ n # ys)"
  shows "list_del h n a = h a"
proof -
  have s: "seg h head xs n" "seg h n ys head"
    using assms(1) by (simp_all add: dlist_def)
  have "last (head # xs) \<in> set (head # xs)" "hd (ys @ [head]) \<in> set (ys @ [head])"
    by (rule last_in_set, simp) (rule hd_in_set, simp)
  then have "n_prev (h n) \<in> set (head # xs)" "n_next (h n) \<in> set (ys @ [head])"
    using seg_prev_last [OF s(1)] seg_next_first [OF s(2)] by simp_all
  with assms(2) show ?thesis
    by (auto simp: list_del_def list_init_def set_prev_def set_next_def Let_def)
qed

subsection \<open>The interface the clients rely on\<close>

text \<open>
  What a client of \<open>list.h\<close> may assume: the operations, the abstraction \<open>repr heap head xs\<close>,
  and what each operation does to it. A queue built from \<open>add_tail\<close> and \<open>del\<close> of the first
  node is then first-in first-out, whatever the client.
\<close>

locale intrusive_list =
  fixes init :: "'h \<Rightarrow> 'a \<Rightarrow> 'h"
    and add :: "'h \<Rightarrow> 'a \<Rightarrow> 'a \<Rightarrow> 'h"
    and add_tail :: "'h \<Rightarrow> 'a \<Rightarrow> 'a \<Rightarrow> 'h"
    and del :: "'h \<Rightarrow> 'a \<Rightarrow> 'h"
    and first :: "'h \<Rightarrow> 'a \<Rightarrow> 'a"
    and repr :: "'h \<Rightarrow> 'a \<Rightarrow> 'a list \<Rightarrow> bool"
  assumes repr_init: "repr (init h n) n []"
    and repr_add: "repr h head xs \<Longrightarrow> n \<notin> set (head # xs) \<Longrightarrow> repr (add h head n) head (n # xs)"
    and repr_add_tail: "repr h head xs \<Longrightarrow> n \<notin> set (head # xs) \<Longrightarrow> repr (add_tail h head n) head (xs @ [n])"
    and repr_del: "repr h head (xs @ n # ys) \<Longrightarrow> repr (del h n) head (xs @ ys)"
    and repr_first: "repr h head (x # xs) \<Longrightarrow> first h head = x"
    and repr_distinct: "repr h head xs \<Longrightarrow> distinct (head # xs)"
begin

primrec pop_n :: "nat \<Rightarrow> 'h \<Rightarrow> 'a \<Rightarrow> 'a list \<times> 'h" where
  "pop_n 0 h head = ([], h)"
| "pop_n (Suc k) h head =
     (let x = first h head; (ys, h') = pop_n k (del h x) head in (x # ys, h'))"

lemma pop_first:
  assumes "repr h head (x # xs)"
  shows "first h head = x" and "repr (del h x) head xs"
  using repr_first [OF assms] repr_del [of h head "[]" x xs] assms by simp_all

lemma repr_add_tails:
  assumes "repr h head xs" and "distinct ns" and "set ns \<inter> set (head # xs) = {}"
  shows "repr (foldl (\<lambda>h n. add_tail h head n) h ns) head (xs @ ns)"
  using assms
proof (induction ns arbitrary: h xs)
  case (Cons n ns)
  then have "repr (add_tail h head n) head (xs @ [n])"
    by (intro repr_add_tail) auto
  with Cons.IH [of "add_tail h head n" "xs @ [n]"] Cons.prems show ?case by auto
qed simp

lemma pop_n_repr:
  assumes "repr h head (xs @ ys)"
  shows "\<exists>h'. pop_n (length xs) h head = (xs, h') \<and> repr h' head ys"
  using assms
proof (induction xs arbitrary: h)
  case (Cons x xs)
  then have "first h head = x" "repr (del h x) head (xs @ ys)"
    using pop_first by auto
  with Cons.IH show ?case by (fastforce simp: Let_def)
qed auto

lemma fifo:
  assumes "repr h head xs" and "distinct ns" and "set ns \<inter> set (head # xs) = {}"
  shows "\<exists>h'. pop_n (length (xs @ ns)) (foldl (\<lambda>h n. add_tail h head n) h ns) head = (xs @ ns, h')
    \<and> repr h' head []"
  using pop_n_repr [of "foldl (\<lambda>h n. add_tail h head n) h ns" head "xs @ ns" "[]"]
    repr_add_tails [OF assms] by simp

end

interpretation kl: intrusive_list list_init list_add list_add_tail list_del list_first dlist
proof
  show "dlist (list_init h n) n []" for h n
    by (rule dlist_init)
  show "dlist (list_add h head n) head (n # xs)"
    if "dlist h head xs" "n \<notin> set (head # xs)" for h head xs n
    using dlist_add [of h head "[]" xs n] that by simp
  show "dlist (list_add_tail h head n) head (xs @ [n])"
    if "dlist h head xs" "n \<notin> set (head # xs)" for h head xs n
    using dlist_add_tail [of h head xs "[]" n] that by simp
  show "dlist (list_del h n) head (xs @ ys)" if "dlist h head (xs @ n # ys)" for h n head xs ys
    using that by (rule dlist_del(1))
  show "list_first h head = x" if "dlist h head (x # xs)" for h head x xs
    using dlist_first [OF that] by simp
  show "distinct (head # xs)" if "dlist h head xs" for h head xs
    using that by (simp add: dlist_def)
qed

subsection \<open>Properties\<close>

text \<open>
  C14: linking a node anywhere in a list puts it exactly there, unlinking it gives back the list
  as it was and leaves the node a list of its own, and no node outside the list is written.
\<close>

theorem list_add_del_round_trip:
  assumes "dlist h head (xs @ ys)" and "n \<notin> set (head # xs @ ys)"
  shows "dlist (list_add h (last (head # xs)) n) head (xs @ n # ys) \<and>
    dlist (list_del (list_add h (last (head # xs)) n) n) head (xs @ ys) \<and>
    dlist (list_del (list_add h (last (head # xs)) n) n) n [] \<and>
    (\<forall>a. a \<notin> set (head # n # xs @ ys) \<longrightarrow>
      list_del (list_add h (last (head # xs)) n) n a = h a)"
proof -
  have add: "dlist (list_add h (last (head # xs)) n) head (xs @ n # ys)"
    using assms by (rule dlist_add)
  moreover have "list_del (list_add h (last (head # xs)) n) n a = h a"
    if "a \<notin> set (head # n # xs @ ys)" for a
    using list_del_other [OF add, of a] list_add_other [OF assms(1), of a n] that by simp
  ultimately show ?thesis using dlist_del [OF add] by blast
qed

theorem list_add_del_round_trip_witness:
  "let h = list_init (\<lambda>_. \<lparr>n_prev = 0, n_next = 0\<rparr>) 16
   in dlist (list_add h 16 32) 16 [32] \<and> dlist (list_del (list_add h 16 32) 32) 16 [] \<and>
      dlist (list_del (list_add h 16 32) 32) 32 []"
  using list_add_del_round_trip [of "list_init (\<lambda>_. \<lparr>n_prev = 0, n_next = 0\<rparr>) 16" 16 "[]" "[]" 32]
    dlist_init [of _ 16]
  by (simp add: Let_def)

text \<open>
  C15: nodes leave a list in the order in which they were added at its tail: draining a list
  after any number of \<open>list_add_tail\<close> returns the old nodes, then the new ones in order, and
  the list ends up empty.
\<close>

theorem list_fifo:
  assumes "dlist h head xs" and "distinct ns" and "set ns \<inter> set (head # xs) = {}"
  shows "\<exists>h'. kl.pop_n (length (xs @ ns)) (foldl (\<lambda>h n. list_add_tail h head n) h ns) head =
    (xs @ ns, h') \<and> dlist h' head []"
  using assms by (rule kl.fifo)

theorem list_fifo_witness:
  "\<exists>h'. kl.pop_n (Suc (Suc 0)) (list_add_tail (list_add_tail
      (list_init (\<lambda>_. \<lparr>n_prev = 0, n_next = 0\<rparr>) 16) 16 32) 16 48) 16 = ([32, 48], h') \<and>
    dlist h' 16 []"
  using list_fifo [of "list_init (\<lambda>_. \<lparr>n_prev = 0, n_next = 0\<rparr>) 16" 16 "[]" "[32, 48]"]
    dlist_init [of _ 16]
  by (simp del: kl.pop_n.simps)

text \<open>
  \<open>list_size\<close> returns on every well-formed list, and its 32-bit count is the number of
  nodes: the counter cannot wrap.
\<close>

theorem list_size_counts:
  assumes "dlist h head xs"
  shows "\<exists>sz. list_size h head = Some sz \<and> unat sz = length xs"
  using list_size_unat [OF assms] by blast

end
