(* ===== verification/Cpu_Locks.thy ===== *)
theory Cpu_Locks
  imports Kernel_Prelude
begin

text \<open>
  The per-cpu state every component runs on, the atomics of \<open>atomic.c\<close>, the spinlocks of
  \<open>spinlock_def.c\<close> and the reader-writer locks of \<open>rw_lock.c\<close>, as the calls look to the cpu
  that makes them: a lock that is not free keeps that cpu spinning, so a call that has to
  wait has no result. What several cpus do to the same lock is \<open>Lock_Protocol\<close>.
\<close>

subsection \<open>Error codes and the running cpu\<close>

text \<open>\<open>error_code_t\<close> of \<open>error_codes.h\<close>.\<close>

datatype error_code =
  ENONE | ENOMEM | ENOFSIMPL | EMOUNTED | ENOTMOUNTPOINT | ENOTFOUND

text \<open>
  The cpu running the code: its number, its interrupt flag, the codes in its error list,
  oldest first, and for each coming error whether a descriptor can be had for it. Every
  component's state extends this record.
\<close>

record cpu_state =
  cpu_id :: u8
  int_flag :: bool
  error_list :: "error_code list"
  error_descs :: "bool list"

text \<open>
  \<open>SET_ERROR\<close>, as its callers see it: with no descriptor the error is lost; otherwise the
  code joins the error list, \<open>ENONE\<close> standing for the code of the error before it, of which
  there must be one. \<open>Error_Log\<close> models how \<open>error.c\<close> does this.
\<close>

definition next_desc :: "'a cpu_state_scheme \<Rightarrow> bool" where
  "next_desc s \<longleftrightarrow> error_descs s \<noteq> [] \<and> hd (error_descs s)"

definition set_error :: "error_code \<Rightarrow> 'a cpu_state_scheme \<Rightarrow> 'a cpu_state_scheme option" where
  "set_error code s =
     (let s' = s\<lparr>error_descs := tl (error_descs s)\<rparr> in
      if \<not> next_desc s then Some s'
      else if code = ENONE then
        (if error_list s = [] then PANIC else Some (s'\<lparr>error_list := error_list s @ [last (error_list s)]\<rparr>))
      else Some (s'\<lparr>error_list := error_list s @ [code]\<rparr>))"

lemma set_error_code [simp]:
  assumes "code \<noteq> ENONE"
  shows "set_error code s = Some (s\<lparr>error_list := error_list s @ (if next_desc s then [code] else []),
    error_descs := tl (error_descs s)\<rparr>)"
  using assms by (simp add: set_error_def Let_def)

lemma set_error_shape:
  assumes "set_error code s = Some s'"
  obtains el ed where "s' = s\<lparr>error_list := el, error_descs := ed\<rparr>"
proof -
  have "s' = s\<lparr>error_list := error_list s', error_descs := error_descs s'\<rparr>"
    using assms by (cases s) (auto simp: set_error_def Let_def split: if_splits)
  then show thesis by (rule that)
qed

subsection \<open>Atomics\<close>

text \<open>An \<open>atomic_t\<close> holds an \<open>int32_t\<close>; the additions are those of \<open>atomic_asm.S\<close>.\<close>

type_synonym atomic = u32

definition atomic_init :: "u32 \<Rightarrow> atomic" where
  "atomic_init v = v"

definition atomic_read :: "atomic \<Rightarrow> u32" where
  "atomic_read a = a"

definition atomic_write :: "atomic \<Rightarrow> u32 \<Rightarrow> atomic" where
  "atomic_write a v = v"

definition atomic_add :: "atomic \<Rightarrow> u32 \<Rightarrow> atomic" where
  "atomic_add a v = a + v"

definition atomic_inc :: "atomic \<Rightarrow> atomic" where
  "atomic_inc a = atomic_add a 1"

definition atomic_dec :: "atomic \<Rightarrow> atomic" where
  "atomic_dec a = atomic_add a (- 1)"

definition atomic_sub :: "atomic \<Rightarrow> u32 \<Rightarrow> atomic" where
  "atomic_sub a v = atomic_add a (- v)"

definition atomic_fetch_and_add :: "atomic \<Rightarrow> u32 \<Rightarrow> u32 \<times> atomic" where
  "atomic_fetch_and_add a v = (a, a + v)"

definition atomic_fetch_and_sub :: "atomic \<Rightarrow> u32 \<Rightarrow> u32 \<times> atomic" where
  "atomic_fetch_and_sub a v = atomic_fetch_and_add a (- v)"

definition atomic_dec_and_test :: "atomic \<Rightarrow> bool \<times> atomic" where
  "atomic_dec_and_test a = (a - 1 = 0, a - 1)"

subsection \<open>Spinlocks\<close>

record spinlock =
  sl_lock :: u8
  sl_interrupts_enabled :: bool
  sl_owner :: u8

definition INIT_SPINLOCK :: spinlock where
  "INIT_SPINLOCK = \<lparr>sl_lock = 0, sl_interrupts_enabled = False, sl_owner = 0xFF\<rparr>"

definition spinlock_init :: "spinlock \<Rightarrow> spinlock" where
  "spinlock_init l = INIT_SPINLOCK"

definition cpu_set_interrupt_flag :: "bool \<Rightarrow> 'a cpu_state_scheme \<Rightarrow> 'a cpu_state_scheme" where
  "cpu_set_interrupt_flag b s = s\<lparr>int_flag := b\<rparr>"

text \<open>
  \<open>_spinlock_lock\<close> of \<open>spinlock.S\<close>: \<open>cli\<close>, then the lock byte goes from 0 to 1; while it is not
  0 the cpu spins.
\<close>

definition spinlock_lock_asm ::
  "spinlock \<Rightarrow> bool \<Rightarrow> 'a cpu_state_scheme \<Rightarrow> (spinlock \<times> 'a cpu_state_scheme) option" where
  "spinlock_lock_asm l irq_enabled s =
     (if sl_lock l = 0 then Some (l\<lparr>sl_lock := 1\<rparr>, s\<lparr>int_flag := False\<rparr>) else None)"

definition spinlock_unlock_asm :: "spinlock \<Rightarrow> spinlock" where
  "spinlock_unlock_asm l = l\<lparr>sl_lock := 0\<rparr>"

definition spinlock_lock ::
  "spinlock \<Rightarrow> 'a cpu_state_scheme \<Rightarrow> (spinlock \<times> 'a cpu_state_scheme) option" where
  "spinlock_lock l s = do {
     let irq = int_flag s;
     (l, s) \<leftarrow> spinlock_lock_asm l irq s;
     ASSERT (\<not> int_flag s);
     let l = l\<lparr>sl_interrupts_enabled := irq\<rparr>;
     ASSERT (sl_owner l = 0xFF);
     Some (l\<lparr>sl_owner := cpu_id s\<rparr>, s) }"

definition spinlock_unlock ::
  "spinlock \<Rightarrow> 'a cpu_state_scheme \<Rightarrow> (spinlock \<times> 'a cpu_state_scheme) option" where
  "spinlock_unlock l s = do {
     let interrupts = sl_interrupts_enabled l;
     ASSERT (sl_owner l = cpu_id s);
     let l = l\<lparr>sl_owner := 0xFF\<rparr>;
     let l = spinlock_unlock_asm l;
     Some (l, cpu_set_interrupt_flag interrupts s) }"

definition spinlock_is_held :: "spinlock \<Rightarrow> 'a cpu_state_scheme \<Rightarrow> bool" where
  "spinlock_is_held l s \<longleftrightarrow> sl_lock l = 1 \<and> sl_owner l = cpu_id s"

text \<open>A free lock, and the lock as the calling cpu leaves it after taking it.\<close>

definition lock_free :: "spinlock \<Rightarrow> bool" where
  "lock_free l \<longleftrightarrow> sl_lock l = 0 \<and> sl_owner l = 0xFF"

definition held_by :: "u8 \<Rightarrow> bool \<Rightarrow> spinlock" where
  "held_by cpu irq = \<lparr>sl_lock = 1, sl_interrupts_enabled = irq, sl_owner = cpu\<rparr>"

definition released :: "bool \<Rightarrow> spinlock" where
  "released irq = \<lparr>sl_lock = 0, sl_interrupts_enabled = irq, sl_owner = 0xFF\<rparr>"

lemma INIT_SPINLOCK_free [simp]: "lock_free INIT_SPINLOCK"
  by (simp add: lock_free_def INIT_SPINLOCK_def)

lemma released_free [simp]: "lock_free (released b)"
  by (simp add: lock_free_def released_def)

lemma held_by_not_free [simp]: "\<not> lock_free (held_by c b)"
  by (simp add: lock_free_def held_by_def)

lemma spinlock_lock_free [simp]:
  "lock_free l \<Longrightarrow> spinlock_lock l s = Some (held_by (cpu_id s) (int_flag s), s\<lparr>int_flag := False\<rparr>)"
  by (cases l) (simp add: spinlock_lock_def spinlock_lock_asm_def lock_free_def held_by_def Let_def)

lemma spinlock_lock_taken: "\<not> lock_free l \<Longrightarrow> spinlock_lock l s = None"
  by (auto simp: spinlock_lock_def spinlock_lock_asm_def lock_free_def ASSERT_def)

lemma spinlock_lock_eq_Some:
  "spinlock_lock l s = Some (l', s') \<longleftrightarrow>
     lock_free l \<and> l' = held_by (cpu_id s) (int_flag s) \<and> s' = s\<lparr>int_flag := False\<rparr>"
  by (cases "lock_free l") (auto simp: spinlock_lock_taken)

lemma spinlock_unlock_held [simp]:
  "cpu = cpu_id s \<Longrightarrow> spinlock_unlock (held_by cpu irq) s = Some (released irq, s\<lparr>int_flag := irq\<rparr>)"
  by (simp add: spinlock_unlock_def spinlock_unlock_asm_def held_by_def released_def
      cpu_set_interrupt_flag_def)

lemma spinlock_is_held_by [simp]: "spinlock_is_held (held_by cpu irq) s \<longleftrightarrow> cpu = cpu_id s"
  by (simp add: spinlock_is_held_def held_by_def)

text \<open>Taking a lock and giving it back restores the cpu's interrupt flag.\<close>

lemma spinlock_round_trip:
  assumes "spinlock_lock l s = Some (l1, s1)" and "spinlock_unlock l1 s1 = Some (l2, s2)"
  shows "s2 = s" and "lock_free l2"
  using assms by (auto simp: spinlock_lock_eq_Some)

subsection \<open>Reader-writer locks\<close>

record rwlock =
  readers_lock :: spinlock
  num_readers :: u32
  writer_lock :: spinlock

definition INIT_RW_LOCK :: rwlock where
  "INIT_RW_LOCK = \<lparr>readers_lock = INIT_SPINLOCK, num_readers = 0, writer_lock = INIT_SPINLOCK\<rparr>"

definition rwlock_init :: "rwlock \<Rightarrow> rwlock" where
  "rwlock_init l = INIT_RW_LOCK"

definition rwlock_read_lock ::
  "rwlock \<Rightarrow> 'a cpu_state_scheme \<Rightarrow> (rwlock \<times> 'a cpu_state_scheme) option" where
  "rwlock_read_lock l s = do {
     (rl, s) \<leftarrow> spinlock_lock (readers_lock l) s;
     let l = l\<lparr>readers_lock := rl, num_readers := num_readers l + 1\<rparr>;
     (l, s) \<leftarrow> (if num_readers l = 1 then do {
         let s = cpu_set_interrupt_flag True s;
         (wl, s) \<leftarrow> spinlock_lock (writer_lock l) s;
         Some (l\<lparr>writer_lock := wl\<rparr>, s) }
       else Some (l, s));
     (rl, s) \<leftarrow> spinlock_unlock (readers_lock l) s;
     Some (l\<lparr>readers_lock := rl\<rparr>, s) }"

definition rwlock_read_unlock ::
  "rwlock \<Rightarrow> 'a cpu_state_scheme \<Rightarrow> (rwlock \<times> 'a cpu_state_scheme) option" where
  "rwlock_read_unlock l s = do {
     (rl, s) \<leftarrow> spinlock_lock (readers_lock l) s;
     let l = l\<lparr>readers_lock := rl, num_readers := num_readers l - 1\<rparr>;
     (l, s) \<leftarrow> (if num_readers l = 0 then do {
         let wl = (writer_lock l)\<lparr>sl_owner := cpu_id s\<rparr>;
         (wl, s) \<leftarrow> spinlock_unlock wl s;
         Some (l\<lparr>writer_lock := wl\<rparr>, s) }
       else Some (l, s));
     (rl, s) \<leftarrow> spinlock_unlock (readers_lock l) s;
     Some (l\<lparr>readers_lock := rl\<rparr>, s) }"

definition rwlock_write_lock ::
  "rwlock \<Rightarrow> 'a cpu_state_scheme \<Rightarrow> (rwlock \<times> 'a cpu_state_scheme) option" where
  "rwlock_write_lock l s = do {
     (wl, s) \<leftarrow> spinlock_lock (writer_lock l) s;
     Some (l\<lparr>writer_lock := wl\<rparr>, s) }"

definition rwlock_write_unlock ::
  "rwlock \<Rightarrow> 'a cpu_state_scheme \<Rightarrow> (rwlock \<times> 'a cpu_state_scheme) option" where
  "rwlock_write_unlock l s = do {
     (wl, s) \<leftarrow> spinlock_unlock (writer_lock l) s;
     Some (l\<lparr>writer_lock := wl\<rparr>, s) }"

text \<open>
  What a reader-writer lock promises between calls: it is unused, shared by \<open>n\<close> readers
  (which hold \<open>writer_lock\<close> together), or owned by one writer with a saved interrupt flag.
\<close>

datatype rw_mode = RW_Free | RW_Readers nat | RW_Writer u8 bool

fun rw_rep :: "rwlock \<Rightarrow> rw_mode \<Rightarrow> bool" where
  "rw_rep l RW_Free \<longleftrightarrow>
     lock_free (readers_lock l) \<and> num_readers l = 0 \<and> lock_free (writer_lock l)"
| "rw_rep l (RW_Readers n) \<longleftrightarrow>
     lock_free (readers_lock l) \<and> 0 < n \<and> unat (num_readers l) = n \<and>
     (\<exists>cpu. writer_lock l = held_by cpu True)"
| "rw_rep l (RW_Writer cpu irq) \<longleftrightarrow>
     lock_free (readers_lock l) \<and> num_readers l = 0 \<and> writer_lock l = held_by cpu irq"

fun mode_read_lock :: "rw_mode \<Rightarrow> rw_mode option" where
  "mode_read_lock RW_Free = Some (RW_Readers 1)"
| "mode_read_lock (RW_Readers n) = Some (RW_Readers (Suc n))"
| "mode_read_lock (RW_Writer cpu irq) = None"

fun mode_read_unlock :: "rw_mode \<Rightarrow> rw_mode option" where
  "mode_read_unlock (RW_Readers n) = Some (if n = 1 then RW_Free else RW_Readers (n - 1))"
| "mode_read_unlock m = None"

fun mode_write_lock :: "u8 \<Rightarrow> bool \<Rightarrow> rw_mode \<Rightarrow> rw_mode option" where
  "mode_write_lock cpu irq RW_Free = Some (RW_Writer cpu irq)"
| "mode_write_lock cpu irq m = None"

lemma rw_rep_init: "rw_rep INIT_RW_LOCK RW_Free"
  by (simp add: INIT_RW_LOCK_def)

lemma rw_read_lock_free:
  assumes "rw_rep l RW_Free"
  shows "\<exists>l'. rwlock_read_lock l s = Some (l', s) \<and> rw_rep l' (RW_Readers 1)"
  using assms by (auto simp: rwlock_read_lock_def cpu_set_interrupt_flag_def Let_def)

lemma rw_read_lock_shared:
  assumes "rw_rep l (RW_Readers n)" and "Suc n < 2 ^ 32"
  shows "\<exists>l'. rwlock_read_lock l s = Some (l', s) \<and> rw_rep l' (RW_Readers (Suc n))"
proof -
  have inc: "unat (num_readers l + 1) = Suc n"
    using assms by (simp add: unat_add_no_overflow)
  then have "num_readers l + 1 \<noteq> 1"
    using assms(1) by (auto simp: word_unat_eq_iff)
  then show ?thesis
    using assms inc by (auto simp: rwlock_read_lock_def Let_def)
qed

lemma rw_read_lock_writer:
  assumes "rw_rep l (RW_Writer cpu irq)"
  shows "rwlock_read_lock l s = None"
  using assms by (simp add: rwlock_read_lock_def spinlock_lock_taken Let_def)

lemma rw_read_unlock_last:
  assumes "rw_rep l (RW_Readers 1)"
  shows "\<exists>l'. rwlock_read_unlock l s = Some (l', s) \<and> rw_rep l' RW_Free"
proof -
  have "num_readers l = 1" using assms by (simp add: word_unat_eq_iff)
  moreover have "(held_by cpu irq)\<lparr>sl_owner := c\<rparr> = held_by c irq" for cpu irq c
    by (simp add: held_by_def)
  ultimately show ?thesis
    using assms by (auto simp: rwlock_read_unlock_def Let_def)
qed

lemma rw_read_unlock_shared:
  assumes "rw_rep l (RW_Readers n)" and "n \<noteq> 1"
  shows "\<exists>l'. rwlock_read_unlock l s = Some (l', s) \<and> rw_rep l' (RW_Readers (n - 1))"
proof -
  have "1 < n" and dec: "unat (num_readers l - 1) = n - 1"
    using assms by (auto simp: unat_sub_no_underflow)
  then have "num_readers l - 1 \<noteq> 0" by (auto simp: word_unat_eq_iff)
  then show ?thesis
    using assms dec \<open>1 < n\<close> by (auto simp: rwlock_read_unlock_def Let_def)
qed

lemma rw_write_lock_taken:
  assumes "rw_rep l m" and "m \<noteq> RW_Free"
  shows "rwlock_write_lock l s = None"
  using assms by (cases m) (auto simp: rwlock_write_lock_def spinlock_lock_taken)

lemma rw_write_lock_free:
  assumes "rw_rep l RW_Free"
  shows "\<exists>l'. rwlock_write_lock l s = Some (l', s\<lparr>int_flag := False\<rparr>) \<and>
    rw_rep l' (RW_Writer (cpu_id s) (int_flag s))"
  using assms by (simp add: rwlock_write_lock_def)

lemma rw_write_unlock:
  assumes "rw_rep l (RW_Writer (cpu_id s) irq)"
  shows "\<exists>l'. rwlock_write_unlock l s = Some (l', s\<lparr>int_flag := irq\<rparr>) \<and> rw_rep l' RW_Free"
  using assms by (simp add: rwlock_write_unlock_def)

subsection \<open>Properties\<close>

text \<open>
  C18: the code of a reader-writer lock implements the three-state contract: from any state of
  the lock, \<open>rwlock_read_lock\<close> takes it exactly when no writer has it and leaves the caller's
  interrupt flag as it was, \<open>rwlock_read_unlock\<close> undoes one reader, the last reader's call
  giving the lock back whichever cpu makes it, and \<open>rwlock_write_lock\<close> succeeds exactly on an
  unused lock. A call that has to wait has no result.
\<close>

theorem rwlock_refines_modes:
  assumes "rw_rep l m" and "\<And>n. m = RW_Readers n \<Longrightarrow> Suc n < 2 ^ 32"
  shows "(case mode_read_lock m of
        None \<Rightarrow> rwlock_read_lock l s = None
      | Some m' \<Rightarrow> \<exists>l'. rwlock_read_lock l s = Some (l', s) \<and> rw_rep l' m') \<and>
    (case mode_read_unlock m of
        None \<Rightarrow> True
      | Some m' \<Rightarrow> \<exists>l'. rwlock_read_unlock l s = Some (l', s) \<and> rw_rep l' m') \<and>
    (case mode_write_lock (cpu_id s) (int_flag s) m of
        None \<Rightarrow> rwlock_write_lock l s = None
      | Some m' \<Rightarrow> \<exists>l'. rwlock_write_lock l s = Some (l', s\<lparr>int_flag := False\<rparr>) \<and> rw_rep l' m' \<and>
          (\<exists>l''. rwlock_write_unlock l' (s\<lparr>int_flag := False\<rparr>) = Some (l'', s) \<and> rw_rep l'' m))"
proof (cases m)
  case RW_Free
  then have r: "rw_rep l RW_Free" using assms(1) by simp
  obtain l' where l': "rwlock_write_lock l s = Some (l', s\<lparr>int_flag := False\<rparr>)"
    "rw_rep l' (RW_Writer (cpu_id s) (int_flag s))"
    using rw_write_lock_free [OF r] by blast
  then have "\<exists>l''. rwlock_write_unlock l' (s\<lparr>int_flag := False\<rparr>) = Some (l'', s) \<and> rw_rep l'' RW_Free"
    using rw_write_unlock [of l' "s\<lparr>int_flag := False\<rparr>" "int_flag s"] by simp
  with l' r RW_Free rw_read_lock_free [OF r, of s] show ?thesis by fastforce
next
  case (RW_Readers n)
  then have r: "rw_rep l (RW_Readers n)" and "Suc n < 2 ^ 32" using assms by simp_all
  with RW_Readers rw_read_lock_shared [OF r, of s] rw_write_lock_taken [OF r, of s]
    rw_read_unlock_last [of l s] rw_read_unlock_shared [OF r, of s]
  show ?thesis by (cases "n = 1") simp_all
next
  case (RW_Writer cpu irq)
  then have r: "rw_rep l (RW_Writer cpu irq)" using assms(1) by simp
  with RW_Writer rw_read_lock_writer [OF r, of s] rw_write_lock_taken [OF r, of s]
  show ?thesis by simp
qed

theorem rwlock_refines_modes_witness:
  "let s = \<lparr>cpu_id = 1, int_flag = True, error_list = [], error_descs = []\<rparr>
   in \<exists>l'. rwlock_read_lock INIT_RW_LOCK s = Some (l', s) \<and> rw_rep l' (RW_Readers 1)"
  using rwlock_refines_modes [of INIT_RW_LOCK RW_Free
      "\<lparr>cpu_id = 1, int_flag = True, error_list = [], error_descs = []\<rparr>"] rw_rep_init
  by (simp del: rw_rep.simps)

end
