(* ===== verification/Lock_Protocol.thy ===== *)
theory Lock_Protocol
  imports Cpu_Locks
begin

text \<open>
  The locks of \<open>spinlock.S\<close>, \<open>spinlock_def.c\<close> and \<open>rw_lock.c\<close> under concurrency: any number of
  cpus run the instructions of the lock routines in any interleaving. A spinlock is modelled
  instruction by instruction; a reader-writer lock is modelled on top of spinlocks whose
  acquisition is one step, which is what the first model shows of them.
\<close>

subsection \<open>Spinlocks, instruction by instruction\<close>

text \<open>
  Where a cpu is in \<open>spinlock_lock\<close> or \<open>spinlock_unlock\<close>. The first argument is the interrupt
  flag the cpu had when it called \<open>spinlock_lock\<close> (the local \<open>irq\<close>); the second argument of
  the last two is the local \<open>interrupts\<close> of \<open>spinlock_unlock\<close>.
\<close>

datatype spin_pc =
  Outside | Testing bool | Exchanging bool | Backoff bool | Entered bool | Owning bool
| Critical bool | Unowned bool bool | Unlocked bool bool | Panicked

record spin_sys =
  the_lock :: spinlock
  pcs :: "u8 \<Rightarrow> spin_pc"
  flags :: "u8 \<Rightarrow> bool"

definition goto :: "spin_sys \<Rightarrow> u8 \<Rightarrow> spin_pc \<Rightarrow> spin_sys" where
  "goto s i p = s\<lparr>pcs := (pcs s)(i := p)\<rparr>"

definition set_flag :: "spin_sys \<Rightarrow> u8 \<Rightarrow> bool \<Rightarrow> spin_sys" where
  "set_flag s i b = s\<lparr>flags := (flags s)(i := b)\<rparr>"

inductive spin_step :: "u8 \<Rightarrow> spin_sys \<Rightarrow> spin_sys \<Rightarrow> bool" where
  call: "pcs s i = Outside \<Longrightarrow> spin_step i s (goto s i (Testing (flags s i)))"
| test_free: "pcs s i = Testing irq \<Longrightarrow> sl_lock (the_lock s) = 0 \<Longrightarrow>
    spin_step i s (goto (set_flag s i False) i (Exchanging irq))"
| test_taken: "pcs s i = Testing irq \<Longrightarrow> sl_lock (the_lock s) \<noteq> 0 \<Longrightarrow>
    spin_step i s (goto (set_flag s i False) i (Backoff irq))"
| pause: "pcs s i = Backoff irq \<Longrightarrow>
    spin_step i s (goto (set_flag s i (irq \<or> flags s i)) i (Testing irq))"
| cmpxchg: "pcs s i = Exchanging irq \<Longrightarrow> sl_lock (the_lock s) = 0 \<Longrightarrow>
    spin_step i s (goto (s\<lparr>the_lock := (the_lock s)\<lparr>sl_lock := 1\<rparr>\<rparr>) i (Entered irq))"
| cmpxchg_lost: "pcs s i = Exchanging irq \<Longrightarrow> sl_lock (the_lock s) \<noteq> 0 \<Longrightarrow>
    spin_step i s (goto s i (Backoff irq))"
| save: "pcs s i = Entered irq \<Longrightarrow>
    spin_step i s (if flags s i then goto s i Panicked
      else goto (s\<lparr>the_lock := (the_lock s)\<lparr>sl_interrupts_enabled := irq\<rparr>\<rparr>) i (Owning irq))"
| own: "pcs s i = Owning irq \<Longrightarrow>
    spin_step i s (if sl_owner (the_lock s) = 0xFF
      then goto (s\<lparr>the_lock := (the_lock s)\<lparr>sl_owner := i\<rparr>\<rparr>) i (Critical irq)
      else goto s i Panicked)"
| disown: "pcs s i = Critical irq \<Longrightarrow>
    spin_step i s (if sl_owner (the_lock s) = i
      then goto (s\<lparr>the_lock := (the_lock s)\<lparr>sl_owner := 0xFF\<rparr>\<rparr>) i
             (Unowned irq (sl_interrupts_enabled (the_lock s)))
      else goto s i Panicked)"
| unlock: "pcs s i = Unowned irq sv \<Longrightarrow>
    spin_step i s (goto (s\<lparr>the_lock := (the_lock s)\<lparr>sl_lock := 0\<rparr>\<rparr>) i (Unlocked irq sv))"
| restore: "pcs s i = Unlocked irq sv \<Longrightarrow>
    spin_step i s (goto (set_flag s i sv) i Outside)"
| other_code: "pcs s i = Outside \<or> (\<exists>irq. pcs s i = Critical irq) \<Longrightarrow> spin_step i s (set_flag s i b)"

inductive_cases spin_stepE: "spin_step i s t"

text \<open>A run starts with the lock as \<open>INIT_SPINLOCK\<close> leaves it and every cpu outside of it.\<close>

inductive spin_reach :: "spin_sys \<Rightarrow> bool" where
  spin_start: "the_lock s = INIT_SPINLOCK \<Longrightarrow> (\<And>i. pcs s i = Outside) \<Longrightarrow> spin_reach s"
| spin_next: "spin_reach s \<Longrightarrow> spin_step i s t \<Longrightarrow> spin_reach t"

text \<open>What the cpu between a successful \<open>cmpxchg\<close> and the write of 0 to the lock byte relies on.\<close>

fun holds :: "spin_pc \<Rightarrow> bool" where
  "holds (Entered irq) \<longleftrightarrow> True"
| "holds (Owning irq) \<longleftrightarrow> True"
| "holds (Critical irq) \<longleftrightarrow> True"
| "holds (Unowned irq sv) \<longleftrightarrow> True"
| "holds _ \<longleftrightarrow> False"

fun pc_ok :: "spinlock \<Rightarrow> u8 \<Rightarrow> bool \<Rightarrow> spin_pc \<Rightarrow> bool" where
  "pc_ok l i flag (Exchanging irq) \<longleftrightarrow> \<not> flag"
| "pc_ok l i flag (Entered irq) \<longleftrightarrow> \<not> flag \<and> sl_owner l = 0xFF"
| "pc_ok l i flag (Owning irq) \<longleftrightarrow> \<not> flag \<and> sl_owner l = 0xFF \<and> sl_interrupts_enabled l = irq"
| "pc_ok l i flag (Critical irq) \<longleftrightarrow> sl_owner l = i \<and> sl_interrupts_enabled l = irq"
| "pc_ok l i flag (Unowned irq sv) \<longleftrightarrow> sl_owner l = 0xFF \<and> sv = irq"
| "pc_ok l i flag (Unlocked irq sv) \<longleftrightarrow> sv = irq"
| "pc_ok l i flag Panicked \<longleftrightarrow> False"
| "pc_ok l i flag _ \<longleftrightarrow> True"

definition spin_inv :: "spin_sys \<Rightarrow> bool" where
  "spin_inv s \<longleftrightarrow>
     (sl_lock (the_lock s) = 0 \<longrightarrow> sl_owner (the_lock s) = 0xFF \<and> (\<forall>i. \<not> holds (pcs s i))) \<and>
     (\<forall>i j. holds (pcs s i) \<longrightarrow> holds (pcs s j) \<longrightarrow> i = j) \<and>
     (\<forall>i. pc_ok (the_lock s) i (flags s i) (pcs s i))"

lemma pc_ok_not_holding:
  assumes "\<not> holds p" and "pc_ok l i f p"
  shows "pc_ok l' i f p"
  using assms by (cases p) auto

text \<open>
  A step of cpu \<open>i\<close> keeps the invariant when it keeps it for \<open>i\<close> and, if it changes the lock,
  \<open>i\<close> is the only cpu that relies on it.
\<close>

lemma spin_inv_update:
  assumes inv: "spin_inv s"
    and ok: "pc_ok l i f p"
    and alone: "l \<noteq> the_lock s \<or> holds p \<Longrightarrow> \<forall>j. j \<noteq> i \<longrightarrow> \<not> holds (pcs s j)"
    and free: "sl_lock l = 0 \<Longrightarrow> sl_owner l = 0xFF \<and> \<not> holds p \<and> (\<forall>j. j \<noteq> i \<longrightarrow> \<not> holds (pcs s j))"
  shows "spin_inv \<lparr>the_lock = l, pcs = (pcs s)(i := p), flags = (flags s)(i := f)\<rparr>"
proof -
  have each: "pc_ok (the_lock s) j (flags s j) (pcs s j)" for j
    using inv by (simp add: spin_inv_def)
  have uniq: "holds (pcs s a) \<Longrightarrow> holds (pcs s b) \<Longrightarrow> a = b" for a b
    using inv by (simp add: spin_inv_def)
  have others: "pc_ok l j (flags s j) (pcs s j)" if "j \<noteq> i" for j
  proof (cases "l = the_lock s")
    case True
    with each show ?thesis by simp
  next
    case False
    with alone that have "\<not> holds (pcs s j)" by blast
    then show ?thesis using each by (rule pc_ok_not_holding)
  qed
  have "a = b" if "holds (((pcs s)(i := p)) a)" "holds (((pcs s)(i := p)) b)" for a b
    using that uniq [of a b] alone by (cases "a = i"; cases "b = i") auto
  moreover have "pc_ok l j (((flags s)(i := f)) j) (((pcs s)(i := p)) j)" for j
    using ok others by (cases "j = i") simp_all
  moreover have "sl_owner l = 0xFF \<and> (\<forall>j. \<not> holds (((pcs s)(i := p)) j))" if "sl_lock l = 0"
    using free [OF that] by simp
  ultimately show ?thesis
    unfolding spin_inv_def spin_sys.simps by blast
qed

lemmas spin_inv_goto = spin_inv_update [where f = "flags s i" and s = s and i = i for s i,
  unfolded fun_upd_triv]

lemma spin_inv_alone:
  assumes "spin_inv s" and "holds (pcs s i)"
  shows "\<forall>j. j \<noteq> i \<longrightarrow> \<not> holds (pcs s j)" and "sl_lock (the_lock s) \<noteq> 0"
  using assms by (auto simp: spin_inv_def)

lemma spin_inv_none:
  assumes "spin_inv s" and "sl_lock (the_lock s) = 0"
  shows "\<forall>j. \<not> holds (pcs s j)" and "sl_owner (the_lock s) = 0xFF"
  using assms by (auto simp: spin_inv_def)

lemma spin_inv_pc: "spin_inv s \<Longrightarrow> pcs s i = p \<Longrightarrow> pc_ok (the_lock s) i (flags s i) p"
  by (auto simp: spin_inv_def)

lemma spin_inv_set_flag:
  assumes inv: "spin_inv s" and out: "pcs s i = Outside \<or> (\<exists>irq. pcs s i = Critical irq)"
  shows "spin_inv (set_flag s i b)"
proof -
  have "pc_ok (the_lock s) j (((flags s)(i := b)) j) (pcs s j)" for j
    using spin_inv_pc [OF inv refl, of j] out by (cases "j = i") auto
  with inv show ?thesis by (simp add: spin_inv_def set_flag_def)
qed

lemma spin_step_inv:
  assumes "spin_step i s t" and inv: "spin_inv s"
  shows "spin_inv t"
proof -
  have upd: "goto s i p = \<lparr>the_lock = the_lock s, pcs = (pcs s)(i := p), flags = flags s\<rparr>"
    for s :: spin_sys and p by (simp add: goto_def)
  note alone = spin_inv_alone [OF inv, of i] and none = spin_inv_none [OF inv]
  from assms(1) show ?thesis
  proof cases
    case (cmpxchg irq)
    with spin_inv_pc [OF inv cmpxchg(2)] none show ?thesis
      by (auto simp: upd intro!: spin_inv_update [OF inv] spin_inv_goto [OF inv])
  next
    case (save irq)
    with spin_inv_pc [OF inv save(2)] alone show ?thesis
      by (auto simp: upd intro!: spin_inv_update [OF inv] spin_inv_goto [OF inv])
  next
    case (own irq)
    with spin_inv_pc [OF inv own(2)] alone show ?thesis
      by (auto simp: upd intro!: spin_inv_update [OF inv] spin_inv_goto [OF inv])
  next
    case (disown irq)
    with spin_inv_pc [OF inv disown(2)] alone show ?thesis
      by (auto simp: upd intro!: spin_inv_update [OF inv] spin_inv_goto [OF inv])
  next
    case (unlock irq sv)
    with spin_inv_pc [OF inv unlock(2)] alone show ?thesis
      by (auto simp: upd intro!: spin_inv_update [OF inv] spin_inv_goto [OF inv])
  next
    case (other_code b)
    with inv show ?thesis by (simp add: spin_inv_set_flag)
  qed (use spin_inv_pc [OF inv, of i] none in
      \<open>auto simp: upd set_flag_def intro!: spin_inv_update [OF inv] spin_inv_goto [OF inv]\<close>)
qed

lemma spin_reach_inv: "spin_reach s \<Longrightarrow> spin_inv s"
proof (induction rule: spin_reach.induct)
  case (spin_start s)
  then show ?case by (simp add: spin_inv_def INIT_SPINLOCK_def)
next
  case (spin_next s i t)
  then show ?case using spin_step_inv by blast
qed

text \<open>
  A free lock is not stuck: the caller's own instructions, with no other cpu moving, take it,
  and those of \<open>spinlock_unlock\<close> give it back with the caller's interrupt flag as before.
\<close>

inductive spin_run :: "u8 \<Rightarrow> spin_sys \<Rightarrow> spin_sys \<Rightarrow> bool" where
  run_done: "spin_run i s s"
| run_more: "spin_step i s t \<Longrightarrow> spin_run i t u \<Longrightarrow> spin_run i s u"

lemma spin_run_reach: "spin_run i s t \<Longrightarrow> spin_reach s \<Longrightarrow> spin_reach t"
  by (induction rule: spin_run.induct) (blast intro: spin_next)+

lemma spin_take:
  assumes "pcs s i = Outside" and "sl_lock (the_lock s) = 0" and "sl_owner (the_lock s) = 0xFF"
  shows "\<exists>t. spin_run i s t \<and> pcs t i = Critical (flags s i) \<and>
    the_lock t = held_by i (flags s i) \<and> \<not> flags t i"
proof -
  let ?irq = "flags s i"
  let ?s1 = "goto s i (Testing ?irq)"
  let ?s2 = "goto (set_flag ?s1 i False) i (Exchanging ?irq)"
  let ?s3 = "goto (?s2\<lparr>the_lock := (the_lock s)\<lparr>sl_lock := 1\<rparr>\<rparr>) i (Entered ?irq)"
  let ?s4 = "goto (?s3\<lparr>the_lock := (the_lock s)\<lparr>sl_lock := 1, sl_interrupts_enabled := ?irq\<rparr>\<rparr>) i (Owning ?irq)"
  let ?s5 = "goto (?s4\<lparr>the_lock := (the_lock s)\<lparr>sl_lock := 1, sl_interrupts_enabled := ?irq, sl_owner := i\<rparr>\<rparr>)
    i (Critical ?irq)"
  have "spin_step i s ?s1" using assms by (intro call)
  moreover have "spin_step i ?s1 ?s2" using assms by (intro test_free) (simp_all add: goto_def)
  moreover have "spin_step i ?s2 ?s3"
    using cmpxchg [of ?s2 i ?irq] assms by (simp add: goto_def set_flag_def)
  moreover have "spin_step i ?s3 ?s4"
    using save [of ?s3 i ?irq] by (simp add: goto_def set_flag_def)
  moreover have "spin_step i ?s4 ?s5"
    using own [of ?s4 i ?irq] assms by (simp add: goto_def set_flag_def)
  ultimately have "spin_run i s ?s5" by (blast intro: spin_run.intros)
  moreover have "the_lock ?s5 = held_by i ?irq" by (cases "the_lock s") (simp add: goto_def held_by_def)
  ultimately show ?thesis by (intro exI [of _ ?s5]) (simp add: goto_def set_flag_def)
qed

lemma spin_give_back:
  assumes "pcs s i = Critical irq" and "the_lock s = held_by i irq"
  shows "\<exists>t. spin_run i s t \<and> pcs t i = Outside \<and> the_lock t = released irq \<and> flags t i = irq"
proof -
  let ?s1 = "goto (s\<lparr>the_lock := (the_lock s)\<lparr>sl_owner := 0xFF\<rparr>\<rparr>) i (Unowned irq irq)"
  let ?s2 = "goto (?s1\<lparr>the_lock := (the_lock ?s1)\<lparr>sl_lock := 0\<rparr>\<rparr>) i (Unlocked irq irq)"
  let ?s3 = "goto (set_flag ?s2 i irq) i Outside"
  have "spin_step i s ?s1"
    using disown [OF assms(1)] assms(2) by (simp add: held_by_def)
  moreover have "spin_step i ?s1 ?s2" by (intro unlock) (simp add: goto_def)
  moreover have "spin_step i ?s2 ?s3" by (intro restore) (simp add: goto_def)
  ultimately have "spin_run i s ?s3" by (blast intro: spin_run.intros)
  moreover have "the_lock ?s3 = released irq"
    using assms(2) by (simp add: goto_def set_flag_def held_by_def released_def)
  ultimately show ?thesis by (intro exI [of _ ?s3]) (simp add: goto_def set_flag_def)
qed

subsection \<open>Reader-writer locks over atomic spinlocks\<close>

text \<open>
  Where a cpu is in the four routines of \<open>rw_lock.c\<close>. \<open>R_\<close> is \<open>rwlock_read_lock\<close>, \<open>RU_\<close> is
  \<open>rwlock_read_unlock\<close>; each constructor is the next thing the cpu does.
\<close>

datatype rw_pc =
  Idle | R_lock | R_inc | R_writer | R_unlock | Reading
| RU_lock | RU_dec | RU_fix | RU_writer | RU_unlock
| W_lock | Writing | RW_panicked

record rw_sys =
  r_owner :: "u8 option"
  readers :: u32
  w_owner :: "u8 option"
  rpcs :: "u8 \<Rightarrow> rw_pc"

definition rgoto :: "rw_sys \<Rightarrow> u8 \<Rightarrow> rw_pc \<Rightarrow> rw_sys" where
  "rgoto s i p = s\<lparr>rpcs := (rpcs s)(i := p)\<rparr>"

inductive rw_step :: "u8 \<Rightarrow> rw_sys \<Rightarrow> rw_sys \<Rightarrow> bool" where
  read_lock: "rpcs s i = Idle \<Longrightarrow> rw_step i s (rgoto s i R_lock)"
| r_lock: "rpcs s i = R_lock \<Longrightarrow> r_owner s = None \<Longrightarrow>
    rw_step i s (rgoto (s\<lparr>r_owner := Some i\<rparr>) i R_inc)"
| r_inc: "rpcs s i = R_inc \<Longrightarrow>
    rw_step i s (rgoto (s\<lparr>readers := readers s + 1\<rparr>) i
      (if readers s + 1 = 1 then R_writer else R_unlock))"
| r_writer: "rpcs s i = R_writer \<Longrightarrow> w_owner s = None \<Longrightarrow>
    rw_step i s (rgoto (s\<lparr>w_owner := Some i\<rparr>) i R_unlock)"
| r_unlock: "rpcs s i = R_unlock \<Longrightarrow>
    rw_step i s (if r_owner s = Some i then rgoto (s\<lparr>r_owner := None\<rparr>) i Reading
      else rgoto s i RW_panicked)"
| read_unlock: "rpcs s i = Reading \<Longrightarrow> rw_step i s (rgoto s i RU_lock)"
| ru_lock: "rpcs s i = RU_lock \<Longrightarrow> r_owner s = None \<Longrightarrow>
    rw_step i s (rgoto (s\<lparr>r_owner := Some i\<rparr>) i RU_dec)"
| ru_dec: "rpcs s i = RU_dec \<Longrightarrow>
    rw_step i s (rgoto (s\<lparr>readers := readers s - 1\<rparr>) i
      (if readers s - 1 = 0 then RU_fix else RU_unlock))"
| ru_fix: "rpcs s i = RU_fix \<Longrightarrow> rw_step i s (rgoto (s\<lparr>w_owner := Some i\<rparr>) i RU_writer)"
| ru_writer: "rpcs s i = RU_writer \<Longrightarrow>
    rw_step i s (if w_owner s = Some i then rgoto (s\<lparr>w_owner := None\<rparr>) i RU_unlock
      else rgoto s i RW_panicked)"
| ru_unlock: "rpcs s i = RU_unlock \<Longrightarrow>
    rw_step i s (if r_owner s = Some i then rgoto (s\<lparr>r_owner := None\<rparr>) i Idle
      else rgoto s i RW_panicked)"
| write_lock: "rpcs s i = Idle \<Longrightarrow> rw_step i s (rgoto s i W_lock)"
| w_lock: "rpcs s i = W_lock \<Longrightarrow> w_owner s = None \<Longrightarrow>
    rw_step i s (rgoto (s\<lparr>w_owner := Some i\<rparr>) i Writing)"
| write_unlock: "rpcs s i = Writing \<Longrightarrow>
    rw_step i s (if w_owner s = Some i then rgoto (s\<lparr>w_owner := None\<rparr>) i Idle
      else rgoto s i RW_panicked)"

inductive_cases rw_stepE: "rw_step i s t"

inductive rw_reach :: "rw_sys \<Rightarrow> bool" where
  rw_start: "r_owner s = None \<Longrightarrow> readers s = 0 \<Longrightarrow> w_owner s = None \<Longrightarrow>
    (\<And>i. rpcs s i = Idle) \<Longrightarrow> rw_reach s"
| rw_next: "rw_reach s \<Longrightarrow> rw_step i s t \<Longrightarrow> rw_reach t"

text \<open>
  The cpus \<open>num_readers\<close> counts, those inside \<open>readers_lock\<close>, and those on whose behalf the
  readers hold \<open>writer_lock\<close>.
\<close>

fun counted :: "rw_pc \<Rightarrow> bool" where
  "counted R_writer = True"
| "counted R_unlock = True"
| "counted Reading = True"
| "counted RU_lock = True"
| "counted RU_dec = True"
| "counted _ = False"

fun inside :: "rw_pc \<Rightarrow> bool" where
  "inside R_inc = True"
| "inside R_writer = True"
| "inside R_unlock = True"
| "inside RU_dec = True"
| "inside RU_fix = True"
| "inside RU_writer = True"
| "inside RU_unlock = True"
| "inside _ = False"

fun shares :: "rw_pc \<Rightarrow> bool" where
  "shares R_unlock = True"
| "shares Reading = True"
| "shares RU_lock = True"
| "shares RU_dec = True"
| "shares RU_fix = True"
| "shares RU_writer = True"
| "shares _ = False"

definition counted_cpus :: "rw_sys \<Rightarrow> u8 set" where
  "counted_cpus s = {i. counted (rpcs s i)}"

definition rw_count_inv :: "rw_sys \<Rightarrow> bool" where
  "rw_count_inv s \<longleftrightarrow> unat (readers s) = card (counted_cpus s)"

definition rw_owner_inv :: "rw_sys \<Rightarrow> bool" where
  "rw_owner_inv s \<longleftrightarrow> (\<forall>i. inside (rpcs s i) \<longleftrightarrow> r_owner s = Some i)"

definition rw_writer_inv :: "rw_sys \<Rightarrow> bool" where
  "rw_writer_inv s \<longleftrightarrow>
     (\<forall>i. shares (rpcs s i) \<longrightarrow> w_owner s \<noteq> None) \<and>
     (\<forall>i j. shares (rpcs s i) \<longrightarrow> rpcs s j \<noteq> Writing) \<and>
     (\<forall>i. rpcs s i = Writing \<longrightarrow> w_owner s = Some i) \<and>
     (\<forall>i. rpcs s i = RU_writer \<longrightarrow> w_owner s = Some i) \<and>
     (\<forall>i. rpcs s i = R_writer \<longrightarrow> counted_cpus s = {i}) \<and>
     (\<forall>i. rpcs s i \<in> {RU_fix, RU_writer} \<longrightarrow> counted_cpus s = {}) \<and>
     (\<forall>i. rpcs s i \<noteq> RW_panicked)"

lemma counted_cpus_update:
  "counted_cpus (rgoto s i p) =
     (if counted p then insert i (counted_cpus s) else counted_cpus s - {i})"
  by (auto simp: counted_cpus_def rgoto_def)

lemma counted_cpus_fields [simp]:
  "counted_cpus (s\<lparr>r_owner := a\<rparr>) = counted_cpus s"
  "counted_cpus (s\<lparr>readers := n\<rparr>) = counted_cpus s"
  "counted_cpus (s\<lparr>w_owner := b\<rparr>) = counted_cpus s"
  by (simp_all add: counted_cpus_def)

lemma rgoto_sel [simp]:
  "readers (rgoto s i p) = readers s" "r_owner (rgoto s i p) = r_owner s"
  "w_owner (rgoto s i p) = w_owner s" "rpcs (rgoto s i p) = (rpcs s)(i := p)"
  by (simp_all add: rgoto_def)

lemma counted_branch [simp]:
  "counted (if b then R_writer else R_unlock)" "\<not> counted (if b then RU_fix else RU_unlock)"
  by simp_all

lemma counted_cpus_mem: "i \<in> counted_cpus s \<longleftrightarrow> counted (rpcs s i)"
  by (simp add: counted_cpus_def)

lemma card_counted_bound: "card (counted_cpus s) \<le> 256"
  using card_mono [of "UNIV :: u8 set" "counted_cpus s"] by (simp add: card_word)

lemma rw_step_owner:
  assumes "rw_step i s t" and own: "rw_owner_inv s" and wr: "rw_writer_inv s"
  shows "rw_owner_inv t"
proof -
  have at: "inside (rpcs s j) \<longleftrightarrow> r_owner s = Some j" for j
    using own by (simp add: rw_owner_inv_def)
  have w: "rpcs s i \<in> {RU_writer, Writing} \<Longrightarrow> w_owner s = Some i"
    using wr by (auto simp: rw_writer_inv_def)
  show ?thesis
    unfolding rw_owner_inv_def
  proof
    fix j
    from assms(1) show "inside (rpcs t j) \<longleftrightarrow> r_owner t = Some j"
      using at [of i] at [of j] w by cases auto
  qed
qed

lemma rw_step_count:
  assumes "rw_step i s t" and cnt: "rw_count_inv s" and wr: "rw_writer_inv s" and own: "rw_owner_inv s"
  shows "rw_count_inv t"
proof -
  have c: "unat (readers s) = card (counted_cpus s)" using cnt by (simp add: rw_count_inv_def)
  have r: "inside (rpcs s i) \<Longrightarrow> r_owner s = Some i" using own by (simp add: rw_owner_inv_def)
  from assms(1) show ?thesis
  proof cases
    case r_inc
    then have "i \<notin> counted_cpus s" by (simp add: counted_cpus_mem)
    moreover have "unat (readers s + 1) = Suc (unat (readers s))"
      using card_counted_bound [of s] c by (simp add: unat_add_no_overflow)
    ultimately show ?thesis
      using r_inc c by (simp add: rw_count_inv_def counted_cpus_update)
  next
    case ru_dec
    then have "i \<in> counted_cpus s" by (simp add: counted_cpus_mem)
    moreover from this have "0 < card (counted_cpus s)" by (auto simp: card_gt_0_iff)
    then have "unat (readers s - 1) = unat (readers s) - 1"
      using c by (simp add: unat_sub_no_underflow)
    ultimately show ?thesis
      using ru_dec c by (simp add: rw_count_inv_def counted_cpus_update)
  qed (use c r in \<open>simp_all add: rw_count_inv_def counted_cpus_update insert_absorb
      counted_cpus_mem split: if_splits\<close>)
qed

text \<open>A reader that counts itself while others are counted finds \<open>writer_lock\<close> held by them.\<close>

lemma rw_counted_share:
  assumes own: "rw_owner_inv s" and "inside (rpcs s i)" and "\<not> counted (rpcs s i)"
    and "j \<in> counted_cpus s"
  shows "shares (rpcs s j)"
proof -
  have "j \<noteq> i" and "counted (rpcs s j)" using assms(3,4) by (auto simp: counted_cpus_mem)
  then have "\<not> inside (rpcs s j)" using own assms(2) by (auto simp: rw_owner_inv_def)
  with \<open>counted (rpcs s j)\<close> show ?thesis by (cases "rpcs s j") auto
qed

lemma rw_writer_quiet:
  assumes wr: "rw_writer_inv s" and same: "counted p = counted (rpcs s i)" "shares p = shares (rpcs s i)"
    and p: "p \<notin> {Writing, RU_writer, R_writer, RU_fix, RW_panicked}"
  shows "rw_writer_inv (rgoto (s\<lparr>r_owner := a\<rparr>) i p)"
proof -
  have "counted_cpus (rgoto (s\<lparr>r_owner := a\<rparr>) i p) = counted_cpus s"
    using same(1) by (auto simp: counted_cpus_update counted_cpus_mem)
  with assms show ?thesis by (auto simp: rw_writer_inv_def)
qed

lemma rw_writerD:
  assumes "rw_writer_inv s"
  shows "shares (rpcs s j) \<Longrightarrow> w_owner s \<noteq> None"
    and "shares (rpcs s j) \<Longrightarrow> rpcs s k \<noteq> Writing"
    and "rpcs s j = Writing \<Longrightarrow> w_owner s = Some j"
    and "rpcs s j = RU_writer \<Longrightarrow> w_owner s = Some j"
    and "rpcs s j = R_writer \<Longrightarrow> counted_cpus s = {j}"
    and "rpcs s j \<in> {RU_fix, RU_writer} \<Longrightarrow> counted_cpus s = {}"
    and "rpcs s j \<noteq> RW_panicked"
  using assms by (unfold rw_writer_inv_def) blast+

text \<open>The cpu inside \<open>readers_lock\<close> is alone there.\<close>

lemma rw_alone:
  assumes "rw_owner_inv s" and "inside (rpcs s i)" and "j \<noteq> i"
  shows "\<not> inside (rpcs s j)" and "rpcs s j \<notin> {R_writer, RU_fix, RU_writer}"
proof -
  show *: "\<not> inside (rpcs s j)" using assms by (auto simp: rw_owner_inv_def)
  then show "rpcs s j \<notin> {R_writer, RU_fix, RU_writer}" by auto
qed

lemma rw_readers_zero: "rw_count_inv s \<Longrightarrow> readers s = 0 \<longleftrightarrow> counted_cpus s = {}"
  by (auto simp: rw_count_inv_def word_unat_eq_iff)

lemma rw_writer_inc:
  assumes "rpcs s i = R_inc" and own: "rw_owner_inv s" and cnt: "rw_count_inv s" and wr: "rw_writer_inv s"
  shows "rw_writer_inv (rgoto (s\<lparr>readers := readers s + 1\<rparr>) i
    (if readers s + 1 = 1 then R_writer else R_unlock))"
proof -
  note zero = rw_readers_zero [OF cnt]
  have sh: "\<exists>j. shares (rpcs s j)" if "readers s \<noteq> 0"
    using that rw_counted_share [OF own, of i] assms(1) by (auto simp: zero)
  have no: "rpcs s j \<notin> {R_writer, RU_fix, RU_writer}" for j
    using rw_alone(2) [OF own, of i j] assms(1) by (cases "j = i") simp_all
  show ?thesis
    unfolding rw_writer_inv_def
    using assms(1) no sh rw_writerD(1-3,7) [OF wr] zero
    by (intro conjI allI impI) (auto simp: counted_cpus_update split: if_splits)
qed

lemma rw_writer_dec:
  assumes pc: "rpcs s i = RU_dec" and own: "rw_owner_inv s" and cnt: "rw_count_inv s"
    and wr: "rw_writer_inv s"
  shows "rw_writer_inv (rgoto (s\<lparr>readers := readers s - 1\<rparr>) i
    (if readers s - 1 = 0 then RU_fix else RU_unlock))" (is "rw_writer_inv ?t")
proof -
  have "rw_count_inv ?t" using ru_dec [OF pc] cnt wr own by (rule rw_step_count)
  then have one: "readers s - 1 = 0 \<longleftrightarrow> counted_cpus s - {i} = {}"
    by (auto simp: rw_count_inv_def counted_cpus_update word_unat_eq_iff)
  have no: "rpcs s j \<notin> {R_writer, RU_fix, RU_writer}" for j
    using rw_alone(2) [OF own, of i j] pc by (cases "j = i") simp_all
  have shi: "shares (rpcs s i)" using pc by simp
  show ?thesis
    unfolding rw_writer_inv_def
    using pc no rw_writerD(1,2) [OF wr shi] rw_writerD(7) [OF wr] one
    by (intro conjI allI impI) (auto simp: counted_cpus_update split: if_splits)
qed

lemma rw_writer_first_reader:
  assumes pc: "rpcs s i = R_writer" and "w_owner s = None" and own: "rw_owner_inv s"
    and wr: "rw_writer_inv s"
  shows "rw_writer_inv (rgoto (s\<lparr>w_owner := Some i\<rparr>) i R_unlock)"
proof -
  have none: "\<not> shares (rpcs s j)" "rpcs s j \<noteq> Writing" for j
    using rw_writerD(1,3) [OF wr, of j] assms(2) by auto
  have no: "j \<noteq> i \<Longrightarrow> rpcs s j \<notin> {R_writer, RU_fix, RU_writer}" for j
    using rw_alone(2) [OF own, of i j] pc by simp
  show ?thesis
    unfolding rw_writer_inv_def
    using pc none no rw_writerD(7) [OF wr]
    by (intro conjI allI impI) (auto simp: counted_cpus_update split: if_splits)
qed

lemma rw_writer_fix:
  assumes pc: "rpcs s i = RU_fix" and own: "rw_owner_inv s" and wr: "rw_writer_inv s"
  shows "rw_writer_inv (rgoto (s\<lparr>w_owner := Some i\<rparr>) i RU_writer)"
proof -
  have shi: "shares (rpcs s i)" using pc by simp
  have no: "j \<noteq> i \<Longrightarrow> rpcs s j \<notin> {R_writer, RU_fix, RU_writer}" for j
    using rw_alone(2) [OF own, of i j] pc by simp
  show ?thesis
    unfolding rw_writer_inv_def
    using pc no rw_writerD(2) [OF wr shi] rw_writerD(6) [OF wr, of i] rw_writerD(7) [OF wr]
    by (intro conjI allI impI) (auto simp: counted_cpus_update split: if_splits)
qed

lemma rw_writer_last_reader:
  assumes pc: "rpcs s i = RU_writer" and own: "rw_owner_inv s" and wr: "rw_writer_inv s"
  shows "rw_writer_inv (rgoto (s\<lparr>w_owner := None\<rparr>) i RU_unlock)"
proof -
  have shi: "shares (rpcs s i)" using pc by simp
  have no: "j \<noteq> i \<Longrightarrow> \<not> inside (rpcs s j)" for j
    using rw_alone(1) [OF own, of i j] pc by simp
  have none: "\<not> shares (rpcs s j)" if "j \<noteq> i" for j
    using no [OF that] rw_writerD(6) [OF wr, of i] pc counted_cpus_mem [of j s]
    by (cases "rpcs s j") auto
  have no': "j \<noteq> i \<Longrightarrow> rpcs s j \<notin> {R_writer, RU_fix, RU_writer}" for j
    using rw_alone(2) [OF own, of i j] pc by simp
  show ?thesis
    unfolding rw_writer_inv_def
    using pc none no' rw_writerD(2) [OF wr shi] rw_writerD(6) [OF wr, of i] rw_writerD(7) [OF wr]
    by (intro conjI allI impI) (auto simp: counted_cpus_update split: if_splits)
qed

lemma rw_writer_write_lock:
  assumes pc: "rpcs s i = W_lock" and "w_owner s = None" and wr: "rw_writer_inv s"
  shows "rw_writer_inv (rgoto (s\<lparr>w_owner := Some i\<rparr>) i Writing)"
proof -
  have none: "\<not> shares (rpcs s j)" "rpcs s j \<noteq> Writing" for j
    using rw_writerD(1,3) [OF wr, of j] assms(2) by auto
  have nr: "rpcs s j \<notin> {RU_fix, RU_writer}" for j
    using none(1) [of j] by auto
  show ?thesis
    unfolding rw_writer_inv_def
    using pc none nr rw_writerD(5,7) [OF wr]
    by (intro conjI allI impI) (auto simp: counted_cpus_update counted_cpus_mem split: if_splits)
qed

lemma rw_writer_write_unlock:
  assumes pc: "rpcs s i = Writing" and wr: "rw_writer_inv s"
  shows "rw_writer_inv (rgoto (s\<lparr>w_owner := None\<rparr>) i Idle)"
proof -
  have none: "\<not> shares (rpcs s j)" for j
    using rw_writerD(2) [OF wr, of j i] pc by auto
  have nr: "rpcs s j \<notin> {RU_fix, RU_writer}" for j
    using none [of j] by auto
  have only: "j \<noteq> i \<Longrightarrow> rpcs s j \<noteq> Writing" for j
    using rw_writerD(3) [OF wr, of j] rw_writerD(3) [OF wr, of i] pc by auto
  show ?thesis
    unfolding rw_writer_inv_def
    using pc none nr only rw_writerD(5,7) [OF wr]
    by (intro conjI allI impI) (auto simp: counted_cpus_update counted_cpus_mem split: if_splits)
qed

lemmas rw_writer_steps = rw_writer_inc rw_writer_dec rw_writer_first_reader rw_writer_fix
  rw_writer_last_reader rw_writer_write_lock rw_writer_write_unlock

lemma rw_step_writer:
  assumes "rw_step i s t" and own: "rw_owner_inv s" and cnt: "rw_count_inv s"
    and wr: "rw_writer_inv s"
  shows "rw_writer_inv t"
proof -
  have r: "inside (rpcs s i) \<Longrightarrow> r_owner s = Some i"
    using own by (simp add: rw_owner_inv_def)
  note quiet = rw_writer_quiet [OF wr, of _ i "r_owner s"] rw_writer_quiet [OF wr, of _ i "Some i"]
    rw_writer_quiet [OF wr, of _ i None]
  from assms(1) show ?thesis
  proof cases
    case r_inc
    then show ?thesis using rw_writer_inc [OF r_inc(2) own cnt wr] by (simp only:)
  next
    case ru_dec
    then show ?thesis using rw_writer_dec [OF ru_dec(2) own cnt wr] by (simp only:)
  qed (use r quiet assms(2-) rw_writerD(3,4) [OF wr, of i] in \<open>simp_all add: rw_writer_steps\<close>)
qed

lemma rw_reach_inv:
  assumes "rw_reach s"
  shows "rw_owner_inv s \<and> rw_count_inv s \<and> rw_writer_inv s"
  using assms
proof (induction rule: rw_reach.induct)
  case (rw_start s)
  then show ?case
    by (simp add: rw_owner_inv_def rw_count_inv_def rw_writer_inv_def counted_cpus_def)
next
  case (rw_next s i t)
  then show ?case
    using rw_step_owner rw_step_count rw_step_writer by blast
qed

subsection \<open>Properties\<close>


definition spin_example :: spin_sys where
  "spin_example = \<lparr>the_lock = INIT_SPINLOCK, pcs = (\<lambda>_. Outside), flags = (\<lambda>_. True)\<rparr>"

lemma spin_example_taken:
  "\<exists>s. spin_reach s \<and> pcs s 3 = Critical True \<and> the_lock s = held_by 3 True"
proof -
  have "spin_reach spin_example" by (rule spin_start) (simp_all add: spin_example_def)
  moreover obtain t where "spin_run 3 spin_example t" "pcs t 3 = Critical True"
    "the_lock t = held_by 3 True"
    using spin_take [of spin_example 3] by (auto simp: spin_example_def INIT_SPINLOCK_def)
  ultimately show ?thesis using spin_run_reach by blast
qed


text \<open>
  C19: the interrupt flag a cpu leaves \<open>spinlock_unlock\<close> with is the one it called
  \<open>spinlock_lock\<close> with, whatever the other cpus did to the lock meanwhile and whatever the
  critical section did to the flag.
\<close>

theorem spinlock_restores_flag:
  assumes "spin_reach s" and "pcs s i = Unlocked irq sv" and "spin_step i s t"
  shows "pcs t i = Outside \<and> flags t i = irq"
proof -
  have "sv = irq" using spin_inv_pc [OF spin_reach_inv [OF assms(1)] assms(2)] by simp
  from assms(3) show ?thesis
    by cases (use assms(2) \<open>sv = irq\<close> in \<open>auto simp: goto_def set_flag_def\<close>)
qed

theorem spinlock_restores_flag_witness:
  "\<exists>s t. spin_reach s \<and> pcs s 3 = Unlocked True True \<and> spin_step 3 s t \<and> pcs t 3 = Outside \<and>
    flags t 3"
proof -
  obtain s where s: "spin_reach s" "pcs s 3 = Critical True" "the_lock s = held_by 3 True"
    using spin_example_taken by blast
  let ?s1 = "goto (s\<lparr>the_lock := (the_lock s)\<lparr>sl_owner := 0xFF\<rparr>\<rparr>) 3 (Unowned True True)"
  let ?s2 = "goto (?s1\<lparr>the_lock := (the_lock ?s1)\<lparr>sl_lock := 0\<rparr>\<rparr>) 3 (Unlocked True True)"
  let ?t = "goto (set_flag ?s2 3 True) 3 Outside"
  have "spin_step 3 s ?s1" using disown [OF s(2)] s(3) by (simp add: held_by_def)
  moreover have "spin_step 3 ?s1 ?s2" by (intro unlock) (simp add: goto_def)
  ultimately have r: "spin_reach ?s2" using s(1) spin_next by blast
  have u: "pcs ?s2 3 = Unlocked True True" by (simp add: goto_def)
  have "spin_step 3 ?s2 ?t" by (intro restore) (simp add: goto_def)
  with spinlock_restores_flag [OF r u this] r u show ?thesis by blast
qed

text \<open>
  C20: a free spinlock can always be taken and given back: from any reachable state in which the
  lock byte is 0, the instructions of one cpu alone lead it into the critical section, and from
  there back out with the lock free again.
\<close>

theorem spinlock_progress:
  assumes "spin_reach s" and "pcs s i = Outside" and "sl_lock (the_lock s) = 0"
  shows "\<exists>t u. spin_run i s t \<and> pcs t i = Critical (flags s i) \<and> spin_run i t u \<and>
    pcs u i = Outside \<and> lock_free (the_lock u) \<and> flags u i = flags s i"
proof -
  have "sl_owner (the_lock s) = 0xFF"
    using spin_inv_none(2) [OF spin_reach_inv [OF assms(1)] assms(3)] .
  then obtain t where t: "spin_run i s t" "pcs t i = Critical (flags s i)"
    "the_lock t = held_by i (flags s i)"
    using spin_take [OF assms(2,3)] by blast
  with spin_give_back [OF t(2,3)] show ?thesis by (metis released_free)
qed

theorem spinlock_progress_witness:
  "\<exists>t u. spin_run 3 spin_example t \<and> pcs t 3 = Critical True \<and> spin_run 3 t u \<and>
    pcs u 3 = Outside \<and> lock_free (the_lock u) \<and> flags u 3"
proof -
  have "spin_reach spin_example" by (rule spin_start) (simp_all add: spin_example_def)
  from spinlock_progress [OF this, of 3] show ?thesis
    by (simp add: spin_example_def INIT_SPINLOCK_def)
qed

text \<open>
  C6: under every interleaving of readers and writers, a cpu that holds the lock for writing is
  the only one that holds it at all, \<open>num_readers\<close> is the exact number of readers it counts,
  and the owner assertions behind the last reader's release of a lock another cpu took never
  fail.
\<close>

theorem rwlock_exclusion:
  assumes "rw_reach s"
  shows "(\<forall>i j. rpcs s i = Writing \<longrightarrow> rpcs s j \<noteq> Reading) \<and>
    (\<forall>i j. rpcs s i = Writing \<longrightarrow> rpcs s j = Writing \<longrightarrow> i = j) \<and>
    unat (readers s) = card (counted_cpus s) \<and> (\<forall>i. rpcs s i \<noteq> RW_panicked)"
proof -
  note inv = rw_reach_inv [OF assms]
  then have wr: "rw_writer_inv s" by simp
  have "rpcs s j \<noteq> Reading" if "rpcs s i = Writing" for i j
    using rw_writerD(2) [OF wr, of j i] that by auto
  moreover have "i = j" if "rpcs s i = Writing" "rpcs s j = Writing" for i j
    using rw_writerD(3) [OF wr] that by (metis option.inject)
  ultimately show ?thesis using inv rw_writerD(7) [OF wr] by (simp add: rw_count_inv_def)
qed

theorem rwlock_exclusion_witness:
  "let s = \<lparr>r_owner = None, readers = 0, w_owner = Some 1,
            rpcs = (\<lambda>_. Idle)(2 := R_lock, 1 := Writing)\<rparr>
   in rw_reach s \<and> (\<forall>j. rpcs s j \<noteq> Reading) \<and> unat (readers s) = card (counted_cpus s)"
proof -
  let ?s0 = "\<lparr>r_owner = None, readers = 0, w_owner = None, rpcs = (\<lambda>_. Idle)\<rparr>"
  have "rw_reach ?s0" by (rule rw_start) simp_all
  from rw_next [OF this read_lock [of _ 2]] have "rw_reach (rgoto ?s0 2 R_lock)" by simp
  from rw_next [OF this write_lock [of _ 1]]
  have "rw_reach (rgoto (rgoto ?s0 2 R_lock) 1 W_lock)" by simp
  from rw_next [OF this w_lock [of _ 1]]
  have r: "rw_reach \<lparr>r_owner = None, readers = 0, w_owner = Some 1,
      rpcs = (\<lambda>_. Idle)(2 := R_lock, 1 := Writing)\<rparr>" (is "rw_reach ?s")
    by (simp add: rgoto_def)
  have w: "rpcs ?s 1 = Writing" by simp
  show ?thesis
    unfolding Let_def using r w rwlock_exclusion [OF r] by blast
qed

end
