(* ===== verification/Kernel_Math.thy ===== *)
theory Kernel_Math
  imports Kernel_Prelude
begin

text \<open>
  The arithmetic helpers of \<open>math.c\<close> and the address helpers of \<open>kernel_map.h\<close> and
  \<open>kernel_map_asm.S\<close>, with the value each returns as a statement on unsigned integers.
  Division by a zero divisor is a \<open>#DE\<close> fault, hence \<^const>\<open>None\<close>.
\<close>

subsection \<open>math.c\<close>

definition max_u32 :: "u32 \<Rightarrow> u32 \<Rightarrow> u32" where
  "max_u32 x y = (if x > y then x else y)"

definition min_u32 :: "u32 \<Rightarrow> u32 \<Rightarrow> u32" where
  "min_u32 x y = (if x < y then x else y)"

definition max_u64 :: "u64 \<Rightarrow> u64 \<Rightarrow> u64" where
  "max_u64 x y = (if x > y then x else y)"

definition min_u64 :: "u64 \<Rightarrow> u64 \<Rightarrow> u64" where
  "min_u64 x y = (if x < y then x else y)"

definition ceil_x_over_y_u32 :: "u32 \<Rightarrow> u32 \<Rightarrow> u32 option" where
  "ceil_x_over_y_u32 x y =
     (if y = 0 then None else Some ((x div y) + (if x mod y \<noteq> 0 then 1 else 0)))"

definition round_up_u32 :: "u32 \<Rightarrow> u32 \<Rightarrow> u32 option" where
  "round_up_u32 x m =
     (if m = 0 then None else Some (((x div m) + (if x mod m \<noteq> 0 then 1 else 0)) * m))"

definition round_down_u32 :: "u32 \<Rightarrow> u32 \<Rightarrow> u32 option" where
  "round_down_u32 x m = (if m = 0 then None else Some ((x div m) * m))"

lemma unat_min_u32: "unat (min_u32 x y) = min (unat x) (unat y)"
  by (simp add: min_u32_def word_bounds min_def)

lemma unat_max_u32: "unat (max_u32 x y) = max (unat x) (unat y)"
  by (simp add: max_u32_def word_bounds max_def)

text \<open>Rounding up a quotient on the naturals.\<close>

definition ceil_div :: "nat \<Rightarrow> nat \<Rightarrow> nat" where
  "ceil_div a b = a div b + (if a mod b \<noteq> 0 then 1 else 0)"

lemma ceil_div_least:
  assumes "0 < b"
  shows "ceil_div a b \<le> k \<longleftrightarrow> a \<le> k * b"
proof -
  have split: "a = a div b * b + a mod b" and lt: "a mod b < b"
    using assms by simp_all
  show ?thesis
  proof
    assume le: "ceil_div a b \<le> k"
    show "a \<le> k * b"
    proof (cases "a mod b = 0")
      case True
      then have "a div b * b \<le> k * b"
        using le by (simp add: ceil_div_def)
      with split True show ?thesis by simp
    next
      case False
      then have "Suc (a div b) * b \<le> k * b"
        using le by (intro mult_le_mono1) (simp add: ceil_div_def)
      moreover have "a \<le> a div b * b + b"
        using split lt by linarith
      ultimately show ?thesis by simp
    qed
  next
    assume le: "a \<le> k * b"
    have dk: "a div b \<le> k"
      using div_le_mono [OF le, of b] assms by simp
    have "a div b \<noteq> k" if "a mod b \<noteq> 0"
    proof
      assume "a div b = k"
      with le have "a \<le> a div b * b" by simp
      with split that show False by linarith
    qed
    with dk show "ceil_div a b \<le> k"
      by (auto simp: ceil_div_def)
  qed
qed

lemma ceil_div_mult_ge: "0 < b \<Longrightarrow> a \<le> ceil_div a b * b"
  using ceil_div_least [of b a "ceil_div a b"] by simp

lemma ceil_div_le_self: "0 < b \<Longrightarrow> ceil_div a b \<le> a"
  by (simp add: ceil_div_least)

lemma ceil_div_mult_less:
  assumes "0 < b"
  shows "ceil_div a b * b < a + b"
proof -
  have "a div b * b + a mod b = a"
    by simp
  then have "a mod b \<noteq> 0 \<Longrightarrow> a div b * b < a" and "a div b * b \<le> a"
    by linarith+
  with assms show ?thesis by (auto simp: ceil_div_def)
qed

lemma unat_ceil_words:
  fixes x y :: u32
  assumes "y \<noteq> 0"
  shows "unat (x div y + (if x mod y \<noteq> 0 then 1 else 0)) = ceil_div (unat x) (unat y)"
proof -
  have y: "0 < unat y"
    using assms by (simp add: unat_gt_0)
  have "ceil_div (unat x) (unat y) \<le> unat x"
    using y by (rule ceil_div_le_self)
  then have "unat x div unat y + (if unat x mod unat y \<noteq> 0 then 1 else 0) < 2 ^ 32"
    using unat_u32_bound [of x] by (simp add: ceil_div_def split: if_splits)
  moreover have "x mod y \<noteq> 0 \<longleftrightarrow> unat x mod unat y \<noteq> 0"
    by (simp add: word_unat_eq_iff unat_mod_distrib)
  ultimately show ?thesis
    by (auto simp: ceil_div_def unat_div_distrib intro!: trans [OF unat_add_no_overflow])
qed

lemma ceil_x_over_y_u32_value:
  assumes "y \<noteq> 0"
  obtains r where "ceil_x_over_y_u32 x y = Some r" and "unat r = ceil_div (unat x) (unat y)"
  using unat_ceil_words [OF assms, of x] assms by (simp add: ceil_x_over_y_u32_def)

lemma round_up_u32_value:
  assumes "m \<noteq> 0" and "ceil_div (unat x) (unat m) * unat m < 2 ^ 32"
  obtains r where "round_up_u32 x m = Some r" and "unat r = ceil_div (unat x) (unat m) * unat m"
proof -
  have "unat ((x div m + (if x mod m \<noteq> 0 then 1 else 0)) * m) = ceil_div (unat x) (unat m) * unat m"
    using assms unat_ceil_words [OF assms(1), of x]
    by (subst unat_mult_no_overflow) simp_all
  then show ?thesis
    using that assms(1) by (simp add: round_up_u32_def)
qed

subsection \<open>Addresses and pages\<close>

text \<open>The linker script links the kernel at \<open>0xC0000000\<close>.\<close>

definition KERNEL_PHY_OFFSET :: addr where
  "KERNEL_PHY_OFFSET = 0xC0000000"

definition PAGE_SIZE :: u32 where
  "PAGE_SIZE = 0x1000"

definition to_phys :: "addr \<Rightarrow> addr" where
  "to_phys p = p - KERNEL_PHY_OFFSET"

definition to_virt :: "addr \<Rightarrow> addr" where
  "to_virt p = p + KERNEL_PHY_OFFSET"

definition get_page_addr :: "addr \<Rightarrow> addr" where
  "get_page_addr p = p AND NOT 0xFFF"

definition ptr_in_range :: "addr \<Rightarrow> addr \<Rightarrow> addr \<Rightarrow> bool" where
  "ptr_in_range p start end \<longleftrightarrow> start \<le> p \<and> p \<le> end"

definition in_low_mem :: "addr \<Rightarrow> bool" where
  "in_low_mem p \<longleftrightarrow> sint (p - KERNEL_PHY_OFFSET) < 2 ^ 20"

definition is_higher_half :: "addr \<Rightarrow> bool" where
  "is_higher_half p \<longleftrightarrow> ptr_in_range p KERNEL_PHY_OFFSET (NOT 0)"

definition is_4kib_aligned :: "addr \<Rightarrow> bool" where
  "is_4kib_aligned p \<longleftrightarrow> p AND 0xFFF = 0"

definition is_kernel_addr :: "addr \<Rightarrow> bool" where
  "is_kernel_addr p \<longleftrightarrow> KERNEL_PHY_OFFSET \<le> p"

definition is_user_addr :: "addr \<Rightarrow> bool" where
  "is_user_addr p \<longleftrightarrow> \<not> is_kernel_addr p"

lemma to_phys_to_virt [simp]: "to_phys (to_virt p) = p" "to_virt (to_phys p) = p"
  by (simp_all add: to_phys_def to_virt_def)

lemma page_mask: "(0xFFF :: u32) = mask 12"
  by (simp add: mask_eq_exp_minus_1)

lemma is_4kib_aligned_take_bit: "is_4kib_aligned p \<longleftrightarrow> take_bit 12 p = 0"
  by (simp add: is_4kib_aligned_def page_mask take_bit_eq_mask)

lemma unat_take_bit_12: "unat (take_bit 12 (p :: u32)) = unat p mod 4096"
proof -
  have "unat (take_bit 12 p) = take_bit 12 (unat p)"
    by (rule unsigned_take_bit_eq)
  then show ?thesis by (simp only: take_bit_eq_mod) simp
qed

lemma is_4kib_aligned_unat: "is_4kib_aligned p \<longleftrightarrow> 4096 dvd unat p"
proof -
  have "unat (take_bit 12 p) = unat p mod 4096"
    by (rule unat_take_bit_12)
  then show ?thesis
    by (auto simp: is_4kib_aligned_take_bit word_unat_eq_iff mod_eq_0_iff_dvd)
qed

lemma get_page_addr_bits: "bit (get_page_addr p) n \<longleftrightarrow> 12 \<le> n \<and> bit p n"
  by (auto simp: get_page_addr_def page_mask bit_simps dest: bit_imp_le_length)

lemma get_page_addr_aligned [simp]: "is_4kib_aligned (get_page_addr p)"
  unfolding is_4kib_aligned_take_bit
  by (rule bit_eqI) (auto simp: bit_take_bit_iff get_page_addr_bits)

lemma get_page_addr_aligned_id: "is_4kib_aligned p \<Longrightarrow> get_page_addr p = p"
proof (rule bit_eqI)
  fix n
  assume "is_4kib_aligned p"
  then have "\<not> bit (take_bit 12 p) n"
    by (simp add: is_4kib_aligned_take_bit)
  then show "bit (get_page_addr p) n = bit p n"
    by (auto simp: get_page_addr_bits bit_take_bit_iff not_le)
qed

lemma get_page_addr_split: "get_page_addr p + take_bit 12 p = p"
proof -
  have "get_page_addr p + take_bit 12 p = get_page_addr p OR take_bit 12 p"
    by (rule disjunctive_add) (auto simp: get_page_addr_bits bit_take_bit_iff)
  also have "\<dots> = p"
    by (rule bit_eqI) (auto simp: bit_or_iff get_page_addr_bits bit_take_bit_iff not_le)
  finally show ?thesis .
qed

lemma unat_get_page_addr: "unat (get_page_addr p) = unat p div 4096 * 4096"
proof -
  have m: "unat (take_bit 12 p) = unat p mod 4096"
    by (rule unat_take_bit_12)
  have "get_page_addr p = p - take_bit 12 p"
    using get_page_addr_split [of p] by (simp add: algebra_simps)
  then have "unat (get_page_addr p) = unat p - unat p mod 4096"
    using m by (simp add: unat_sub_no_underflow)
  then show ?thesis by (simp add: minus_mod_eq_div_mult)
qed

end
