(* ===== verification/Bitmap.thy ===== *)
theory Bitmap
  imports Kernel_Math
begin

text \<open>
  The bitmap of \<open>bitmap.c\<close>, \<open>bitmap.h\<close> and \<open>bitmap_asm.S\<close>. A bit that is \<^emph>\<open>set\<close> at the
  interface is a 0 in the array, so that \<open>BSF\<close> finds an available one. The abstraction of a
  bitmap is the set of its set indices; every operation is related to that set.
\<close>

subsection \<open>State and operations\<close>

record bitmap =
  bm_size :: u32
  bm_free :: u32
  bm_data :: "u32 list"

definition BITMAP_WORD_COUNT :: "u32 \<Rightarrow> u32" where
  "BITMAP_WORD_COUNT sz = sz div 32 + (if sz mod 32 \<noteq> 0 then 1 else 0)"

definition BM_NPOS :: u32 where
  "BM_NPOS = NOT 0"

text \<open>
  \<open>DECLARE_BITMAP\<close> defines a static array, which the C language zero-initialises, and a
  \<open>struct bitmap\<close> whose \<open>free\<close> count is the size.
\<close>

definition DECLARE_BITMAP :: "u32 \<Rightarrow> bitmap" where
  "DECLARE_BITMAP sz =
     \<lparr>bm_size = sz, bm_free = sz, bm_data = replicate (unat (BITMAP_WORD_COUNT sz)) 0\<rparr>"

text \<open>
  \<open>memset\<close> over the first \<open>n\<close> words of the array; an array that is too short is overrun, and
  the model gives that run no result.
\<close>

definition memset_words :: "u32 list \<Rightarrow> u32 \<Rightarrow> nat \<Rightarrow> u32 list option" where
  "memset_words ws v n =
     (if n \<le> length ws then Some (replicate n v @ drop n ws) else None)"

definition bitmap_reset :: "bitmap \<Rightarrow> bitmap option" where
  "bitmap_reset bm = do {
     data \<leftarrow> memset_words (bm_data bm) (NOT 0) (unat (BITMAP_WORD_COUNT (bm_size bm)));
     Some (bm\<lparr>bm_free := bm_size bm, bm_data := data\<rparr>) }"

definition bitmap_set_all :: "bitmap \<Rightarrow> bitmap option" where
  "bitmap_set_all bm = do {
     data \<leftarrow> memset_words (bm_data bm) 0 (unat (BITMAP_WORD_COUNT (bm_size bm)));
     Some (bm\<lparr>bm_free := 0, bm_data := data\<rparr>) }"

definition bitmap_init :: "u32 \<Rightarrow> u32 list \<Rightarrow> bool \<Rightarrow> bitmap option" where
  "bitmap_init sz data default_val =
     (let bm = \<lparr>bm_size = sz, bm_free = 0, bm_data = data\<rparr>
      in if default_val then bitmap_set_all bm else bitmap_reset bm)"

text \<open>\<open>assert_bounds\<close> runs \<open>int3\<close> on an index outside the bitmap.\<close>

definition assert_bounds :: "bitmap \<Rightarrow> u32 \<Rightarrow> unit option" where
  "assert_bounds bm index = ASSERT (index < bm_size bm)"

text \<open>
  \<open>BT\<close>, \<open>BTS\<close> and \<open>BTR\<close> with a memory operand address the double word
  \<open>index / 32\<close>, with a \<^emph>\<open>signed\<close> index.
\<close>

definition bt_word :: "u32 \<Rightarrow> int" where
  "bt_word index = sint index div 32"

definition bt_bit :: "u32 \<Rightarrow> nat" where
  "bt_bit index = unat (index AND 31)"

definition data_word :: "bitmap \<Rightarrow> int \<Rightarrow> u32 option" where
  "data_word bm k =
     (if 0 \<le> k \<and> nat k < length (bm_data bm) then Some (bm_data bm ! nat k) else None)"

definition bitmap_set :: "bitmap \<Rightarrow> u32 \<Rightarrow> bitmap option" where
  "bitmap_set bm index = do {
     assert_bounds bm index;
     w \<leftarrow> data_word bm (bt_word index);
     let cf = bit w (bt_bit index);
     let bm = bm\<lparr>bm_data := (bm_data bm)[nat (bt_word index) := unset_bit (bt_bit index) w]\<rparr>;
     Some (if cf then bm\<lparr>bm_free := bm_free bm - 1\<rparr> else bm) }"

definition bitmap_unset :: "bitmap \<Rightarrow> u32 \<Rightarrow> bitmap option" where
  "bitmap_unset bm index = do {
     assert_bounds bm index;
     w \<leftarrow> data_word bm (bt_word index);
     let cf = bit w (bt_bit index);
     let bm = bm\<lparr>bm_data := (bm_data bm)[nat (bt_word index) := set_bit (bt_bit index) w]\<rparr>;
     Some (if cf then bm else bm\<lparr>bm_free := bm_free bm + 1\<rparr>) }"

definition bitmap_get_bit :: "bitmap \<Rightarrow> u32 \<Rightarrow> bool option" where
  "bitmap_get_bit bm index = do {
     assert_bounds bm index;
     w \<leftarrow> data_word bm (bt_word index);
     Some (\<not> bit w (bt_bit index)) }"

definition bitmap_is_full :: "bitmap \<Rightarrow> bool" where
  "bitmap_is_full bm \<longleftrightarrow> bm_free bm = 0"

text \<open>\<open>BSF\<close>: the position of the lowest 1 of a non-zero word.\<close>

definition bsf :: "u32 \<Rightarrow> u32" where
  "bsf w = (case find (bit w) [0..<32] of Some i \<Rightarrow> of_nat i | None \<Rightarrow> 0)"

text \<open>
  The search loop \<open>.L_find_bit\<close>: \<open>k\<close> is the double word EDI/EAX point to and \<open>c\<close> is ECX, the
  first position to look at in that word. The loop has no bound of its own; running off the
  array reads whatever memory follows it, so that run has no result here.
\<close>

function find_bit_loop :: "u32 list \<Rightarrow> nat \<Rightarrow> u32 \<Rightarrow> u32 option" where
  "find_bit_loop data k c =
     (if k < length data then
        (let ebx = data ! k;
             ebx = (if c = 0 then ebx else ebx AND push_bit (unat c) (NOT 0))
         in if ebx = 0 then find_bit_loop data (Suc k) 0
            else Some (bsf ebx + push_bit 5 (of_nat k)))
      else None)"
  by pat_completeness auto
termination
  by (relation "measure (\<lambda>(data, k, c). length data - k)") auto

declare find_bit_loop.simps [simp del]

definition bitmap_set_next_bit :: "bitmap \<Rightarrow> u32 \<Rightarrow> (u32 \<times> bitmap) option" where
  "bitmap_set_next_bit bm start =
     (if \<not> start < bm_size bm then Some (BM_NPOS, bm)
      else if bm_free bm = 0 then Some (BM_NPOS, bm)
      else do {
        ebx \<leftarrow> find_bit_loop (bm_data bm) (unat (drop_bit 5 start)) (start AND 31);
        bm \<leftarrow> bitmap_set bm ebx;
        Some (ebx, bm) })"

subsection \<open>Abstraction and invariant\<close>

definition raw_bit :: "u32 list \<Rightarrow> nat \<Rightarrow> bool" where
  "raw_bit data i = bit (data ! (i div 32)) (i mod 32)"

definition set_bits_of :: "bitmap \<Rightarrow> nat set" where
  "set_bits_of bm = {i. i < unat (bm_size bm) \<and> \<not> raw_bit (bm_data bm) i}"

definition free_bits_of :: "bitmap \<Rightarrow> nat set" where
  "free_bits_of bm = {i. i < unat (bm_size bm) \<and> raw_bit (bm_data bm) i}"

definition wf_bitmap :: "bitmap \<Rightarrow> bool" where
  "wf_bitmap bm \<longleftrightarrow>
     unat (bm_size bm) \<le> 2 ^ 31 \<and>
     unat (bm_size bm) \<le> 32 * length (bm_data bm) \<and>
     32 * length (bm_data bm) < unat (bm_size bm) + 32 \<and>
     unat (bm_free bm) = card (free_bits_of bm)"

lemma bt_word_index:
  assumes "unat index < 2 ^ 31"
  shows "bt_word index = int (unat index div 32)"
proof -
  have "int (unat index) < int (2 ^ 31)"
    using assms by (simp only: of_nat_less_iff)
  then have "uint index < 2 ^ 31"
    by simp
  moreover have "- (2 ^ 31) \<le> uint index"
    by (rule order.trans [OF _ uint_nonnegative]) simp
  ultimately have "sint index = uint index"
    using signed_take_bit_int_eq_self [of 31 "uint index"] by (simp add: sint_uint)
  then show ?thesis by (simp add: bt_word_def zdiv_int)
qed

lemma bt_bit_index: "bt_bit index = unat index mod 32"
proof -
  have "index AND 31 = take_bit 5 index"
    by (simp add: take_bit_eq_mask mask_eq_exp_minus_1)
  then have "bt_bit index = take_bit 5 (unat index)"
    by (simp add: bt_bit_def unsigned_take_bit_eq)
  then show ?thesis by (simp only: take_bit_eq_mod) simp
qed

lemma data_word_index:
  assumes "wf_bitmap bm" and "index < bm_size bm"
  shows "data_word bm (bt_word index) = Some (bm_data bm ! (unat index div 32))"
    and "unat index div 32 < length (bm_data bm)"
    and "nat (bt_word index) = unat index div 32"
proof -
  from assms have lt: "unat index < unat (bm_size bm)" "unat index < 2 ^ 31"
    by (simp_all add: wf_bitmap_def word_bounds)
  show "unat index div 32 < length (bm_data bm)"
    using lt(1) assms(1) by (intro less_mult_imp_div_less) (simp add: wf_bitmap_def mult.commute)
  then show "data_word bm (bt_word index) = Some (bm_data bm ! (unat index div 32))"
    and "nat (bt_word index) = unat index div 32"
    using lt(2) by (simp_all add: data_word_def bt_word_index)
qed

lemma raw_bit_update:
  assumes "k < length data"
  shows "raw_bit (data[k := w]) i = (if i div 32 = k then bit w (i mod 32) else raw_bit data i)"
  using assms by (auto simp: raw_bit_def)

lemma raw_bit_unset:
  assumes "j div 32 < length data"
  shows "raw_bit (data[j div 32 := unset_bit (j mod 32) (data ! (j div 32))]) i \<longleftrightarrow>
    i \<noteq> j \<and> raw_bit data i"
proof -
  have "i = j \<longleftrightarrow> i div 32 = j div 32 \<and> i mod 32 = j mod 32"
    by (metis div_mod_decomp)
  then show ?thesis
    unfolding raw_bit_update [OF assms] by (auto simp: bit_unset_bit_iff raw_bit_def)
qed

lemma raw_bit_set:
  assumes "j div 32 < length data"
  shows "raw_bit (data[j div 32 := set_bit (j mod 32) (data ! (j div 32))]) i \<longleftrightarrow>
    i = j \<or> raw_bit data i"
proof -
  have "i = j \<longleftrightarrow> i div 32 = j div 32 \<and> i mod 32 = j mod 32"
    by (metis div_mod_decomp)
  then show ?thesis
    unfolding raw_bit_update [OF assms] by (auto simp: bit_set_bit_iff raw_bit_def)
qed

lemma free_set_partition:
  "free_bits_of bm \<union> set_bits_of bm = {..< unat (bm_size bm)}"
  "free_bits_of bm \<inter> set_bits_of bm = {}"
  by (auto simp: free_bits_of_def set_bits_of_def)

lemma finite_bits [simp]: "finite (free_bits_of bm)" "finite (set_bits_of bm)"
  by (simp_all add: free_bits_of_def set_bits_of_def)

lemma card_free_set: "card (free_bits_of bm) + card (set_bits_of bm) = unat (bm_size bm)"
  using card_Un_disjoint [of "free_bits_of bm" "set_bits_of bm"] free_set_partition [of bm]
  by simp

lemma free_bits_of_mem:
  "index < bm_size bm \<Longrightarrow> unat index \<in> free_bits_of bm \<longleftrightarrow> raw_bit (bm_data bm) (unat index)"
  by (simp add: free_bits_of_def word_bounds)

subsection \<open>The operations against the abstraction\<close>

lemma bitmap_get_bit_correct:
  assumes "wf_bitmap bm" and "index < bm_size bm"
  shows "bitmap_get_bit bm index = Some (unat index \<in> set_bits_of bm)"
  using data_word_index [OF assms] assms(2)
  by (simp add: bitmap_get_bit_def assert_bounds_def bt_bit_index set_bits_of_def raw_bit_def
      word_bounds)

lemma bitmap_set_correct:
  assumes wf: "wf_bitmap bm" and i: "index < bm_size bm"
  obtains bm' where "bitmap_set bm index = Some bm'"
    and "wf_bitmap bm'"
    and "bm_size bm' = bm_size bm"
    and "set_bits_of bm' = insert (unat index) (set_bits_of bm)"
proof -
  let ?j = "unat index"
  let ?data = "(bm_data bm)[?j div 32 := unset_bit (?j mod 32) (bm_data bm ! (?j div 32))]"
  let ?free = "if raw_bit (bm_data bm) ?j then bm_free bm - 1 else bm_free bm"
  let ?bm = "bm\<lparr>bm_data := ?data, bm_free := ?free\<rparr>"
  note dw = data_word_index [OF wf i]
  have run: "bitmap_set bm index = Some ?bm"
    using dw i by (simp add: bitmap_set_def assert_bounds_def bt_bit_index raw_bit_def Let_def)
  have fb: "free_bits_of ?bm = free_bits_of bm - {?j}"
    using dw(2) by (auto simp: free_bits_of_def raw_bit_unset)
  have sb: "set_bits_of ?bm = insert ?j (set_bits_of bm)"
    using dw(2) i by (auto simp: set_bits_of_def raw_bit_unset word_bounds)
  have "unat ?free = card (free_bits_of ?bm)"
  proof (cases "raw_bit (bm_data bm) ?j")
    case True
    then have m: "?j \<in> free_bits_of bm" using i by (simp add: free_bits_of_mem)
    then have "0 < card (free_bits_of bm)" by (auto simp: card_gt_0_iff)
    then have "1 \<le> unat (bm_free bm)" using wf by (simp add: wf_bitmap_def)
    then have "unat (bm_free bm - 1) = unat (bm_free bm) - 1"
      using unat_sub_no_underflow [of 1 "bm_free bm"] by simp
    with True m wf fb show ?thesis by (simp add: wf_bitmap_def)
  next
    case False
    then have "?j \<notin> free_bits_of bm" by (simp add: free_bits_of_def)
    with False wf fb show ?thesis by (simp add: wf_bitmap_def)
  qed
  then have "wf_bitmap ?bm" using wf by (simp add: wf_bitmap_def)
  with run sb that show thesis by simp
qed

lemma bitmap_unset_correct:
  assumes wf: "wf_bitmap bm" and i: "index < bm_size bm"
  obtains bm' where "bitmap_unset bm index = Some bm'"
    and "wf_bitmap bm'"
    and "bm_size bm' = bm_size bm"
    and "set_bits_of bm' = set_bits_of bm - {unat index}"
proof -
  let ?j = "unat index"
  let ?data = "(bm_data bm)[?j div 32 := set_bit (?j mod 32) (bm_data bm ! (?j div 32))]"
  let ?free = "if raw_bit (bm_data bm) ?j then bm_free bm else bm_free bm + 1"
  let ?bm = "bm\<lparr>bm_data := ?data, bm_free := ?free\<rparr>"
  note dw = data_word_index [OF wf i]
  have run: "bitmap_unset bm index = Some ?bm"
    using dw i by (simp add: bitmap_unset_def assert_bounds_def bt_bit_index raw_bit_def Let_def)
  have fb: "free_bits_of ?bm = insert ?j (free_bits_of bm)"
    using dw(2) i by (auto simp: free_bits_of_def raw_bit_set word_bounds)
  have sb: "set_bits_of ?bm = set_bits_of bm - {?j}"
    using dw(2) by (auto simp: set_bits_of_def raw_bit_set)
  have "unat ?free = card (free_bits_of ?bm)"
  proof (cases "raw_bit (bm_data bm) ?j")
    case True
    then have "?j \<in> free_bits_of bm" using i by (simp add: free_bits_of_mem)
    with True wf fb show ?thesis by (simp add: wf_bitmap_def insert_absorb)
  next
    case False
    then have "?j \<notin> free_bits_of bm" by (simp add: free_bits_of_def)
    moreover have "card (free_bits_of bm) \<le> 2 ^ 31"
      using card_free_set [of bm] wf by (simp add: wf_bitmap_def)
    ultimately show ?thesis
      using False wf fb by (simp add: wf_bitmap_def unat_add_no_overflow)
  qed
  then have "wf_bitmap ?bm" using wf by (simp add: wf_bitmap_def)
  with run sb that show thesis by simp
qed

subsection \<open>The search loop\<close>

lemma word_nonzero_bit: "(w :: u32) \<noteq> 0 \<Longrightarrow> \<exists>i < 32. bit w i"
  using bit_imp_le_length by (fastforce simp: bit_eq_iff)

lemma bsf_lowest:
  assumes "w \<noteq> 0"
  obtains i where "bsf w = of_nat i" and "i < 32" and "bit w i" and "\<And>j. j < i \<Longrightarrow> \<not> bit w j"
proof -
  have "find (bit w) [0..<32] \<noteq> None"
    using word_nonzero_bit [OF assms] by (auto simp: find_None_iff)
  then obtain i where f: "find (bit w) [0..<32] = Some i" by blast
  then obtain k where "k < 32" "[0..<32] ! k = i" "bit w ([0..<32] ! k)"
    "\<And>j. j < k \<Longrightarrow> \<not> bit w ([0..<32] ! j)"
    by (auto simp: find_Some_iff)
  then have "i < 32" "bit w i" "\<And>j. j < i \<Longrightarrow> \<not> bit w j"
    by auto
  moreover have "bsf w = of_nat i"
    using f by (simp add: bsf_def)
  ultimately show thesis using that by blast
qed

lemma mask_low_bits:
  fixes w c :: u32
  assumes "unat c < 32"
  shows "bit (if c = 0 then w else w AND push_bit (unat c) (NOT 0)) i \<longleftrightarrow> unat c \<le> i \<and> bit w i"
  by (auto simp: bit_simps dest: bit_imp_le_length)

text \<open>The loop's answer: the first 1 of the array at or after the position it starts from.\<close>

definition first_raw_bit :: "u32 list \<Rightarrow> nat \<Rightarrow> nat \<Rightarrow> bool" where
  "first_raw_bit data from i \<longleftrightarrow>
     from \<le> i \<and> i < 32 * length data \<and> raw_bit data i \<and> (\<forall>j. from \<le> j \<and> j < i \<longrightarrow> \<not> raw_bit data j)"

lemma unat_word_index:
  assumes "k < 2 ^ 27" and "i < 32"
  shows "unat (of_nat i + push_bit 5 (of_nat k) :: u32) = 32 * k + i"
proof -
  have eq: "of_nat i + push_bit 5 (of_nat k) = (of_nat (32 * k + i) :: u32)"
    by (simp add: push_bit_eq_mult)
  have "32 * k + i < 2 ^ LENGTH(32)"
    using assms by simp
  then show ?thesis
    unfolding eq by (rule unat_of_nat_bounded)
qed

lemma find_bit_loop_correct:
  assumes "length data \<le> 2 ^ 27" and "unat c < 32"
  shows "case find_bit_loop data k c of
      Some r \<Rightarrow> first_raw_bit data (32 * k + unat c) (unat r)
    | None \<Rightarrow> \<forall>j. 32 * k + unat c \<le> j \<and> j < 32 * length data \<longrightarrow> \<not> raw_bit data j"
  using assms
proof (induction data k c rule: find_bit_loop.induct)
  case (1 data k c)
  let ?w = "if c = 0 then data ! k else data ! k AND push_bit (unat c) (NOT 0)"
  note w = mask_low_bits [OF "1.prems"(2), of "data ! k"]
  have inword: "raw_bit data j \<longleftrightarrow> bit ?w (j mod 32)"
    if "32 * k + unat c \<le> j" "j < 32 * k + 32" for j
  proof -
    from that obtain r where "j = 32 * k + r" "unat c \<le> r" "r < 32"
      by (metis add_le_cancel_left add_less_cancel_left le_add1 le_trans nat_le_iff_add)
    then have "j div 32 = k" "unat c \<le> j mod 32"
      by simp_all
    then show ?thesis by (simp add: raw_bit_def w)
  qed
  show ?case
  proof (cases "k < length data")
    case False
    then show ?thesis by (auto simp: find_bit_loop.simps [of data k])
  next
    case k: True
    show ?thesis
    proof (cases "?w = 0")
      case True
      have none: "\<not> raw_bit data j" if "32 * k + unat c \<le> j" "j < 32 * k + 32" for j
        using inword [OF that] True by simp
      have eq: "find_bit_loop data k c = find_bit_loop data (Suc k) 0"
        using k True by (simp add: find_bit_loop.simps [of data k] Let_def)
      have "case find_bit_loop data (Suc k) 0 of
          Some r \<Rightarrow> first_raw_bit data (32 * Suc k + unat (0 :: u32)) (unat r)
        | None \<Rightarrow> \<forall>j. 32 * Suc k + unat (0 :: u32) \<le> j \<and> j < 32 * length data \<longrightarrow> \<not> raw_bit data j"
        using "1.IH" [OF k refl refl] True "1.prems"(1) by (simp add: Let_def)
      then show ?thesis
        unfolding eq using none "1.prems"(2)
        by (fastforce simp: first_raw_bit_def split: option.splits)
    next
      case False
      then obtain i where i: "bsf ?w = of_nat i" "i < 32" "bit ?w i" "\<And>j. j < i \<Longrightarrow> \<not> bit ?w j"
        by (rule bsf_lowest) (rule that)
      have eq: "find_bit_loop data k c = Some (bsf ?w + push_bit 5 (of_nat k))"
        using k False by (simp add: find_bit_loop.simps [of data k] Let_def)
      have "unat (bsf ?w + push_bit 5 (of_nat k)) = 32 * k + i"
        unfolding i(1) using k "1.prems"(1) i(2) by (intro unat_word_index) simp_all
      moreover have "unat c \<le> i"
        using i(3) w by blast
      moreover have "raw_bit data (32 * k + i)"
        using inword [of "32 * k + i"] i(2,3) \<open>unat c \<le> i\<close> by simp
      moreover have "\<not> raw_bit data j" if "32 * k + unat c \<le> j" "j < 32 * k + i" for j
      proof -
        from that obtain r where "j = 32 * k + r" "r < i"
          by (metis add_less_cancel_left le_add1 le_trans nat_le_iff_add)
        then show ?thesis using inword [of j] that i(2,4) by simp
      qed
      ultimately show ?thesis
        unfolding eq using k i(2) by (auto simp: first_raw_bit_def)
    qed
  qed
qed

subsection \<open>Taking the next available bit\<close>

definition next_free :: "bitmap \<Rightarrow> nat \<Rightarrow> nat \<Rightarrow> bool" where
  "next_free bm from i \<longleftrightarrow>
     i \<in> free_bits_of bm \<and> from \<le> i \<and> (\<forall>j \<in> free_bits_of bm. from \<le> j \<longrightarrow> i \<le> j)"

lemma next_free_exists:
  assumes "j \<in> free_bits_of bm" and "from \<le> j"
  obtains i where "next_free bm from i"
proof -
  define P where "P i \<longleftrightarrow> i \<in> free_bits_of bm \<and> from \<le> i" for i
  have "P j" using assms by (simp add: P_def)
  then have "P (Least P)" by (rule LeastI)
  moreover have "Least P \<le> k" if "k \<in> free_bits_of bm" "from \<le> k" for k
    using that by (intro Least_le) (simp add: P_def)
  ultimately show thesis using that by (auto simp: next_free_def P_def)
qed

lemma next_free_set:
  assumes "next_free bm from i"
  shows "from \<le> i" and "i \<notin> set_bits_of bm"
    and "\<And>j. j < i \<Longrightarrow> from \<le> j \<Longrightarrow> j \<in> set_bits_of bm"
proof -
  show "from \<le> i" and "i \<notin> set_bits_of bm"
    using assms by (simp_all add: next_free_def free_bits_of_def set_bits_of_def)
  show "j \<in> set_bits_of bm" if "j < i" "from \<le> j" for j
  proof (rule ccontr)
    assume "j \<notin> set_bits_of bm"
    moreover have "j < unat (bm_size bm)"
      using assms that by (simp add: next_free_def free_bits_of_def)
    ultimately have "j \<in> free_bits_of bm"
      by (simp add: free_bits_of_def set_bits_of_def)
    with assms that show False by (auto simp: next_free_def)
  qed
qed

lemma start_split:
  fixes start :: u32
  shows "32 * unat (drop_bit 5 start) + unat (start AND 31) = unat start"
    and "unat (start AND 31) < 32"
proof -
  have "unat (start AND 31) = unat start mod 32"
    using bt_bit_index [of start] by (simp add: bt_bit_def)
  moreover have "unat (drop_bit 5 start) = unat start div 32"
    by (simp add: drop_bit_eq_div unat_div_distrib)
  ultimately show "32 * unat (drop_bit 5 start) + unat (start AND 31) = unat start"
    and "unat (start AND 31) < 32"
    by simp_all
qed

lemma wf_bitmap_data_length:
  assumes "wf_bitmap bm"
  shows "length (bm_data bm) \<le> 2 ^ 27"
proof -
  have "32 * length (bm_data bm) < 2 ^ 31 + 32"
    using assms by (simp add: wf_bitmap_def)
  then show ?thesis by simp
qed

lemma wf_bitmap_raw_in_range:
  assumes "wf_bitmap bm"
  shows "i \<in> free_bits_of bm \<Longrightarrow> i < 32 * length (bm_data bm)"
  using assms by (auto simp: wf_bitmap_def free_bits_of_def)

lemma bm_free_zero_iff: "wf_bitmap bm \<Longrightarrow> bm_free bm = 0 \<longleftrightarrow> free_bits_of bm = {}"
  by (auto simp: wf_bitmap_def word_unat_eq_iff)

lemma set_next_bit_hit:
  assumes wf: "wf_bitmap bm" and nf: "next_free bm (unat start) i"
  obtains bm' where "bitmap_set_next_bit bm start = Some (of_nat i, bm')"
    and "wf_bitmap bm'" and "bm_size bm' = bm_size bm"
    and "set_bits_of bm' = insert i (set_bits_of bm)"
    and "i < unat (bm_size bm)"
proof -
  from nf have mem: "i \<in> free_bits_of bm" and ge: "unat start \<le> i"
    and least: "\<And>j. j \<in> free_bits_of bm \<Longrightarrow> unat start \<le> j \<Longrightarrow> i \<le> j"
    by (auto simp: next_free_def)
  have isz: "i < unat (bm_size bm)"
    using mem by (simp add: free_bits_of_def)
  then have i32: "unat (of_nat i :: u32) = i"
    using unat_u32_bound [of "bm_size bm"] by (simp add: unat_of_nat_bounded)
  let ?k = "unat (drop_bit 5 start)" and ?c = "start AND 31"
  note ss = start_split [of start]
  have loop: "find_bit_loop (bm_data bm) ?k ?c = Some (of_nat i)"
  proof (cases "find_bit_loop (bm_data bm) ?k ?c")
    case None
    with find_bit_loop_correct [OF wf_bitmap_data_length [OF wf] ss(2), of ?k] ss(1)
    have "\<not> raw_bit (bm_data bm) i"
      using ge wf_bitmap_raw_in_range [OF wf mem] by simp
    with mem show ?thesis by (simp add: free_bits_of_def)
  next
    case (Some r)
    with find_bit_loop_correct [OF wf_bitmap_data_length [OF wf] ss(2), of ?k] ss(1)
    have fr: "first_raw_bit (bm_data bm) (unat start) (unat r)"
      by simp
    have "raw_bit (bm_data bm) i"
      using mem by (simp add: free_bits_of_def)
    with fr ge have "unat r \<le> i"
      by (meson first_raw_bit_def not_le)
    with fr isz have "unat r \<in> free_bits_of bm" "unat start \<le> unat r"
      by (simp_all add: first_raw_bit_def free_bits_of_def)
    with least \<open>unat r \<le> i\<close> have "unat r = i"
      by (simp add: order.antisym)
    with Some show ?thesis by (simp add: word_unat_eq_iff i32)
  qed
  have start: "start < bm_size bm"
    using ge isz by (simp add: word_bounds)
  have nz: "bm_free bm \<noteq> 0"
    using mem bm_free_zero_iff [OF wf] by auto
  obtain bm' where bm': "bitmap_set bm (of_nat i) = Some bm'" "wf_bitmap bm'"
    "bm_size bm' = bm_size bm" "set_bits_of bm' = insert i (set_bits_of bm)"
    using bitmap_set_correct [OF wf, of "of_nat i"] i32 isz by (auto simp: word_bounds)
  have "bitmap_set_next_bit bm start = Some (of_nat i, bm')"
    using start nz loop bm'(1) by (simp add: bitmap_set_next_bit_def)
  with bm' isz that show thesis by blast
qed

lemma set_next_bit_full:
  "bm_free bm = 0 \<or> \<not> start < bm_size bm \<Longrightarrow> bitmap_set_next_bit bm start = Some (BM_NPOS, bm)"
  by (auto simp: bitmap_set_next_bit_def)

text \<open>
  When the only available bits are below \<open>start\<close>, the search goes past the last bit of the
  bitmap: it either meets a spare bit of the last word, whose index \<open>assert_bounds\<close> rejects,
  or leaves the array. Neither returns \<open>BM_NPOS\<close>.
\<close>

lemma set_next_bit_overrun:
  assumes wf: "wf_bitmap bm" and start: "start < bm_size bm" and nz: "bm_free bm \<noteq> 0"
    and none: "\<forall>j \<in> free_bits_of bm. j < unat start"
  shows "bitmap_set_next_bit bm start = None"
proof (cases "find_bit_loop (bm_data bm) (unat (drop_bit 5 start)) (start AND 31)")
  case None
  with start nz show ?thesis by (simp add: bitmap_set_next_bit_def)
next
  case (Some r)
  with find_bit_loop_correct [OF wf_bitmap_data_length [OF wf] start_split(2) [of start],
      of "unat (drop_bit 5 start)"] start_split(1) [of start]
  have "first_raw_bit (bm_data bm) (unat start) (unat r)"
    by simp
  then have "\<not> r < bm_size bm"
    using none by (auto simp: first_raw_bit_def free_bits_of_def word_bounds)
  then have "bitmap_set bm r = None"
    by (simp add: bitmap_set_def assert_bounds_def)
  with Some start nz show ?thesis by (simp add: bitmap_set_next_bit_def)
qed

subsection \<open>Initialisation\<close>

lemma unat_word_count: "unat (BITMAP_WORD_COUNT sz) = ceil_div (unat sz) 32"
  using unat_ceil_words [of 32 sz] by (simp add: BITMAP_WORD_COUNT_def)

lemma word_count_covers:
  "unat sz \<le> 32 * unat (BITMAP_WORD_COUNT sz)"
  "32 * unat (BITMAP_WORD_COUNT sz) < unat sz + 32"
  using ceil_div_mult_ge [of 32 "unat sz"] ceil_div_mult_less [of 32 "unat sz"]
  by (simp_all add: unat_word_count mult.commute)

lemma raw_bit_replicate:
  assumes "i < 32 * n"
  shows "raw_bit (replicate n v @ xs) i = bit v (i mod 32)"
  using assms by (simp add: raw_bit_def nth_append less_mult_imp_div_less mult.commute)

lemma bitmap_init_correct:
  assumes sz: "unat sz \<le> 2 ^ 31" and len: "length data = unat (BITMAP_WORD_COUNT sz)"
  obtains bm where "bitmap_init sz data v = Some bm" and "wf_bitmap bm" and "bm_size bm = sz"
    and "set_bits_of bm = (if v then {..< unat sz} else {})"
proof -
  define n where "n = unat (BITMAP_WORD_COUNT sz)"
  define w :: u32 where "w = (if v then 0 else NOT 0)"
  define bm where "bm = \<lparr>bm_size = sz, bm_free = (if v then 0 else sz), bm_data = replicate n w\<rparr>"
  note cover = word_count_covers [of sz, folded n_def]
  have run: "bitmap_init sz data v = Some bm"
    using len by (simp add: bitmap_init_def bitmap_set_all_def bitmap_reset_def memset_words_def
        bm_def w_def n_def)
  have raw: "raw_bit (bm_data bm) i \<longleftrightarrow> \<not> v" if "i < unat sz" for i
    using raw_bit_replicate [of i n w "[]"] cover(1) that by (auto simp: bm_def w_def bit_simps)
  have f: "free_bits_of bm = (if v then {} else {..< unat sz})"
    and s: "set_bits_of bm = (if v then {..< unat sz} else {})"
    using raw by (auto simp: free_bits_of_def set_bits_of_def bm_def)
  have "wf_bitmap bm"
    using sz cover f by (simp add: wf_bitmap_def bm_def)
  with run s that show thesis by (simp add: bm_def)
qed

text \<open>
  A bitmap straight out of \<open>DECLARE_BITMAP\<close> is not one of these: its array says that every bit
  is set while its count says that none is.
\<close>

lemma declare_bitmap_all_set: "set_bits_of (DECLARE_BITMAP sz) = {..< unat sz}"
  using raw_bit_replicate [of _ "unat (BITMAP_WORD_COUNT sz)" 0 "[]"] word_count_covers(1) [of sz]
  by (auto simp: set_bits_of_def DECLARE_BITMAP_def)

lemma declare_bitmap_not_wf: "sz \<noteq> 0 \<Longrightarrow> \<not> wf_bitmap (DECLARE_BITMAP sz)"
  using card_free_set [of "DECLARE_BITMAP sz"] declare_bitmap_all_set [of sz]
  by (auto simp: wf_bitmap_def DECLARE_BITMAP_def word_unat_eq_iff)

subsection \<open>The interface the frame allocator relies on\<close>

locale slot_map =
  fixes wf :: "'b \<Rightarrow> bool"
    and slots :: "'b \<Rightarrow> nat"
    and used :: "'b \<Rightarrow> nat set"
    and take_next :: "'b \<Rightarrow> u32 \<Rightarrow> (u32 \<times> 'b) option"
    and release :: "'b \<Rightarrow> u32 \<Rightarrow> 'b option"
  assumes used_bound: "wf b \<Longrightarrow> used b \<subseteq> {..< slots b}"
    and take_hit: "wf b \<Longrightarrow> take_next b start = Some (i, b') \<Longrightarrow> i \<noteq> BM_NPOS \<Longrightarrow>
      unat start \<le> unat i \<and> unat i < slots b \<and> unat i \<notin> used b \<and>
      (\<forall>j < unat i. unat start \<le> j \<longrightarrow> j \<in> used b) \<and>
      used b' = insert (unat i) (used b) \<and> wf b' \<and> slots b' = slots b"
    and take_miss: "wf b \<Longrightarrow> take_next b start = Some (BM_NPOS, b') \<Longrightarrow>
      b' = b \<and> (\<forall>j < slots b. unat start \<le> j \<longrightarrow> j \<in> used b)"
    and take_available: "wf b \<Longrightarrow> unat start \<le> j \<Longrightarrow> j < slots b \<Longrightarrow> j \<notin> used b \<Longrightarrow>
      \<exists>i b'. take_next b start = Some (i, b') \<and> i \<noteq> BM_NPOS"
    and release_used: "wf b \<Longrightarrow> unat i < slots b \<Longrightarrow>
      \<exists>b'. release b i = Some b' \<and> wf b' \<and> slots b' = slots b \<and> used b' = used b - {unat i}"
begin

text \<open>Releasing the slot just taken restores the set of used slots.\<close>

lemma take_release:
  assumes "wf b" and "take_next b start = Some (i, b')" and "i \<noteq> BM_NPOS"
  shows "\<exists>b''. release b' i = Some b'' \<and> wf b'' \<and> slots b'' = slots b \<and> used b'' = used b"
proof -
  note t = take_hit [OF assms]
  then obtain b'' where "release b' i = Some b''" "wf b''" "slots b'' = slots b'"
    "used b'' = used b' - {unat i}"
    using release_used [of b' i] by auto
  with t show ?thesis by auto
qed

text \<open>A slot in use is never handed out again.\<close>

lemma take_fresh:
  assumes "wf b" and "take_next b s1 = Some (i, b1)" and "i \<noteq> BM_NPOS"
    and "take_next b1 s2 = Some (j, b2)" and "j \<noteq> BM_NPOS"
  shows "j \<noteq> i"
  using take_hit [OF assms(1-3)] take_hit [of b1 s2 j b2] assms(4,5) by auto

end

text \<open>The three ways a search can go, for a well-formed bitmap.\<close>

lemma set_next_bit_cases:
  assumes wf: "wf_bitmap bm"
  obtains (miss) "bitmap_set_next_bit bm start = Some (BM_NPOS, bm)"
      and "\<And>j. unat start \<le> j \<Longrightarrow> j < unat (bm_size bm) \<Longrightarrow> j \<in> set_bits_of bm"
      and "bm_free bm = 0 \<or> \<not> start < bm_size bm"
  | (hit) i bm' where "bitmap_set_next_bit bm start = Some (i, bm')" and "i \<noteq> BM_NPOS"
      and "next_free bm (unat start) (unat i)" and "unat i < unat (bm_size bm)"
      and "wf_bitmap bm'" and "bm_size bm' = bm_size bm"
      and "set_bits_of bm' = insert (unat i) (set_bits_of bm)"
  | (overrun) "bitmap_set_next_bit bm start = None" and "bm_free bm \<noteq> 0"
      and "start < bm_size bm" and "\<forall>j \<in> free_bits_of bm. j < unat start"
proof -
  consider "bm_free bm = 0 \<or> \<not> start < bm_size bm"
    | j where "j \<in> free_bits_of bm" "unat start \<le> j"
    | "bm_free bm \<noteq> 0" "start < bm_size bm" "\<forall>j \<in> free_bits_of bm. j < unat start"
    using not_le by blast
  then show thesis
  proof cases
    case 1
    then have "j \<in> set_bits_of bm" if "unat start \<le> j" "j < unat (bm_size bm)" for j
      using that bm_free_zero_iff [OF wf] free_set_partition(1) [of bm] by (auto simp: word_bounds)
    with set_next_bit_full [OF 1] 1 miss show thesis by blast
  next
    case 2
    then obtain i where nf: "next_free bm (unat start) i"
      by (rule next_free_exists)
    then obtain bm' where b: "bitmap_set_next_bit bm start = Some (of_nat i, bm')"
      "wf_bitmap bm'" "bm_size bm' = bm_size bm" "set_bits_of bm' = insert i (set_bits_of bm)"
      "i < unat (bm_size bm)"
      using set_next_bit_hit [OF wf] by metis
    then have u: "unat (of_nat i :: u32) = i" and "i < 2 ^ 31"
      using wf unat_u32_bound [of "bm_size bm"] by (simp_all add: unat_of_nat_bounded wf_bitmap_def)
    then have np: "of_nat i \<noteq> BM_NPOS"
      by (auto simp: BM_NPOS_def word_unat_eq_iff)
    show thesis
      by (rule hit [OF b(1) np]) (use b(2-) nf in \<open>simp_all only: u\<close>)
  next
    case 3
    show thesis
      by (rule overrun [OF set_next_bit_overrun [OF wf 3(2) 3(1) 3(3)] 3])
  qed
qed

interpretation bm: slot_map wf_bitmap "\<lambda>b. unat (bm_size b)" set_bits_of bitmap_set_next_bit bitmap_unset
proof
  fix b start i b' j
  assume wf: "wf_bitmap b"
  show "set_bits_of b \<subseteq> {..< unat (bm_size b)}"
    by (auto simp: set_bits_of_def)
  show "unat start \<le> unat i \<and> unat i < unat (bm_size b) \<and> unat i \<notin> set_bits_of b \<and>
      (\<forall>j < unat i. unat start \<le> j \<longrightarrow> j \<in> set_bits_of b) \<and>
      set_bits_of b' = insert (unat i) (set_bits_of b) \<and> wf_bitmap b' \<and>
      unat (bm_size b') = unat (bm_size b)"
    if "bitmap_set_next_bit b start = Some (i, b')" "i \<noteq> BM_NPOS"
    using wf
  proof (cases rule: set_next_bit_cases [where start = start])
    case (hit k bm')
    with that have "i = k" "b' = bm'" by simp_all
    with hit next_free_set [OF hit(3)] show ?thesis by simp
  qed (use that in auto)
  show "b' = b \<and> (\<forall>j < unat (bm_size b). unat start \<le> j \<longrightarrow> j \<in> set_bits_of b)"
    if "bitmap_set_next_bit b start = Some (BM_NPOS, b')"
    using wf by (cases rule: set_next_bit_cases [where start = start]) (use that in auto)
  show "\<exists>i b'. bitmap_set_next_bit b start = Some (i, b') \<and> i \<noteq> BM_NPOS"
    if "unat start \<le> j" "j < unat (bm_size b)" "j \<notin> set_bits_of b"
    using wf
  proof (cases rule: set_next_bit_cases [where start = start])
    case overrun
    with that show ?thesis by (auto simp: free_bits_of_def set_bits_of_def)
  qed (use that in auto)
  show "\<exists>b'. bitmap_unset b i = Some b' \<and> wf_bitmap b' \<and> unat (bm_size b') = unat (bm_size b) \<and>
      set_bits_of b' = set_bits_of b - {unat i}" if "unat i < unat (bm_size b)"
  proof -
    from that have lt: "i < bm_size b" by (simp add: word_bounds)
    obtain b'' where "bitmap_unset b i = Some b''" "wf_bitmap b''" "bm_size b'' = bm_size b"
      "set_bits_of b'' = set_bits_of b - {unat i}"
      using bitmap_unset_correct [OF wf lt] by blast
    then show ?thesis by simp
  qed
qed

subsection \<open>Properties\<close>

lemma free_bits_of_code [code]:
  "free_bits_of bm = set (filter (raw_bit (bm_data bm)) [0..<unat (bm_size bm)])"
  by (auto simp: free_bits_of_def)

lemma set_bits_of_code [code]:
  "set_bits_of bm = set (filter (\<lambda>i. \<not> raw_bit (bm_data bm) i) [0..<unat (bm_size bm)])"
  by (auto simp: set_bits_of_def)

lemmas bits_eval = free_bits_of_code set_bits_of_code raw_bit_def upt_rec bit_simps

text \<open>
  C11: whenever a bit at or after \<open>start\<close> is available, \<open>bitmap_set_next_bit\<close> returns the index
  of the first such bit, sets that bit and no other, and keeps the bitmap consistent: the
  \<open>free\<close> count stays the number of available bits.
\<close>

theorem bitmap_set_next_bit_least:
  assumes "wf_bitmap bm" and "j \<in> free_bits_of bm" and "unat start \<le> j"
  shows "\<exists>i bm'. bitmap_set_next_bit bm start = Some (i, bm') \<and>
    next_free bm (unat start) (unat i) \<and> wf_bitmap bm' \<and> bm_size bm' = bm_size bm \<and>
    set_bits_of bm' = insert (unat i) (set_bits_of bm)"
  using assms(1)
proof (cases rule: set_next_bit_cases [where start = start])
  case miss
  then show ?thesis using assms by (auto simp: free_bits_of_def set_bits_of_def)
next
  case (hit i bm')
  then show ?thesis by blast
next
  case overrun
  then show ?thesis using assms by auto
qed

theorem bitmap_set_next_bit_least_witness:
  "\<exists>i bm'. bitmap_set_next_bit \<lparr>bm_size = 5, bm_free = 2, bm_data = [9]\<rparr> 1 = Some (i, bm') \<and>
    next_free \<lparr>bm_size = 5, bm_free = 2, bm_data = [9]\<rparr> 1 (unat i) \<and> wf_bitmap bm' \<and>
    bm_size bm' = 5 \<and> set_bits_of bm' = insert (unat i) {1, 2, 4}"
proof -
  let ?bm = "\<lparr>bm_size = 5, bm_free = 2, bm_data = [9]\<rparr>"
  have wf: "wf_bitmap ?bm" by (simp add: wf_bitmap_def bits_eval)
  have mem: "3 \<in> free_bits_of ?bm" by (simp add: bits_eval)
  have s: "set_bits_of ?bm = {1, 2, 4}" by (simp add: bits_eval) (simp add: numeral_eq_Suc)
  show ?thesis using bitmap_set_next_bit_least [OF wf mem, of 1] by (simp add: s)
qed

text \<open>
  C16: the search does not wrap and has no end of its own: when bits are available but all of
  them are below a valid \<open>start\<close>, \<open>bitmap_set_next_bit\<close> does not return \<open>BM_NPOS\<close> as its
  contract says; it stops in \<open>assert_bounds\<close> or runs off the array.
\<close>

theorem bitmap_set_next_bit_no_npos:
  assumes "wf_bitmap bm" and "start < bm_size bm" and "bm_free bm \<noteq> 0"
    and "\<forall>j \<in> free_bits_of bm. j < unat start"
  shows "bitmap_set_next_bit bm start = None"
  using assms by (rule set_next_bit_overrun)

theorem bitmap_set_next_bit_no_npos_witness:
  "bitmap_set_next_bit \<lparr>bm_size = 5, bm_free = 1, bm_data = [1]\<rparr> 2 = None"
  by (rule bitmap_set_next_bit_no_npos) (simp_all add: wf_bitmap_def bits_eval)

end
