(* ===== verification/Heap_Client.thy ===== *)
theory Heap_Client
  imports Cpu_Locks
begin

text \<open>
  The allocator of \<open>kmalloc.c\<close> as its clients see it, through its answers: the addresses it is going to
  hand out (0 when it fails) and the set of those not freed yet.
\<close>

record heap_state = cpu_state +
  kmalloc_answers :: "addr list"
  kmalloc_live :: "addr set"

definition kmalloc :: "'a heap_state_scheme \<Rightarrow> addr \<times> 'a heap_state_scheme" where
  "kmalloc s = (case kmalloc_answers s of
       [] \<Rightarrow> (0, s)
     | a # as \<Rightarrow> (a, s\<lparr>kmalloc_answers := as,
                      kmalloc_live := (if a = 0 then kmalloc_live s else insert a (kmalloc_live s))\<rparr>))"

definition kfree :: "addr \<Rightarrow> 'a heap_state_scheme \<Rightarrow> 'a heap_state_scheme option" where
  "kfree a s = do {
     ASSERT (a \<in> kmalloc_live s);
     Some (s\<lparr>kmalloc_live := kmalloc_live s - {a}\<rparr>) }"

text \<open>The allocator never hands out an address that is in use.\<close>

definition heap_ok :: "'a heap_state_scheme \<Rightarrow> bool" where
  "heap_ok s \<longleftrightarrow> distinct (filter (\<lambda>a. a \<noteq> 0) (kmalloc_answers s)) \<and>
     (\<forall>a \<in> set (kmalloc_answers s). a \<noteq> 0 \<longrightarrow> a \<notin> kmalloc_live s) \<and> 0 \<notin> kmalloc_live s"

lemma heap_ok_update [simp]:
  "heap_ok (s\<lparr>error_list := el\<rparr>) = heap_ok s" "heap_ok (s\<lparr>error_descs := ed\<rparr>) = heap_ok s"
  "heap_ok (s\<lparr>int_flag := b\<rparr>) = heap_ok s"
  by (simp_all add: heap_ok_def)

lemma kfree_eq_Some: "kfree a s = Some s' \<longleftrightarrow> a \<in> kmalloc_live s \<and> s' = s\<lparr>kmalloc_live := kmalloc_live s - {a}\<rparr>"
  by (auto simp: kfree_def)

lemma heap_ok_kfree: "heap_ok s \<Longrightarrow> kfree a s = Some s' \<Longrightarrow> heap_ok s'"
  by (auto simp: kfree_eq_Some heap_ok_def)

lemma kmalloc_cases:
  assumes "heap_ok s" and "kmalloc s = (a, s')"
  obtains (fail) as where "a = 0" "s' = s\<lparr>kmalloc_answers := as\<rparr>" "heap_ok s'"
  | (success) as where "a \<noteq> 0" "a \<notin> kmalloc_live s"
      "s' = s\<lparr>kmalloc_answers := as, kmalloc_live := insert a (kmalloc_live s)\<rparr>" "heap_ok s'"
proof (cases "kmalloc_answers s")
  case Nil
  then show ?thesis using assms fail [of "[]"] by (auto simp: kmalloc_def)
next
  case (Cons x as)
  show ?thesis
  proof (cases "x = 0")
    case True
    then have "s' = s\<lparr>kmalloc_answers := as\<rparr>" "a = 0" using Cons assms(2) by (auto simp: kmalloc_def)
    moreover have "heap_ok (s\<lparr>kmalloc_answers := as\<rparr>)" using Cons assms(1) True by (auto simp: heap_ok_def)
    ultimately show ?thesis using fail by blast
  next
    case False
    then have "s' = s\<lparr>kmalloc_answers := as, kmalloc_live := insert a (kmalloc_live s)\<rparr>" "a = x"
      using Cons assms(2) by (auto simp: kmalloc_def)
    moreover have "x \<notin> kmalloc_live s" "heap_ok (s\<lparr>kmalloc_answers := as, kmalloc_live := insert x (kmalloc_live s)\<rparr>)"
      using Cons assms(1) False by (auto simp: heap_ok_def)
    ultimately show ?thesis using success False by blast
  qed
qed

lemma kmalloc_answer:
  "kmalloc_answers s = a # as \<Longrightarrow> a \<noteq> 0 \<Longrightarrow>
    kmalloc s = (a, s\<lparr>kmalloc_answers := as, kmalloc_live := insert a (kmalloc_live s)\<rparr>)"
  by (simp add: kmalloc_def)

end
