(* ===== verification/Frame_Alloc.thy ===== *)
theory Frame_Alloc
  imports Bitmap Heap_Client
begin

text \<open>
  The physical frame allocator of \<open>frame_alloc.c\<close>: one bitmap with a bit per 4KiB frame behind
  \<open>FRAME_ALLOC_LOCK\<close>. The abstraction is the set of frame numbers in use. What the rest of the
  kernel may rely on is the locale \<open>frame_allocator\<close>; its lemmas say that frames handed out are
  never shared. The start-up part of \<open>frame_alloc.c\<close> is \<open>Multiboot_Map\<close>.
\<close>

subsection \<open>State and operations\<close>

record frame_state = heap_state +
  FRAME_ALLOC_LOCK :: spinlock
  FRAME_BITMAP :: bitmap
  OOM_SIMULATION :: bool

definition NO_FRAME :: addr where
  "NO_FRAME = - 1"

definition LOW_MEM_MAX_IDX :: u32 where
  "LOW_MEM_MAX_IDX = push_bit 20 1 div PAGE_SIZE - 1"

definition get_bitmap_and_lock :: "'a frame_state_scheme \<Rightarrow> (bitmap \<times> 'a frame_state_scheme) option" where
  "get_bitmap_and_lock s = do {
     (l, s) \<leftarrow> spinlock_lock (FRAME_ALLOC_LOCK s) s;
     Some (FRAME_BITMAP s, s\<lparr>FRAME_ALLOC_LOCK := l\<rparr>) }"

definition unlock_frames :: "'a frame_state_scheme \<Rightarrow> 'a frame_state_scheme option" where
  "unlock_frames s = do {
     (l, s) \<leftarrow> spinlock_unlock (FRAME_ALLOC_LOCK s) s;
     Some (s\<lparr>FRAME_ALLOC_LOCK := l\<rparr>) }"

definition frame_index :: "addr \<Rightarrow> u32" where
  "frame_index ptr = drop_bit 12 (get_page_addr ptr)"

definition do_allocation :: "bool \<Rightarrow> 'a frame_state_scheme \<Rightarrow> (addr \<times> 'a frame_state_scheme) option" where
  "do_allocation low_mem s = do {
     (bitmap, s) \<leftarrow> get_bitmap_and_lock s;
     if OOM_SIMULATION s then do {
       s \<leftarrow> unlock_frames s;
       s \<leftarrow> set_error ENOMEM s;
       Some (NO_FRAME, s) }
     else do {
       let start_idx = (if low_mem then 0 else LOW_MEM_MAX_IDX);
       (frame_idx, bitmap) \<leftarrow> bitmap_set_next_bit bitmap start_idx;
       (frame_idx, bitmap) \<leftarrow>
         (if frame_idx = BM_NPOS then
            (if \<not> low_mem then bitmap_set_next_bit bitmap 0 else Some (frame_idx, bitmap))
          else if low_mem \<and> LOW_MEM_MAX_IDX < frame_idx then do {
            bitmap \<leftarrow> bitmap_unset bitmap frame_idx;
            Some (BM_NPOS, bitmap) }
          else Some (frame_idx, bitmap));
       let s = s\<lparr>FRAME_BITMAP := bitmap\<rparr>;
       (frame_addr, s) \<leftarrow>
         (if frame_idx = BM_NPOS then do {
            s \<leftarrow> set_error ENOMEM s;
            Some (NO_FRAME, s) }
          else Some (frame_idx * 0x1000, s));
       s \<leftarrow> unlock_frames s;
       Some (frame_addr, s) } }"

definition alloc_frame :: "'a frame_state_scheme \<Rightarrow> (addr \<times> 'a frame_state_scheme) option" where
  "alloc_frame s = do_allocation False s"

definition alloc_frame_low_mem :: "'a frame_state_scheme \<Rightarrow> (addr \<times> 'a frame_state_scheme) option" where
  "alloc_frame_low_mem s = do_allocation True s"

definition free_frame :: "addr \<Rightarrow> 'a frame_state_scheme \<Rightarrow> 'a frame_state_scheme option" where
  "free_frame ptr s = do {
     ASSERT (ptr \<noteq> NO_FRAME);
     (bitmap, s) \<leftarrow> get_bitmap_and_lock s;
     ASSERT (is_4kib_aligned ptr);
     let idx = frame_index ptr;
     in_use \<leftarrow> bitmap_get_bit bitmap idx;
     if \<not> in_use then PANIC
     else do {
       bitmap \<leftarrow> bitmap_unset bitmap idx;
       unlock_frames (s\<lparr>FRAME_BITMAP := bitmap\<rparr>) } }"

definition frames_allocated :: "'a frame_state_scheme \<Rightarrow> (u32 \<times> 'a frame_state_scheme) option" where
  "frames_allocated s = do {
     (bitmap, s) \<leftarrow> get_bitmap_and_lock s;
     let n_allocs = bm_size bitmap - bm_free bitmap;
     s \<leftarrow> unlock_frames s;
     Some (n_allocs, s) }"

definition frame_alloc_set_oom_simulation :: "bool \<Rightarrow> 'a frame_state_scheme \<Rightarrow> 'a frame_state_scheme" where
  "frame_alloc_set_oom_simulation enabled s = s\<lparr>OOM_SIMULATION := enabled\<rparr>"

subsection \<open>Abstraction and invariant\<close>

definition frames_in_use :: "'a frame_state_scheme \<Rightarrow> nat set" where
  "frames_in_use s = set_bits_of (FRAME_BITMAP s)"

definition wf_frames :: "'a frame_state_scheme \<Rightarrow> bool" where
  "wf_frames s \<longleftrightarrow> lock_free (FRAME_ALLOC_LOCK s) \<and> wf_bitmap (FRAME_BITMAP s) \<and>
     unat (bm_size (FRAME_BITMAP s)) \<le> 2 ^ 20"

definition frame_number :: "addr \<Rightarrow> nat" where
  "frame_number a = unat a div 4096"

text \<open>The state after a call that returned with the bitmap \<open>b\<close>: nothing else but the lock word differs.\<close>

definition with_bitmap :: "bitmap \<Rightarrow> 'a frame_state_scheme \<Rightarrow> 'a frame_state_scheme" where
  "with_bitmap b s = s\<lparr>FRAME_BITMAP := b, FRAME_ALLOC_LOCK := released (int_flag s)\<rparr>"

definition log_enomem :: "'a frame_state_scheme \<Rightarrow> 'a frame_state_scheme" where
  "log_enomem s = s\<lparr>error_list := error_list s @ (if next_desc s then [ENOMEM] else []),
     error_descs := tl (error_descs s)\<rparr>"

lemma set_error_ENOMEM [simp]: "set_error ENOMEM s = Some (log_enomem s)"
  by (simp add: log_enomem_def)

lemma log_enomem_sel [simp]:
  "FRAME_BITMAP (log_enomem s) = FRAME_BITMAP s" "FRAME_ALLOC_LOCK (log_enomem s) = FRAME_ALLOC_LOCK s"
  "OOM_SIMULATION (log_enomem s) = OOM_SIMULATION s" "int_flag (log_enomem s) = int_flag s"
  "cpu_id (log_enomem s) = cpu_id s"
  by (simp_all add: log_enomem_def)

lemma log_enomem_update [simp]:
  "log_enomem (s\<lparr>FRAME_BITMAP := b\<rparr>) = (log_enomem s)\<lparr>FRAME_BITMAP := b\<rparr>"
  "log_enomem (s\<lparr>FRAME_ALLOC_LOCK := l\<rparr>) = (log_enomem s)\<lparr>FRAME_ALLOC_LOCK := l\<rparr>"
  "log_enomem (s\<lparr>int_flag := i\<rparr>) = (log_enomem s)\<lparr>int_flag := i\<rparr>"
  "(log_enomem s)\<lparr>int_flag := int_flag s\<rparr> = log_enomem s"
  by (simp_all add: log_enomem_def next_desc_def)

lemma frames_in_use_log [simp]:
  "frames_in_use (log_enomem s) = frames_in_use s" "wf_frames (log_enomem s) = wf_frames s"
  by (simp_all add: frames_in_use_def wf_frames_def)

lemma with_bitmap_sel [simp]:
  "FRAME_BITMAP (with_bitmap b s) = b" "OOM_SIMULATION (with_bitmap b s) = OOM_SIMULATION s"
  "int_flag (with_bitmap b s) = int_flag s" "cpu_id (with_bitmap b s) = cpu_id s"
  "error_list (with_bitmap b s) = error_list s" "error_descs (with_bitmap b s) = error_descs s"
  "next_desc (with_bitmap b s) = next_desc s"
  "frames_in_use (with_bitmap b s) = set_bits_of b"
  "wf_frames (with_bitmap b s) \<longleftrightarrow> wf_bitmap b \<and> unat (bm_size b) \<le> 2 ^ 20"
  by (simp_all add: with_bitmap_def frames_in_use_def wf_frames_def next_desc_def)

lemma LOW_MEM_MAX_IDX_value: "LOW_MEM_MAX_IDX = 255"
  by (simp add: LOW_MEM_MAX_IDX_def PAGE_SIZE_def)

lemma frame_index_number: "unat (frame_index ptr) = frame_number ptr"
  by (simp add: frame_index_def frame_number_def unat_get_page_addr drop_bit_eq_div unat_div_distrib)

text \<open>The address of frame \<open>i\<close>: no overflow below \<open>2 ^ 20\<close> frames, and never \<open>NO_FRAME\<close>.\<close>

lemma frame_addr:
  assumes "unat i < 2 ^ 20"
  shows "is_4kib_aligned (i * 0x1000)" and "frame_number (i * 0x1000) = unat i"
    and "i * 0x1000 \<noteq> NO_FRAME"
proof -
  have u: "unat (i * 0x1000) = unat i * 4096"
    using assms by (subst unat_mult_no_overflow) simp_all
  show al: "is_4kib_aligned (i * 0x1000)"
    by (simp add: is_4kib_aligned_unat u)
  show "frame_number (i * 0x1000) = unat i"
    by (simp add: frame_number_def u)
  show "i * 0x1000 \<noteq> NO_FRAME"
  proof
    assume eq: "i * 0x1000 = NO_FRAME"
    have "\<not> is_4kib_aligned NO_FRAME" by (simp add: NO_FRAME_def is_4kib_aligned_def)
    with al eq show False by simp
  qed
qed

subsection \<open>What each call does\<close>

text \<open>The choice of a frame by \<open>do_allocation\<close>, between taking and giving back the lock.\<close>

definition choose_frame :: "bool \<Rightarrow> bitmap \<Rightarrow> (u32 \<times> bitmap) option" where
  "choose_frame low_mem bitmap = do {
     (frame_idx, bitmap) \<leftarrow> bitmap_set_next_bit bitmap (if low_mem then 0 else LOW_MEM_MAX_IDX);
     if frame_idx = BM_NPOS then
       (if \<not> low_mem then bitmap_set_next_bit bitmap 0 else Some (frame_idx, bitmap))
     else if low_mem \<and> LOW_MEM_MAX_IDX < frame_idx then do {
       bitmap \<leftarrow> bitmap_unset bitmap frame_idx;
       Some (BM_NPOS, bitmap) }
     else Some (frame_idx, bitmap) }"

lemma do_allocation_locked:
  assumes "lock_free (FRAME_ALLOC_LOCK s)"
  shows "do_allocation low_mem s =
    (if OOM_SIMULATION s then Some (NO_FRAME, log_enomem (with_bitmap (FRAME_BITMAP s) s))
     else map_option (\<lambda>(i, b). if i = BM_NPOS then (NO_FRAME, log_enomem (with_bitmap b s))
                              else (i * 0x1000, with_bitmap b s))
            (choose_frame low_mem (FRAME_BITMAP s)))"
  using assms
  by (auto simp: do_allocation_def get_bitmap_and_lock_def unlock_frames_def choose_frame_def
      with_bitmap_def Let_def split: option.splits bind_splits)

text \<open>A request for low memory always returns, with a frame below 1MiB exactly when there is one.\<close>

lemma choose_low_frame:
  assumes wf: "wf_bitmap b"
  obtains (got) i b' where "choose_frame True b = Some (i, b')" and "i \<noteq> BM_NPOS"
      and "unat i \<le> 255" and "unat i < unat (bm_size b)" and "unat i \<notin> set_bits_of b"
      and "set_bits_of b' = insert (unat i) (set_bits_of b)"
      and "wf_bitmap b'" and "bm_size b' = bm_size b"
  | (none) b' where "choose_frame True b = Some (BM_NPOS, b')"
      and "\<forall>j < unat (bm_size b). j \<le> 255 \<longrightarrow> j \<in> set_bits_of b"
      and "set_bits_of b' = set_bits_of b" and "wf_bitmap b'" and "bm_size b' = bm_size b"
  using wf
proof (cases rule: set_next_bit_cases [where start = 0])
  case miss
  show thesis
    by (rule none) (use miss wf in \<open>auto simp: choose_frame_def\<close>)
next
  case overrun
  then have "free_bits_of b = {}" by auto
  with overrun(2) wf show thesis by (simp add: bm_free_zero_iff)
next
  case (hit i b')
  note fresh = next_free_set [OF hit(3)]
  show thesis
  proof (cases "LOW_MEM_MAX_IDX < i")
    case False
    then have "unat i \<le> 255" by (simp add: word_bounds LOW_MEM_MAX_IDX_value)
    show thesis
      by (rule got [of i b']) (use hit fresh False \<open>unat i \<le> 255\<close> in \<open>auto simp: choose_frame_def\<close>)
  next
    case True
    then have "255 < unat i" by (simp add: word_bounds LOW_MEM_MAX_IDX_value)
    have lt: "i < bm_size b'" using hit by (simp add: word_bounds)
    obtain b'' where b'': "bitmap_unset b' i = Some b''" "wf_bitmap b''" "bm_size b'' = bm_size b'"
      "set_bits_of b'' = set_bits_of b' - {unat i}"
      using bitmap_unset_correct [OF hit(5) lt] by blast
    show thesis
      by (rule none [of b'']) (use hit b'' True fresh \<open>255 < unat i\<close> in \<open>auto simp: choose_frame_def\<close>)
  qed
qed

text \<open>
  A general request takes a frame at or above index 255; it falls back to lower frames only
  when the bitmap has no more than 255 frames, since the search for a higher frame does not
  come back otherwise.
\<close>

lemma choose_any_frame:
  assumes wf: "wf_bitmap b"
  obtains (got) i b' where "choose_frame False b = Some (i, b')" and "i \<noteq> BM_NPOS"
      and "unat i < unat (bm_size b)" and "unat i \<notin> set_bits_of b"
      and "set_bits_of b' = insert (unat i) (set_bits_of b)"
      and "wf_bitmap b'" and "bm_size b' = bm_size b"
      and "255 < unat (bm_size b) \<longrightarrow> 255 \<le> unat i"
  | (full) "choose_frame False b = Some (BM_NPOS, b)" and "set_bits_of b = {..< unat (bm_size b)}"
  | (stuck) "choose_frame False b = None" and "255 < unat (bm_size b)" and "free_bits_of b \<noteq> {}"
      and "\<forall>j \<in> free_bits_of b. j < 255"
  using wf
proof (cases rule: set_next_bit_cases [where start = LOW_MEM_MAX_IDX])
  case (hit i b')
  show thesis
    by (rule got [of i b'])
      (use hit next_free_set [OF hit(3)] in \<open>auto simp: choose_frame_def LOW_MEM_MAX_IDX_value\<close>)
next
  case overrun
  show thesis
    by (rule stuck)
      (use overrun wf in \<open>auto simp: choose_frame_def LOW_MEM_MAX_IDX_value word_bounds bm_free_zero_iff\<close>)
next
  case miss
  then have again: "choose_frame False b = bitmap_set_next_bit b 0" by (simp add: choose_frame_def)
  show thesis
    using wf
  proof (cases rule: set_next_bit_cases [where start = 0])
    case (hit i b')
    note fresh = next_free_set [OF hit(3)]
    then have "unat i < 255"
      using miss(2) [of "unat i"] hit(4) by (fastforce simp: LOW_MEM_MAX_IDX_value not_less)
    moreover have "\<not> 255 < unat (bm_size b)"
    proof
      assume big: "255 < unat (bm_size b)"
      then have "bm_free b = 0"
        using miss(3) by (simp add: LOW_MEM_MAX_IDX_value word_bounds)
      with fresh show False using wf hit by (auto simp: bm_free_zero_iff next_free_def)
    qed
    ultimately show thesis
      by (intro got [of i b']) (use hit fresh again in auto)
  next
    case m0: miss
    show thesis
      by (rule full) (use m0 again in \<open>auto simp: set_bits_of_def\<close>)
  next
    case overrun
    then have "free_bits_of b = {}" by auto
    with overrun(2) wf show thesis by (simp add: bm_free_zero_iff)
  qed
qed

lemma alloc_frame_got:
  assumes wf: "wf_frames s" and run: "alloc_frame s = Some (f, s')" and f: "f \<noteq> NO_FRAME"
  shows "wf_frames s' \<and> is_4kib_aligned f \<and> frame_number f \<notin> frames_in_use s \<and>
    frames_in_use s' = insert (frame_number f) (frames_in_use s) \<and>
    (\<exists>b. s' = with_bitmap b s \<and> bm_size b = bm_size (FRAME_BITMAP s)) \<and>
    frame_number f < unat (bm_size (FRAME_BITMAP s))"
proof -
  have w: "lock_free (FRAME_ALLOC_LOCK s)" "wf_bitmap (FRAME_BITMAP s)"
    and sz: "unat (bm_size (FRAME_BITMAP s)) \<le> 2 ^ 20"
    using wf by (simp_all add: wf_frames_def)
  note run' = run [unfolded alloc_frame_def do_allocation_locked [OF w(1)]]
  from w(2) show ?thesis
  proof (cases rule: choose_any_frame)
    case (got i b')
    with run' f have "f = i * 0x1000" and s': "s' = with_bitmap b' s" by (auto split: if_splits)
    moreover have "unat i < 2 ^ 20" using got(3) sz by simp
    ultimately show ?thesis
      using frame_addr [of i] got sz by (auto simp: frames_in_use_def)
  qed (use run' f in \<open>auto split: if_splits\<close>)
qed

lemma alloc_frame_none:
  assumes wf: "wf_frames s" and run: "alloc_frame s = Some (NO_FRAME, s')"
  shows "s' = log_enomem (with_bitmap (FRAME_BITMAP s) s) \<and>
    (OOM_SIMULATION s \<or> frames_in_use s = {..< unat (bm_size (FRAME_BITMAP s))})"
proof -
  have w: "lock_free (FRAME_ALLOC_LOCK s)" "wf_bitmap (FRAME_BITMAP s)"
    and sz: "unat (bm_size (FRAME_BITMAP s)) \<le> 2 ^ 20"
    using wf by (simp_all add: wf_frames_def)
  note run' = run [unfolded alloc_frame_def do_allocation_locked [OF w(1)]]
  from w(2) show ?thesis
  proof (cases rule: choose_any_frame)
    case (got i b')
    then have "i * 0x1000 \<noteq> NO_FRAME" using sz by (intro frame_addr) simp
    with got run' show ?thesis by (auto split: if_splits)
  qed (use run' in \<open>auto simp: frames_in_use_def split: if_splits\<close>)
qed

text \<open>When \<open>alloc_frame\<close> does not come back at all.\<close>

lemma alloc_frame_stuck_iff:
  assumes wf: "wf_frames s"
  shows "alloc_frame s = None \<longleftrightarrow>
    \<not> OOM_SIMULATION s \<and> 255 < unat (bm_size (FRAME_BITMAP s)) \<and>
    {..< unat (bm_size (FRAME_BITMAP s))} - frames_in_use s \<noteq> {} \<and>
    {255 ..< unat (bm_size (FRAME_BITMAP s))} \<subseteq> frames_in_use s"
proof -
  let ?b = "FRAME_BITMAP s"
  have w: "lock_free (FRAME_ALLOC_LOCK s)" "wf_bitmap ?b"
    using wf by (simp_all add: wf_frames_def)
  have free: "free_bits_of ?b = {..< unat (bm_size ?b)} - frames_in_use s"
    by (auto simp: free_bits_of_def frames_in_use_def set_bits_of_def)
  note run = do_allocation_locked [OF w(1), of False]
  from w(2) show ?thesis
  proof (cases rule: choose_any_frame)
    case (got i b')
    then have "alloc_frame s \<noteq> None" using run by (simp add: alloc_frame_def)
    moreover have "\<not> {255 ..< unat (bm_size ?b)} \<subseteq> frames_in_use s" if "255 < unat (bm_size ?b)"
      using got that by (auto simp: frames_in_use_def)
    ultimately show ?thesis by blast
  next
    case full
    then show ?thesis using run by (auto simp: alloc_frame_def frames_in_use_def)
  next
    case stuck
    then have "x < 255" if "x < unat (bm_size ?b)" "x \<notin> frames_in_use s" for x
      using that free by simp
    then have "{255 ..< unat (bm_size ?b)} \<subseteq> frames_in_use s"
      by (meson atLeastLessThan_iff leD subsetI)
    with stuck show ?thesis using run unfolding alloc_frame_def free by auto
  qed
qed

lemma alloc_frame_low_mem_got:
  assumes wf: "wf_frames s" and run: "alloc_frame_low_mem s = Some (f, s')" and f: "f \<noteq> NO_FRAME"
  shows "wf_frames s' \<and> is_4kib_aligned f \<and> unat f < 2 ^ 20 \<and> frame_number f \<notin> frames_in_use s \<and>
    frames_in_use s' = insert (frame_number f) (frames_in_use s)"
proof -
  have w: "lock_free (FRAME_ALLOC_LOCK s)" "wf_bitmap (FRAME_BITMAP s)"
    and sz: "unat (bm_size (FRAME_BITMAP s)) \<le> 2 ^ 20"
    using wf by (simp_all add: wf_frames_def)
  note run' = run [unfolded alloc_frame_low_mem_def do_allocation_locked [OF w(1)]]
  from w(2) show ?thesis
  proof (cases rule: choose_low_frame)
    case (got i b')
    with run' f have fi: "f = i * 0x1000" and s': "s' = with_bitmap b' s" by (auto split: if_splits)
    have "unat i < 2 ^ 20" using got(4) sz by simp
    moreover have "unat f = unat i * 4096"
      using got(3) unfolding fi by (subst unat_mult_no_overflow) simp_all
    ultimately show ?thesis
      using frame_addr [of i] got sz fi s' by (auto simp: frames_in_use_def)
  qed (use run' f in \<open>auto split: if_splits\<close>)
qed

lemma alloc_frame_low_mem_total:
  assumes wf: "wf_frames s" and "\<not> OOM_SIMULATION s"
  shows "\<exists>f s'. alloc_frame_low_mem s = Some (f, s') \<and>
    (f = NO_FRAME \<longleftrightarrow> {..< min 256 (unat (bm_size (FRAME_BITMAP s)))} \<subseteq> frames_in_use s) \<and>
    (f = NO_FRAME \<longrightarrow> wf_frames s' \<and> frames_in_use s' = frames_in_use s)"
proof -
  have w: "lock_free (FRAME_ALLOC_LOCK s)" "wf_bitmap (FRAME_BITMAP s)"
    and sz: "unat (bm_size (FRAME_BITMAP s)) \<le> 2 ^ 20"
    using wf by (simp_all add: wf_frames_def)
  note run = do_allocation_locked [OF w(1), of True]
  from w(2) show ?thesis
  proof (cases rule: choose_low_frame)
    case (got i b')
    then have "i * 0x1000 \<noteq> NO_FRAME" using sz by (intro frame_addr) simp
    moreover have "\<not> {..< min 256 (unat (bm_size (FRAME_BITMAP s)))} \<subseteq> frames_in_use s"
      using got by (auto simp: frames_in_use_def dest: subsetD [where c = "unat i"])
    moreover have "alloc_frame_low_mem s = Some (i * 0x1000, with_bitmap b' s)"
      using got run assms(2) by (simp add: alloc_frame_low_mem_def)
    ultimately show ?thesis by blast
  next
    case (none b')
    then show ?thesis
      using run assms(2) sz by (auto simp: alloc_frame_low_mem_def frames_in_use_def)
  qed
qed

lemma free_frame_in_use:
  assumes wf: "wf_frames s" and "is_4kib_aligned f" and use: "frame_number f \<in> frames_in_use s"
  obtains b where "free_frame f s = Some (with_bitmap b s)" and "wf_bitmap b"
    and "bm_size b = bm_size (FRAME_BITMAP s)" and "set_bits_of b = frames_in_use s - {frame_number f}"
proof -
  have w: "lock_free (FRAME_ALLOC_LOCK s)" "wf_bitmap (FRAME_BITMAP s)"
    using wf by (simp_all add: wf_frames_def)
  have lt: "frame_index f < bm_size (FRAME_BITMAP s)"
    using use by (simp add: word_bounds frame_index_number frames_in_use_def set_bits_of_def)
  have "f \<noteq> NO_FRAME" using assms(2) by (auto simp: NO_FRAME_def is_4kib_aligned_def)
  obtain b where b: "bitmap_unset (FRAME_BITMAP s) (frame_index f) = Some b" "wf_bitmap b"
    "bm_size b = bm_size (FRAME_BITMAP s)"
    "set_bits_of b = set_bits_of (FRAME_BITMAP s) - {unat (frame_index f)}"
    using bitmap_unset_correct [OF w(2) lt] by blast
  moreover have "free_frame f s = Some (with_bitmap b s)"
    using w b(1) assms(2) use bitmap_get_bit_correct [OF w(2) lt] \<open>f \<noteq> NO_FRAME\<close>
    by (simp add: free_frame_def get_bitmap_and_lock_def unlock_frames_def with_bitmap_def
        frame_index_number frames_in_use_def)
  ultimately show thesis using that by (simp add: frames_in_use_def frame_index_number)
qed

lemma free_frame_bad:
  assumes wf: "wf_frames s" and "\<not> is_4kib_aligned f \<or> frame_number f \<notin> frames_in_use s"
  shows "free_frame f s = None"
proof (cases "is_4kib_aligned f \<and> frame_index f < bm_size (FRAME_BITMAP s)")
  case True
  have w: "wf_bitmap (FRAME_BITMAP s)" "lock_free (FRAME_ALLOC_LOCK s)"
    using wf by (simp_all add: wf_frames_def)
  show ?thesis
    using True w bitmap_get_bit_correct [OF w(1), of "frame_index f"] assms(2)
    by (simp add: free_frame_def get_bitmap_and_lock_def frame_index_number frames_in_use_def ASSERT_def)
next
  case False
  then show ?thesis
    using wf by (auto simp: free_frame_def get_bitmap_and_lock_def bitmap_get_bit_def assert_bounds_def
        ASSERT_def wf_frames_def)
qed

lemma frames_allocated_counts:
  assumes wf: "wf_frames s"
  shows "\<exists>n. frames_allocated s = Some (n, with_bitmap (FRAME_BITMAP s) s) \<and>
    unat n = card (frames_in_use s)"
proof -
  let ?b = "FRAME_BITMAP s"
  have w: "wf_bitmap ?b" "lock_free (FRAME_ALLOC_LOCK s)" using wf by (simp_all add: wf_frames_def)
  have c: "unat (bm_free ?b) + card (set_bits_of ?b) = unat (bm_size ?b)"
    using card_free_set [of ?b] w(1) by (simp add: wf_bitmap_def)
  then have "unat (bm_size ?b - bm_free ?b) = card (set_bits_of ?b)"
    by (subst unat_sub_no_underflow) simp_all
  with w(2) show ?thesis
    by (simp add: frames_allocated_def get_bitmap_and_lock_def unlock_frames_def with_bitmap_def
        frames_in_use_def Let_def)
qed

lemma do_allocation_cpu:
  assumes "wf_frames s" and "do_allocation low s = Some (f, s')"
  shows "int_flag s' = int_flag s \<and> cpu_id s' = cpu_id s \<and> OOM_SIMULATION s' = OOM_SIMULATION s"
proof -
  have "lock_free (FRAME_ALLOC_LOCK s)" using assms(1) by (simp add: wf_frames_def)
  from assms(2) show ?thesis
    unfolding do_allocation_locked [OF \<open>lock_free (FRAME_ALLOC_LOCK s)\<close>]
    by (auto split: if_splits)
qed

lemma do_allocation_fails:
  assumes wf: "wf_frames s" and run: "do_allocation low s = Some (NO_FRAME, s')"
  shows "wf_frames s' \<and> frames_in_use s' = frames_in_use s"
proof (cases low)
  case False
  with run have "alloc_frame s = Some (NO_FRAME, s')" by (simp add: alloc_frame_def)
  then have "s' = log_enomem (with_bitmap (FRAME_BITMAP s) s)"
    using alloc_frame_none [OF wf] by blast
  then show ?thesis
    using wf by (simp add: frames_in_use_def [of s] wf_frames_def [of s])
next
  case True
  show ?thesis
  proof (cases "OOM_SIMULATION s")
    case False
    with True run alloc_frame_low_mem_total [OF wf] show ?thesis
      by (simp add: alloc_frame_low_mem_def)
  next
    case oom: True
    with run wf have "s' = log_enomem (with_bitmap (FRAME_BITMAP s) s)"
      by (simp add: do_allocation_locked wf_frames_def)
    then show ?thesis
      using wf by (simp add: frames_in_use_def [of s] wf_frames_def [of s])
  qed
qed

subsection \<open>The interface the rest of the kernel relies on\<close>

text \<open>
  What a client of the frame allocator may assume: a frame it is given was not in use, a failed
  request changes nothing, a frame in use can be given back, and giving back anything else does
  not return. A client that only gives back what it holds then never shares a frame with
  anybody and loses none.
\<close>

datatype frame_request = Request bool | Give_back addr

locale frame_allocator =
  fixes inv :: "'s \<Rightarrow> bool"
    and in_use :: "'s \<Rightarrow> nat set"
    and alloc :: "bool \<Rightarrow> 's \<Rightarrow> (addr \<times> 's) option"
    and release :: "addr \<Rightarrow> 's \<Rightarrow> 's option"
  assumes alloc_fresh: "inv s \<Longrightarrow> alloc low s = Some (f, s') \<Longrightarrow> f \<noteq> NO_FRAME \<Longrightarrow>
      inv s' \<and> is_4kib_aligned f \<and> frame_number f \<notin> in_use s \<and>
      in_use s' = insert (frame_number f) (in_use s)"
    and alloc_failed: "inv s \<Longrightarrow> alloc low s = Some (NO_FRAME, s') \<Longrightarrow> inv s' \<and> in_use s' = in_use s"
    and release_in_use: "inv s \<Longrightarrow> is_4kib_aligned f \<Longrightarrow> frame_number f \<in> in_use s \<Longrightarrow>
      \<exists>s'. release f s = Some s' \<and> inv s' \<and> in_use s' = in_use s - {frame_number f}"
    and release_bad: "inv s \<Longrightarrow> \<not> is_4kib_aligned f \<or> frame_number f \<notin> in_use s \<Longrightarrow> release f s = None"
begin

fun serve :: "frame_request \<Rightarrow> addr list \<times> 's \<Rightarrow> (addr list \<times> 's) option" where
  "serve (Request low) (held, s) =
     map_option (\<lambda>(f, s'). (if f = NO_FRAME then held else f # held, s')) (alloc low s)"
| "serve (Give_back f) (held, s) =
     (if f \<in> set held then map_option (\<lambda>s'. (remove1 f held, s')) (release f s) else Some (held, s))"

primrec serve_all :: "frame_request list \<Rightarrow> addr list \<times> 's \<Rightarrow> (addr list \<times> 's) option" where
  "serve_all [] c = Some c"
| "serve_all (r # rs) c = Option.bind (serve r c) (serve_all rs)"

definition client_ok :: "nat set \<Rightarrow> addr list \<times> 's \<Rightarrow> bool" where
  "client_ok base c = (case c of (held, s) \<Rightarrow> inv s \<and> distinct (map frame_number held) \<and>
     (\<forall>f \<in> set held. is_4kib_aligned f) \<and> frame_number ` set held \<inter> base = {} \<and>
     in_use s = base \<union> frame_number ` set held)"

lemma serve_client_ok:
  assumes "client_ok base c" and "serve r c = Some c'"
  shows "client_ok base c'"
proof (cases c)
  case (Pair held s)
  with assms(1) have ok: "inv s" "distinct (map frame_number held)"
    "\<forall>f \<in> set held. is_4kib_aligned f" "frame_number ` set held \<inter> base = {}"
    "in_use s = base \<union> frame_number ` set held" by (simp_all add: client_ok_def)
  show ?thesis
  proof (cases r)
    case (Request low)
    with assms(2) Pair obtain f s' where run: "alloc low s = Some (f, s')"
      and c': "c' = (if f = NO_FRAME then held else f # held, s')" by auto
    show ?thesis
    proof (cases "f = NO_FRAME")
      case True
      with alloc_failed [OF ok(1)] run ok c' show ?thesis by (simp add: client_ok_def)
    next
      case False
      with alloc_fresh [OF ok(1) run] ok c' show ?thesis by (auto simp: client_ok_def)
    qed
  next
    case (Give_back f)
    show ?thesis
    proof (cases "f \<in> set held")
      case False
      with assms Give_back Pair show ?thesis by simp
    next
      case True
      then have al: "is_4kib_aligned f" and use: "frame_number f \<in> in_use s" using ok by auto
      obtain s' where s': "release f s = Some s'" "inv s'" "in_use s' = in_use s - {frame_number f}"
        using release_in_use [OF ok(1) al use] by blast
      have inj: "inj_on frame_number (set held)" and d: "distinct held"
        using ok(2) by (simp_all add: distinct_map)
      have rem: "frame_number ` set (remove1 f held) = frame_number ` set held - {frame_number f}"
        using inj True d by (auto simp: set_remove1_eq inj_on_def)
      have d': "distinct (map frame_number (remove1 f held))"
        using inj d by (auto simp: distinct_map intro: inj_on_subset [of _ "set held"])
      have "frame_number ` set (remove1 f held) \<inter> base = {}" using rem ok(4) by blast
      moreover have "in_use s' = base \<union> frame_number ` set (remove1 f held)"
        unfolding s'(3) ok(5) rem using ok(4) True by blast
      moreover have "\<forall>g \<in> set (remove1 f held). is_4kib_aligned g"
        using ok(3) set_remove1_subset [of f held] by blast
      ultimately show ?thesis
        using assms(2) Give_back Pair True s'(1,2) d' by (auto simp: client_ok_def simp del: set_remove1_eq)
    qed
  qed
qed

lemma serve_all_client_ok:
  assumes "client_ok base c" and "serve_all rs c = Some c'"
  shows "client_ok base c'"
  using assms by (induction rs arbitrary: c) (auto simp: bind_eq_Some_conv dest: serve_client_ok)

lemma no_sharing:
  assumes "inv s" and "serve_all rs ([], s) = Some (held, s')"
  shows "inv s' \<and> distinct (map frame_number held) \<and> frame_number ` set held \<inter> in_use s = {} \<and>
    in_use s' = in_use s \<union> frame_number ` set held"
  using serve_all_client_ok [of "in_use s" "([], s)" rs "(held, s')"] assms
  by (simp add: client_ok_def)

lemma alloc_release:
  assumes "inv s" and "alloc low s = Some (f, s')" and "f \<noteq> NO_FRAME"
  shows "\<exists>s''. release f s' = Some s'' \<and> inv s'' \<and> in_use s'' = in_use s"
  using alloc_fresh [OF assms] release_in_use [of s' f] by auto

end

interpretation fa: frame_allocator wf_frames frames_in_use do_allocation free_frame
proof
  fix s s' :: "'a frame_state_scheme" and low f
  assume wf: "wf_frames s"
  show "wf_frames s' \<and> is_4kib_aligned f \<and> frame_number f \<notin> frames_in_use s \<and>
      frames_in_use s' = insert (frame_number f) (frames_in_use s)"
    if "do_allocation low s = Some (f, s')" "f \<noteq> NO_FRAME"
    using alloc_frame_got [OF wf, of f s'] alloc_frame_low_mem_got [OF wf, of f s'] that
    by (cases low) (auto simp: alloc_frame_def alloc_frame_low_mem_def)
  show "wf_frames s' \<and> frames_in_use s' = frames_in_use s"
    if "do_allocation low s = Some (NO_FRAME, s')"
    using wf that by (rule do_allocation_fails)
  show "\<exists>s'. free_frame f s = Some s' \<and> wf_frames s' \<and> frames_in_use s' = frames_in_use s - {frame_number f}"
    if al: "is_4kib_aligned f" and use: "frame_number f \<in> frames_in_use s"
  proof -
    obtain b where "free_frame f s = Some (with_bitmap b s)" "wf_bitmap b"
      "bm_size b = bm_size (FRAME_BITMAP s)" "set_bits_of b = frames_in_use s - {frame_number f}"
      using free_frame_in_use [OF wf al use] by blast
    with wf show ?thesis by (simp add: wf_frames_def [of s])
  qed
  show "free_frame f s = None" if "\<not> is_4kib_aligned f \<or> frame_number f \<notin> frames_in_use s"
    using wf that by (rule free_frame_bad)
qed

subsection \<open>Properties\<close>

text \<open>
  C4: over any sequence of allocations (in low memory or not) and releases of frames it holds, a
  client never receives a frame that anybody else uses, never holds the same frame twice, and
  the frames in use are at every moment exactly those in use at the start and those it holds:
  nothing is lost. The allocator's lock is free again and its counters are right.
\<close>

theorem frames_never_shared:
  assumes "wf_frames s" and "fa.serve_all rs ([], s) = Some (held, s')"
  shows "wf_frames s' \<and> distinct (map frame_number held) \<and>
    frame_number ` set held \<inter> frames_in_use s = {} \<and>
    frames_in_use s' = frames_in_use s \<union> frame_number ` set held"
  using assms by (rule fa.no_sharing)

definition frames_example :: frame_state where
  "frames_example = \<lparr>cpu_id = 0, int_flag = True, error_list = [], error_descs = [True],
     kmalloc_answers = [], kmalloc_live = {},
     FRAME_ALLOC_LOCK = INIT_SPINLOCK,
     FRAME_BITMAP = \<lparr>bm_size = 5, bm_free = 2, bm_data = [9]\<rparr>, OOM_SIMULATION = False\<rparr>"

lemma frames_example_wf: "wf_frames frames_example"
  by (simp add: wf_frames_def frames_example_def wf_bitmap_def bits_eval)

lemma frames_example_in_use: "frames_in_use frames_example = {1, 2, 4}"
  by (simp add: frames_in_use_def frames_example_def bits_eval) (simp add: numeral_eq_Suc)

theorem frames_never_shared_witness:
  "\<exists>held s'. fa.serve_all [Request True] ([], frames_example) = Some (held, s') \<and>
    frame_number ` set held \<inter> {1, 2, 4} = {} \<and> frames_in_use s' = {1, 2, 4} \<union> frame_number ` set held"
proof -
  have "\<not> OOM_SIMULATION frames_example" by (simp add: frames_example_def)
  then have "fa.serve_all [Request True] ([], frames_example) \<noteq> None"
    using alloc_frame_low_mem_total [OF frames_example_wf] by (auto simp: alloc_frame_low_mem_def)
  then obtain held s' where
    r: "fa.serve_all [Request True] ([], frames_example) = Some (held, s')" by auto
  show ?thesis
    using r frames_never_shared [OF frames_example_wf r] unfolding frames_example_in_use by blast
qed





text \<open>
  C23: \<open>free_frame\<close> accepts exactly the frames that are in use: on an aligned address of such a
  frame it returns with that frame, and no other, available again; on a double free, an address
  outside of RAM or an unaligned one it panics.
\<close>

theorem free_frame_exact:
  assumes "wf_frames s"
  shows "(is_4kib_aligned f \<and> frame_number f \<in> frames_in_use s \<longrightarrow>
      (\<exists>s'. free_frame f s = Some s' \<and> wf_frames s' \<and>
        frames_in_use s' = frames_in_use s - {frame_number f} \<and> int_flag s' = int_flag s)) \<and>
    (\<not> (is_4kib_aligned f \<and> frame_number f \<in> frames_in_use s) \<longrightarrow> free_frame f s = None)"
proof (intro conjI impI)
  assume "is_4kib_aligned f \<and> frame_number f \<in> frames_in_use s"
  then obtain b where "free_frame f s = Some (with_bitmap b s)" "wf_bitmap b"
    "bm_size b = bm_size (FRAME_BITMAP s)" "set_bits_of b = frames_in_use s - {frame_number f}"
    using free_frame_in_use [OF assms] by blast
  with assms show "\<exists>s'. free_frame f s = Some s' \<and> wf_frames s' \<and>
      frames_in_use s' = frames_in_use s - {frame_number f} \<and> int_flag s' = int_flag s"
    by (simp add: wf_frames_def [of s])
next
  assume "\<not> (is_4kib_aligned f \<and> frame_number f \<in> frames_in_use s)"
  then show "free_frame f s = None" using free_frame_bad [OF assms] by blast
qed

theorem free_frame_exact_witness:
  "(\<exists>s'. free_frame 0x2000 frames_example = Some s' \<and> frames_in_use s' = {1, 4}) \<and>
   free_frame 0x3000 frames_example = None"
proof -
  have "is_4kib_aligned 0x2000" "frame_number 0x2000 = 2" "frame_number 0x3000 = 3"
    by (simp_all add: is_4kib_aligned_def frame_number_def)
  with free_frame_exact [OF frames_example_wf, of "0x2000"]
    free_frame_exact [OF frames_example_wf, of "0x3000"]
  show ?thesis unfolding frames_example_in_use by auto
qed

end
