(* ===== verification/Multiboot_Map.thy ===== *)
theory Multiboot_Map
  imports Frame_Alloc
begin

text \<open>
  The boot-time view of physical memory: the multiboot structures of \<open>multiboot.c\<close> and the
  start-up of the frame allocator in \<open>frame_alloc.c\<close>. What the boot loader left in memory is read
  through a record of typed views of physical memory; the addresses the linker gives to the
  kernel image are a parameter. Shown here: the search for room for the bitmap, where it is
  right and where it is not, and the set of frames the allocator starts with.
\<close>

subsection \<open>Multiboot structures\<close>

text \<open>The fields of \<open>struct multiboot_info\<close> the kernel reads, and the two kinds of entries.\<close>

record multiboot_info =
  mods_count :: u32
  mods_addr :: u32
  mmap_length :: u32
  mmap_addr :: u32

record multiboot_mmap_entry =
  me_base_addr :: u64
  me_length :: u64
  me_type :: u32

record multiboot_mod_entry =
  mod_start :: u32
  mod_end :: u32

record boot_memory =
  info_at :: "addr \<Rightarrow> multiboot_info"
  mmap_at :: "addr \<Rightarrow> multiboot_mmap_entry"
  mod_at :: "addr \<Rightarrow> multiboot_mod_entry"

record link_map =
  KERNEL_START_ADDR :: addr
  KERNEL_END_ADDR :: addr

definition sizeof_multiboot_info :: u32 where
  "sizeof_multiboot_info = 118"

definition sizeof_mmap_entry :: u32 where
  "sizeof_mmap_entry = 24"

type_synonym reserved_mem = "(u32 \<times> u32) list"

record multiboot_state =
  MULTIBOOT_INFO :: addr
  INIT_RD_START :: addr
  INIT_RD_SIZE :: u32
  RESERVED_MEM :: reserved_mem

definition init_reserved_memory_area :: "boot_memory \<Rightarrow> link_map \<Rightarrow> multiboot_state \<Rightarrow> multiboot_state" where
  "init_reserved_memory_area mem lm st =
     (let mb = MULTIBOOT_INFO st;
          info = info_at mem mb;
          start_mb = min_u32 mb (mmap_addr info);
          end_mb = max_u32 (mb + sizeof_multiboot_info - 1) (mmap_addr info + mmap_length info);
          vga_buf_offset = 0xB8000;
          vga_bug_len = 80 * 25 * 2
      in st\<lparr>RESERVED_MEM :=
           [(to_phys (KERNEL_START_ADDR lm), to_phys (KERNEL_END_ADDR lm)),
            (start_mb, end_mb),
            (vga_buf_offset, vga_buf_offset + vga_bug_len - 1)]\<rparr>)"

definition init_initrd :: "boot_memory \<Rightarrow> bool \<Rightarrow> multiboot_state \<Rightarrow> multiboot_state option" where
  "init_initrd mem paging st =
     (let mb = info_at mem (MULTIBOOT_INFO st)
      in if mods_count mb = 0 \<or> 1 < mods_count mb then Some st
         else do {
           ASSERT (\<not> paging);
           let entry = mod_at mem (mods_addr mb);
           Some (st\<lparr>INIT_RD_START := mod_start entry, INIT_RD_SIZE := mod_end entry - mod_start entry\<rparr>) })"

definition init_multiboot ::
  "boot_memory \<Rightarrow> link_map \<Rightarrow> bool \<Rightarrow> bool \<Rightarrow> addr \<Rightarrow> multiboot_state \<Rightarrow> multiboot_state option" where
  "init_multiboot mem lm paging higher_half ptr st = do {
     ASSERT (\<not> paging);
     ASSERT (\<not> higher_half);
     let st = st\<lparr>MULTIBOOT_INFO := ptr\<rparr>;
     let st = init_reserved_memory_area mem lm st;
     st \<leftarrow> init_initrd mem paging st;
     Some (st\<lparr>MULTIBOOT_INFO := to_virt ptr\<rparr>) }"

definition get_multiboot_info_struct :: "multiboot_state \<Rightarrow> addr" where
  "get_multiboot_info_struct st = MULTIBOOT_INFO st"

definition get_mmap_entry_ptr :: "boot_memory \<Rightarrow> multiboot_state \<Rightarrow> addr option" where
  "get_mmap_entry_ptr mem st = do {
     let mi = info_at mem (to_phys (MULTIBOOT_INFO st));
     ASSERT (mmap_addr mi \<noteq> 0);
     Some (mmap_addr mi) }"

definition multiboot_mmap_entries_count :: "boot_memory \<Rightarrow> multiboot_state \<Rightarrow> u32 option" where
  "multiboot_mmap_entries_count mem st = do {
     let mi = info_at mem (to_phys (MULTIBOOT_INFO st));
     ASSERT (mmap_length mi mod sizeof_mmap_entry = 0);
     Some (mmap_length mi div sizeof_mmap_entry) }"

definition mmap_entry_is_available :: "multiboot_mmap_entry \<Rightarrow> bool" where
  "mmap_entry_is_available e \<longleftrightarrow> me_type e = 1"

definition mmap_entry_within_4GiB :: "multiboot_mmap_entry \<Rightarrow> bool" where
  "mmap_entry_within_4GiB e \<longleftrightarrow> me_base_addr e \<le> 0xFFFFFFFF"

definition get_max_offset_for_entry :: "multiboot_mmap_entry \<Rightarrow> u64 option" where
  "get_max_offset_for_entry e = do {
     ASSERT (mmap_entry_is_available e);
     Some (me_base_addr e + me_length e - 1) }"

definition get_max_addr_for_entry :: "multiboot_mmap_entry \<Rightarrow> addr option" where
  "get_max_addr_for_entry e = map_option ucast (get_max_offset_for_entry e)"

text \<open>
  The loops over the memory map: \<open>ptr\<close> goes from \<open>first\<close> in steps of one entry while
  \<open>ptr < first + count\<close>, and the body may return from the function. A map that reaches the end
  of the address space would make the pointer wrap, so the loop is a partial function.
\<close>

partial_function (option) mmap_loop ::
  "boot_memory \<Rightarrow> addr \<Rightarrow> (multiboot_mmap_entry \<Rightarrow> 's \<Rightarrow> ('r + 's) option) \<Rightarrow> addr \<Rightarrow> 's \<Rightarrow> ('r + 's) option"
  where
  "mmap_loop mem stop body ptr s =
     (if ptr < stop then
        (case body (mmap_at mem ptr) s of
           None \<Rightarrow> None
         | Some (Inl r) \<Rightarrow> Some (Inl r)
         | Some (Inr s') \<Rightarrow> mmap_loop mem stop body (ptr + sizeof_mmap_entry) s')
      else Some (Inr s))"

definition for_each_mmap_entry ::
  "boot_memory \<Rightarrow> multiboot_state \<Rightarrow> (multiboot_mmap_entry \<Rightarrow> 's \<Rightarrow> ('r + 's) option) \<Rightarrow> 's \<Rightarrow> ('r + 's) option"
  where
  "for_each_mmap_entry mem st body s = do {
     first \<leftarrow> get_mmap_entry_ptr mem st;
     count \<leftarrow> multiboot_mmap_entries_count mem st;
     mmap_loop mem (first + count * sizeof_mmap_entry) body first s }"

definition max_addr_step :: "multiboot_mmap_entry \<Rightarrow> u64 \<Rightarrow> (unit + u64) option" where
  "max_addr_step entry curr_max_addr =
     (if mmap_entry_is_available entry \<and> mmap_entry_within_4GiB entry then do {
        entry_max \<leftarrow> get_max_offset_for_entry entry;
        Some (Inr (if curr_max_addr < entry_max then entry_max else curr_max_addr)) }
      else Some (Inr curr_max_addr))"

definition get_max_addr :: "boot_memory \<Rightarrow> multiboot_state \<Rightarrow> addr option" where
  "get_max_addr mem st = do {
     r \<leftarrow> for_each_mmap_entry mem st max_addr_step 0;
     case r of
       Inl _ \<Rightarrow> None
     | Inr curr_max_addr \<Rightarrow> Some (ucast (if 0xFFFFFFFF < curr_max_addr then 0xFFFFFFFF else curr_max_addr)) }"

subsection \<open>Finding room for the bitmap\<close>

fun find_conflict :: "u64 \<Rightarrow> u64 \<Rightarrow> reserved_mem \<Rightarrow> nat \<Rightarrow> nat option" where
  "find_conflict entry_start entry_end [] i = None"
| "find_conflict entry_start entry_end ((lo, hi) # rs) i =
     (let reserved_start = ucast lo; reserved_end = ucast hi
      in if \<not> ((entry_start < reserved_start \<and> entry_end < reserved_start) \<or>
               (reserved_end < entry_start \<and> reserved_end < entry_end)) then Some i
         else find_conflict entry_start entry_end rs (Suc i))"

definition contain_reserved_memory :: "reserved_mem \<Rightarrow> multiboot_mmap_entry \<Rightarrow> (nat option) option" where
  "contain_reserved_memory rm entry =
     (if me_length entry = 0 then Some None
      else do {
        entry_end \<leftarrow> get_max_offset_for_entry entry;
        Some (find_conflict (me_base_addr entry) entry_end rm 0) })"

text \<open>The last branch of \<open>find_in_entry\<close>: an entry free of reserved memory.\<close>

definition find_in_free_entry :: "multiboot_mmap_entry \<Rightarrow> u32 \<Rightarrow> (addr option) option" where
  "find_in_free_entry entry nframes = do {
     rounded \<leftarrow> round_up_u32 (ucast (me_base_addr entry)) 0x1000;
     let aligned = (ucast rounded :: u64);
     let new_len = me_length entry - (aligned - me_base_addr entry);
     if new_len < ucast (nframes * 0x1000) then Some None
     else if 0xFFFFFFFF < aligned + new_len then Some None
     else Some (Some (ucast aligned)) }"

function find_in_entry :: "reserved_mem \<Rightarrow> multiboot_mmap_entry \<Rightarrow> u32 \<Rightarrow> (addr option) option" where
  "find_in_entry rm entry nframes =
     (if \<not> mmap_entry_within_4GiB entry then Some None
      else case contain_reserved_memory rm entry of
        None \<Rightarrow> None
      | Some None \<Rightarrow> find_in_free_entry entry nframes
      | Some (Some i) \<Rightarrow>
          (let rstart = ucast (fst (rm ! i)); rend = ucast (snd (rm ! i));
               estart = me_base_addr entry;
               before = \<lparr>me_base_addr = estart, me_length = rstart - estart, me_type = 1\<rparr>
           in case get_max_offset_for_entry entry of
             None \<Rightarrow> None
           | Some eend \<Rightarrow>
               (case (if estart \<le> rstart then
                        (if contain_reserved_memory rm before = Some None
                         then find_in_entry rm before nframes else None)
                      else Some None) of
                  None \<Rightarrow> None
                | Some (Some start) \<Rightarrow> Some (Some start)
                | Some None \<Rightarrow>
                    (let after = \<lparr>me_base_addr = rend + 1, me_length = eend - rend, me_type = 1\<rparr>
                     in if rend \<le> eend then
                          (if contain_reserved_memory rm after = Some None
                           then find_in_entry rm after nframes else None)
                        else Some None))))"
  by pat_completeness auto
termination
  by (relation "measure (\<lambda>(rm, e, n). if contain_reserved_memory rm e = Some None then 0 else 1)") auto

declare find_in_entry.simps [simp del]

definition find_frames_step :: "reserved_mem \<Rightarrow> u32 \<Rightarrow> multiboot_mmap_entry \<Rightarrow> unit \<Rightarrow> (addr + unit) option" where
  "find_frames_step rm nframes entry u =
     (if mmap_entry_is_available entry \<and> ucast (nframes * 0x1000) \<le> me_length entry then do {
        r \<leftarrow> find_in_entry rm entry nframes;
        Some (case r of Some start \<Rightarrow> Inl start | None \<Rightarrow> Inr ()) }
      else Some (Inr ()))"

definition find_contiguous_physical_frames :: "boot_memory \<Rightarrow> multiboot_state \<Rightarrow> u32 \<Rightarrow> addr option" where
  "find_contiguous_physical_frames mem st nframes = do {
     r \<leftarrow> for_each_mmap_entry mem st (find_frames_step (RESERVED_MEM st) nframes) ();
     case r of Inl start \<Rightarrow> Some start | Inr _ \<Rightarrow> PANIC }"

definition multiboot_get_initrd_start :: "multiboot_state \<Rightarrow> addr" where
  "multiboot_get_initrd_start st = INIT_RD_START st"

definition multiboot_get_initrd_size :: "multiboot_state \<Rightarrow> u32" where
  "multiboot_get_initrd_size st = INIT_RD_SIZE st"

subsection \<open>Start-up of the frame allocator\<close>

definition compute_bitmap_size :: "boot_memory \<Rightarrow> multiboot_state \<Rightarrow> u32 option" where
  "compute_bitmap_size mem st = do {
     max_addr \<leftarrow> get_max_addr mem st;
     ceil_x_over_y_u32 max_addr 0x1000 }"

text \<open>The loops of \<open>mark_memory_range\<close> and \<open>unmark_memory_range\<close>, over frame indices.\<close>

partial_function (option) mark_frames :: "bool \<Rightarrow> u32 \<Rightarrow> u32 \<Rightarrow> bitmap \<Rightarrow> bitmap option" where
  "mark_frames mark i end_frame bm =
     (if i \<le> end_frame then do {
        b \<leftarrow> bitmap_get_bit bm i;
        ASSERT (b \<noteq> mark);
        bm \<leftarrow> (if mark then bitmap_set bm i else bitmap_unset bm i);
        mark_frames mark (i + 1) end_frame bm }
      else Some bm)"

definition mark_memory_range :: "addr \<Rightarrow> addr \<Rightarrow> bitmap \<Rightarrow> bitmap option" where
  "mark_memory_range start stop bm = mark_frames True (frame_index start) (frame_index stop) bm"

definition unmark_memory_range :: "addr \<Rightarrow> addr \<Rightarrow> bitmap \<Rightarrow> bitmap option" where
  "unmark_memory_range start stop bm = mark_frames False (frame_index start) (frame_index stop) bm"

definition mark_kernel_frames :: "link_map \<Rightarrow> bitmap \<Rightarrow> bitmap option" where
  "mark_kernel_frames lm bm = mark_memory_range (to_phys (KERNEL_START_ADDR lm)) (to_phys (KERNEL_END_ADDR lm)) bm"

definition mark_bitmap_frames :: "addr \<Rightarrow> u32 \<Rightarrow> bitmap \<Rightarrow> bitmap option" where
  "mark_bitmap_frames start n bm = mark_memory_range start (start + n * 0x1000 - 1) bm"

definition unmark_step :: "multiboot_mmap_entry \<Rightarrow> bitmap \<Rightarrow> (unit + bitmap) option" where
  "unmark_step entry bm =
     (if mmap_entry_is_available entry \<and> mmap_entry_within_4GiB entry then do {
        stop \<leftarrow> get_max_addr_for_entry entry;
        bm \<leftarrow> unmark_memory_range (ucast (me_base_addr entry)) stop bm;
        Some (Inr bm) }
      else Some (Inr bm))"

definition unmark_avail_frames :: "boot_memory \<Rightarrow> multiboot_state \<Rightarrow> bitmap \<Rightarrow> bitmap option" where
  "unmark_avail_frames mem st bm = do {
     r \<leftarrow> for_each_mmap_entry mem st unmark_step bm;
     case r of Inl _ \<Rightarrow> None | Inr bm \<Rightarrow> Some bm }"

definition mark_multiboot_info_struct :: "multiboot_state \<Rightarrow> bitmap \<Rightarrow> bitmap option" where
  "mark_multiboot_info_struct st bm =
     (let mb_start = to_phys (get_multiboot_info_struct st);
          mb_end = mb_start + sizeof_multiboot_info - 1
      in mark_memory_range mb_start mb_end bm)"

definition mark_initrd_frames :: "multiboot_state \<Rightarrow> bitmap \<Rightarrow> bitmap option" where
  "mark_initrd_frames st bm =
     (let initrd_size = multiboot_get_initrd_size st
      in if initrd_size = 0 then Some bm
         else (let initrd_start = multiboot_get_initrd_start st;
                   initrd_end = initrd_start + initrd_size - 1
               in mark_memory_range initrd_start initrd_end bm))"

text \<open>
  \<open>init_frame_alloc\<close>; \<open>words\<close> is what the words of the frames found for the bitmap hold before
  it is initialised. The result is the bitmap, the frames it takes and where they start.
\<close>

definition init_frame_alloc ::
  "boot_memory \<Rightarrow> link_map \<Rightarrow> bool \<Rightarrow> bool \<Rightarrow> (addr \<Rightarrow> u32 list) \<Rightarrow> multiboot_state \<Rightarrow>
   (bitmap \<times> u32 \<times> addr) option" where
  "init_frame_alloc mem lm paging higher_half words st = do {
     ASSERT (\<not> paging);
     ASSERT higher_half;
     bitmap_size \<leftarrow> compute_bitmap_size mem st;
     num_frames \<leftarrow> ceil_x_over_y_u32 bitmap_size (8 * 0x1000);
     start_frame_phy \<leftarrow> find_contiguous_physical_frames mem st num_frames;
     ASSERT (is_4kib_aligned start_frame_phy);
     let start_frame = to_virt start_frame_phy;
     bm \<leftarrow> bitmap_init bitmap_size (words start_frame) True;
     bm \<leftarrow> unmark_avail_frames mem st bm;
     bm \<leftarrow> mark_kernel_frames lm bm;
     bm \<leftarrow> mark_bitmap_frames start_frame_phy num_frames bm;
     bm \<leftarrow> mark_multiboot_info_struct st bm;
     bm \<leftarrow> mark_initrd_frames st bm;
     ASSERT (start_frame < KERNEL_START_ADDR lm);
     Some (bm, num_frames, start_frame_phy) }"

subsection \<open>The loops, as functions of the list of entries\<close>

fun entries_loop ::
  "('e \<Rightarrow> 's \<Rightarrow> ('r + 's) option) \<Rightarrow> 'e list \<Rightarrow> 's \<Rightarrow> ('r + 's) option" where
  "entries_loop body [] s = Some (Inr s)"
| "entries_loop body (e # es) s =
     (case body e s of
        None \<Rightarrow> None
      | Some (Inl r) \<Rightarrow> Some (Inl r)
      | Some (Inr s') \<Rightarrow> entries_loop body es s')"

definition mmap_entries :: "boot_memory \<Rightarrow> addr \<Rightarrow> nat \<Rightarrow> multiboot_mmap_entry list" where
  "mmap_entries mem first n = map (\<lambda>k. mmap_at mem (first + of_nat k * sizeof_mmap_entry)) [0..<n]"

lemma mmap_entries_Suc:
  "mmap_entries mem first (Suc n) = mmap_at mem first # mmap_entries mem (first + sizeof_mmap_entry) n"
  unfolding mmap_entries_def map_upt_Suc by (simp add: algebra_simps)

lemma mmap_loop_entries:
  assumes "unat first + 24 * n < 2 ^ 32"
  shows "mmap_loop mem (first + of_nat n * sizeof_mmap_entry) body first s =
    entries_loop body (mmap_entries mem first n) s"
  using assms
proof (induction n arbitrary: first s)
  case 0
  then show ?case by (simp add: mmap_loop.simps mmap_entries_def)
next
  case (Suc n)
  have u24: "unat (of_nat (Suc n) * sizeof_mmap_entry :: addr) = 24 * Suc n"
  proof -
    have "of_nat (Suc n) * sizeof_mmap_entry = (of_nat (24 * Suc n) :: addr)"
      by (simp add: sizeof_mmap_entry_def)
    moreover have "unat (of_nat (24 * Suc n) :: addr) = 24 * Suc n"
      using Suc.prems by (intro unat_of_nat_bounded) simp
    ultimately show ?thesis by (simp only:)
  qed
  have lt: "first < first + of_nat (Suc n) * sizeof_mmap_entry"
    using Suc.prems u24 by (simp add: word_bounds unat_add_no_overflow)
  have nx: "unat (first + sizeof_mmap_entry) = unat first + 24"
    using Suc.prems by (simp add: unat_add_no_overflow sizeof_mmap_entry_def)
  have stop: "first + of_nat (Suc n) * sizeof_mmap_entry =
      (first + sizeof_mmap_entry) + of_nat n * sizeof_mmap_entry"
    by (simp add: algebra_simps)
  have ih: "mmap_loop mem (first + of_nat (Suc n) * sizeof_mmap_entry) body (first + sizeof_mmap_entry) s' =
      entries_loop body (mmap_entries mem (first + sizeof_mmap_entry) n) s'" for s'
    unfolding stop using Suc.IH [of "first + sizeof_mmap_entry"] Suc.prems nx by simp
  show ?case
    unfolding mmap_loop.simps [of mem _ body first] mmap_entries_Suc ih using lt by simp
qed

text \<open>
  The state after \<open>init_multiboot\<close>, on a machine whose memory map has \<open>n\<close> entries and does not
  reach the end of the address space.
\<close>

definition mmap_ok :: "boot_memory \<Rightarrow> multiboot_state \<Rightarrow> bool" where
  "mmap_ok mem st \<longleftrightarrow>
     (let mi = info_at mem (to_phys (MULTIBOOT_INFO st))
      in mmap_addr mi \<noteq> 0 \<and> unat (mmap_length mi) mod 24 = 0 \<and>
         unat (mmap_addr mi) + unat (mmap_length mi) < 2 ^ 32)"

definition memory_map :: "boot_memory \<Rightarrow> multiboot_state \<Rightarrow> multiboot_mmap_entry list" where
  "memory_map mem st =
     (let mi = info_at mem (to_phys (MULTIBOOT_INFO st))
      in mmap_entries mem (mmap_addr mi) (unat (mmap_length mi) div 24))"

lemma for_each_mmap_entry_list:
  assumes "mmap_ok mem st"
  shows "for_each_mmap_entry mem st body s = entries_loop body (memory_map mem st) s"
proof -
  define mi where "mi = info_at mem (to_phys (MULTIBOOT_INFO st))"
  define n where "n = unat (mmap_length mi) div 24"
  from assms have a: "mmap_addr mi \<noteq> 0" and m: "unat (mmap_length mi) mod 24 = 0"
    and b: "unat (mmap_addr mi) + unat (mmap_length mi) < 2 ^ 32"
    by (simp_all add: mmap_ok_def mi_def Let_def)
  have len: "24 * n = unat (mmap_length mi)" using m by (auto simp: n_def)
  have "mmap_length mi mod sizeof_mmap_entry = 0"
    using m by (simp add: word_unat_eq_iff unat_mod_distrib sizeof_mmap_entry_def)
  moreover have "mmap_length mi div sizeof_mmap_entry = of_nat n"
    using len unat_u32_bound [of "mmap_length mi"]
    by (simp add: word_unat_eq_iff unat_div_distrib sizeof_mmap_entry_def unat_of_nat_bounded n_def)
  ultimately show ?thesis
    using a b len mmap_loop_entries [of "mmap_addr mi" n mem body s]
    by (simp add: for_each_mmap_entry_def get_mmap_entry_ptr_def multiboot_mmap_entries_count_def
        memory_map_def Let_def mi_def [symmetric] n_def [symmetric])
qed

lemma mark_frames_correct:
  assumes "wf_bitmap bm" and "stop < bm_size bm"
    and "\<forall>j \<in> {unat i..unat stop}. (j \<in> set_bits_of bm) \<noteq> mark"
  shows "\<exists>bm'. mark_frames mark i stop bm = Some bm' \<and> wf_bitmap bm' \<and> bm_size bm' = bm_size bm \<and>
    set_bits_of bm' = (if mark then set_bits_of bm \<union> {unat i..unat stop}
                       else set_bits_of bm - {unat i..unat stop})"
  using assms
proof (induction "Suc (unat stop) - unat i" arbitrary: i bm)
  case 0
  then have "\<not> i \<le> stop" and "{unat i..unat stop} = {}" by (auto simp: word_bounds)
  with 0 show ?case by (simp add: mark_frames.simps)
next
  case (Suc d)
  then have le: "unat i \<le> unat stop" and lt: "unat i < unat (bm_size bm)" by (auto simp: word_bounds)
  then have ilt: "i < bm_size bm" and ile: "i \<le> stop" by (simp_all add: word_bounds)
  have i1: "unat (i + 1) = Suc (unat i)"
    using lt unat_u32_bound [of "bm_size bm"] by (simp add: unat_add_no_overflow)
  have get: "bitmap_get_bit bm i = Some (\<not> mark)"
    using bitmap_get_bit_correct [OF Suc.prems(1) ilt] Suc.prems(3) le by auto
  obtain b where b: "(if mark then bitmap_set bm i else bitmap_unset bm i) = Some b" "wf_bitmap b"
    "bm_size b = bm_size bm"
    "set_bits_of b = (if mark then insert (unat i) (set_bits_of bm) else set_bits_of bm - {unat i})"
    using bitmap_set_correct [OF Suc.prems(1) ilt] bitmap_unset_correct [OF Suc.prems(1) ilt] by metis
  have rest: "\<forall>j \<in> {unat (i + 1)..unat stop}. (j \<in> set_bits_of b) \<noteq> mark"
    using Suc.prems(3) b(4) i1 by auto
  have split: "{unat i..unat stop} = insert (unat i) {unat (i + 1)..unat stop}"
    using le i1 by auto
  have d: "d = Suc (unat stop) - unat (i + 1)" using Suc.hyps(2) i1 by simp
  obtain bm' where "mark_frames mark (i + 1) stop b = Some bm'" "wf_bitmap bm'"
    "bm_size bm' = bm_size b"
    "set_bits_of bm' = (if mark then set_bits_of b \<union> {unat (i + 1)..unat stop}
                        else set_bits_of b - {unat (i + 1)..unat stop})"
    using Suc.hyps(1) [OF d b(2) _ rest] b(3) Suc.prems(2) by auto
  then show ?case
    using b get ile unfolding split
    by (subst mark_frames.simps) (auto split: if_splits)
qed

subsection \<open>The frames the allocator starts with\<close>

definition usable :: "multiboot_mmap_entry \<Rightarrow> bool" where
  "usable e \<longleftrightarrow> mmap_entry_is_available e \<and> mmap_entry_within_4GiB e"

definition entry_end :: "multiboot_mmap_entry \<Rightarrow> nat" where
  "entry_end e = unat (me_base_addr e) + unat (me_length e) - 1"

text \<open>
  An entry without surprises: it is not empty, lies below 4GiB, and its last byte is not the
  first byte of a page (otherwise the bitmap has no bit for that page).
\<close>

definition plain_entry :: "multiboot_mmap_entry \<Rightarrow> bool" where
  "plain_entry e \<longleftrightarrow> 0 < unat (me_length e) \<and> unat (me_base_addr e) + unat (me_length e) \<le> 2 ^ 32 \<and>
     entry_end e mod 4096 \<noteq> 0"

definition entry_frames :: "multiboot_mmap_entry \<Rightarrow> nat set" where
  "entry_frames e = {unat (me_base_addr e) div 4096 .. entry_end e div 4096}"

fun available_frames :: "multiboot_mmap_entry list \<Rightarrow> nat set" where
  "available_frames [] = {}"
| "available_frames (e # es) = (if usable e then entry_frames e else {}) \<union> available_frames es"

fun separate_entries :: "multiboot_mmap_entry list \<Rightarrow> bool" where
  "separate_entries [] \<longleftrightarrow> True"
| "separate_entries (e # es) \<longleftrightarrow>
     (usable e \<longrightarrow> plain_entry e \<and> entry_frames e \<inter> available_frames es = {}) \<and> separate_entries es"

lemma unat_ucast_u32:
  assumes "unat (w :: u64) < 2 ^ 32"
  shows "unat (ucast w :: u32) = unat w"
  using assms by (simp add: unsigned_ucast_eq take_bit_nat_eq_self)

lemma entry_max_offset:
  assumes "usable e" and "plain_entry e"
  shows "get_max_offset_for_entry e = Some (me_base_addr e + me_length e - 1)"
    and "unat (me_base_addr e + me_length e - 1) = entry_end e"
proof -
  show "get_max_offset_for_entry e = Some (me_base_addr e + me_length e - 1)"
    using assms(1) by (simp add: get_max_offset_for_entry_def usable_def)
  have "unat (me_base_addr e + me_length e) = unat (me_base_addr e) + unat (me_length e)"
    using assms(2) by (intro unat_add_no_overflow) (simp add: plain_entry_def)
  then show "unat (me_base_addr e + me_length e - 1) = entry_end e"
    using assms(2) by (subst unat_sub_no_underflow) (simp_all add: plain_entry_def entry_end_def)
qed

lemma entry_end_bound: "plain_entry e \<Longrightarrow> entry_end e < 2 ^ 32"
  unfolding plain_entry_def entry_end_def by linarith

lemma max_addr_loop:
  assumes "separate_entries es" and "unat m < 2 ^ 32"
  shows "\<exists>m'. entries_loop max_addr_step es m = Some (Inr m') \<and> unat m \<le> unat m' \<and>
    unat m' < 2 ^ 32 \<and> (\<forall>e \<in> set es. usable e \<longrightarrow> entry_end e \<le> unat m')"
  using assms
proof (induction es arbitrary: m)
  case (Cons e es)
  show ?case
  proof (cases "usable e")
    case True
    then have p: "plain_entry e" using Cons.prems by simp
    define x where "x = me_base_addr e + me_length e - 1"
    have x: "unat x = entry_end e" "get_max_offset_for_entry e = Some x"
      using entry_max_offset [OF True p] by (simp_all add: x_def)
    define m1 where "m1 = (if m < x then x else m)"
    have m1: "unat m1 < 2 ^ 32" "unat m \<le> unat m1" "entry_end e \<le> unat m1"
      using x(1) entry_end_bound [OF p] Cons.prems(2) by (auto simp: m1_def word_less_nat_alt)
    have "max_addr_step e m = Some (Inr m1)"
      using True x(2) by (simp add: max_addr_step_def usable_def m1_def)
    then show ?thesis using Cons.IH [of m1] Cons.prems(1) m1 by fastforce
  next
    case False
    then have "max_addr_step e m = Some (Inr m)" by (auto simp: max_addr_step_def usable_def)
    then show ?thesis using Cons.IH [of m] Cons.prems False by auto
  qed
qed simp

lemma frame_below_ceil:
  assumes "x \<le> m" and "x mod 4096 \<noteq> 0"
  shows "x div 4096 < ceil_div m 4096"
proof -
  have "x div 4096 * 4096 < m" using assms div_mult_mod_eq [of x 4096] by linarith
  moreover have "m \<le> ceil_div m 4096 * 4096" by (rule ceil_div_mult_ge) simp
  ultimately have "x div 4096 * 4096 < ceil_div m 4096 * 4096" by linarith
  then show ?thesis by (simp only: mult_less_cancel2)
qed

lemma bitmap_size_covers:
  assumes "mmap_ok mem st" and "separate_entries (memory_map mem st)"
  obtains sz where "compute_bitmap_size mem st = Some sz" and "unat sz \<le> 2 ^ 20"
    and "available_frames (memory_map mem st) \<subseteq> {..< unat sz}"
proof -
  let ?es = "memory_map mem st"
  obtain m where m: "entries_loop max_addr_step ?es 0 = Some (Inr m)" "unat m < 2 ^ 32"
    "\<forall>e \<in> set ?es. usable e \<longrightarrow> entry_end e \<le> unat m"
    using max_addr_loop [OF assms(2), of 0] by auto
  have "\<not> 0xFFFFFFFF < m" using m(2) by (simp add: word_less_nat_alt)
  then have ga: "get_max_addr mem st = Some (ucast m)"
    using m(1) by (simp add: get_max_addr_def for_each_mmap_entry_list [OF assms(1)])
  have nz: "(0x1000 :: u32) \<noteq> 0" by simp
  obtain sz where sz: "ceil_x_over_y_u32 (ucast m) 0x1000 = Some sz"
    "unat sz = ceil_div (unat m) 4096"
    using ceil_x_over_y_u32_value [OF nz, of "ucast m"] unat_ucast_u32 [OF m(2)] by auto
  have cover: "entry_end e div 4096 < unat sz" if "e \<in> set ?es" "usable e" "plain_entry e" for e
  proof -
    have "entry_end e \<le> unat m" "entry_end e mod 4096 \<noteq> 0"
      using m(3) that by (auto simp: plain_entry_def)
    then show ?thesis unfolding sz(2) by (rule frame_below_ceil)
  qed
  have "available_frames es \<subseteq> {..< unat sz}" if "separate_entries es" "set es \<subseteq> set ?es" for es
    using that by (induction es) (auto simp: entry_frames_def dest!: cover)
  then have "available_frames ?es \<subseteq> {..< unat sz}" using assms(2) by blast
  moreover have "unat sz \<le> 2 ^ 20"
    unfolding sz(2) using ceil_div_least [of 4096 "unat m" "2 ^ 20"] m(2) by simp
  ultimately show thesis using that sz(1) ga by (simp add: compute_bitmap_size_def)
qed

definition range_frames :: "addr \<Rightarrow> addr \<Rightarrow> nat set" where
  "range_frames a b = {frame_number a .. frame_number b}"

lemma mark_range_correct:
  assumes "wf_bitmap bm" and "range_frames a b \<subseteq> {..< unat (bm_size bm)}"
    and "range_frames a b \<inter> set_bits_of bm = {}"
  shows "\<exists>bm'. mark_memory_range a b bm = Some bm' \<and> wf_bitmap bm' \<and> bm_size bm' = bm_size bm \<and>
    set_bits_of bm' = set_bits_of bm \<union> range_frames a b"
proof (cases "frame_number a \<le> frame_number b")
  case True
  then have "frame_number b < unat (bm_size bm)" using assms(2) by (auto simp: range_frames_def)
  then have "frame_index b < bm_size bm" by (simp add: word_bounds frame_index_number)
  with mark_frames_correct [OF assms(1) this, of "frame_index a" True] assms(3) show ?thesis
    by (auto simp: mark_memory_range_def frame_index_number range_frames_def)
next
  case False
  then have "\<not> frame_index a \<le> frame_index b" by (simp add: word_bounds frame_index_number)
  with False assms(1) show ?thesis
    by (simp add: mark_memory_range_def mark_frames.simps range_frames_def)
qed

lemma unmark_entry:
  assumes "wf_bitmap bm" and "usable e" and "plain_entry e"
    and sub: "entry_frames e \<subseteq> {..< unat (bm_size bm)}" and "entry_frames e \<subseteq> set_bits_of bm"
  shows "\<exists>bm'. unmark_step e bm = Some (Inr bm') \<and> wf_bitmap bm' \<and> bm_size bm' = bm_size bm \<and>
    set_bits_of bm' = set_bits_of bm - entry_frames e"
proof -
  let ?a = "ucast (me_base_addr e) :: addr" and ?b = "ucast (me_base_addr e + me_length e - 1) :: addr"
  have "unat (me_base_addr e) < 2 ^ 32" and le: "unat (me_base_addr e) \<le> entry_end e"
    using assms(3) unfolding plain_entry_def entry_end_def by linarith+
  then have a: "frame_number ?a = unat (me_base_addr e) div 4096"
    by (simp add: frame_number_def unat_ucast_u32)
  have b: "frame_number ?b = entry_end e div 4096"
    using entry_max_offset(2) [OF assms(2,3)] entry_end_bound [OF assms(3)]
    by (simp add: frame_number_def unat_ucast_u32)
  have mem: "entry_end e div 4096 \<in> entry_frames e"
    using div_le_mono [OF le, of 4096] by (simp add: entry_frames_def)
  then have "entry_end e div 4096 < unat (bm_size bm)" using sub by blast
  then have lt: "frame_index ?b < bm_size bm"
    by (simp only: word_less_nat_alt frame_index_number b)
  have fr: "{unat (frame_index ?a)..unat (frame_index ?b)} = entry_frames e"
    by (simp only: frame_index_number a b entry_frames_def)
  have "\<forall>j \<in> entry_frames e. (j \<in> set_bits_of bm) \<noteq> False" using assms(5) by blast
  then obtain bm' where "mark_frames False (frame_index ?a) (frame_index ?b) bm = Some bm'"
    "wf_bitmap bm'" "bm_size bm' = bm_size bm" "set_bits_of bm' = set_bits_of bm - entry_frames e"
    using mark_frames_correct [OF assms(1) lt, of "frame_index ?a" False] unfolding fr by auto
  then show ?thesis
    using assms(2) entry_max_offset(1) [OF assms(2,3)]
    by (simp add: unmark_step_def usable_def get_max_addr_for_entry_def unmark_memory_range_def)
qed

lemma unmark_loop:
  assumes "wf_bitmap bm" and "separate_entries es" and "available_frames es \<subseteq> {..< unat (bm_size bm)}"
    and "available_frames es \<subseteq> set_bits_of bm"
  shows "\<exists>bm'. entries_loop unmark_step es bm = Some (Inr bm') \<and> wf_bitmap bm' \<and>
    bm_size bm' = bm_size bm \<and> set_bits_of bm' = set_bits_of bm - available_frames es"
  using assms
proof (induction es arbitrary: bm)
  case (Cons e es)
  show ?case
  proof (cases "usable e")
    case True
    then have p: "plain_entry e" "entry_frames e \<inter> available_frames es = {}" "separate_entries es"
      using Cons.prems(2) by simp_all
    have sub: "entry_frames e \<subseteq> {..< unat (bm_size bm)}" "entry_frames e \<subseteq> set_bits_of bm"
      using Cons.prems(3,4) True by auto
    obtain b where b: "unmark_step e bm = Some (Inr b)" "wf_bitmap b" "bm_size b = bm_size bm"
      "set_bits_of b = set_bits_of bm - entry_frames e"
      using unmark_entry [OF Cons.prems(1) True p(1) sub] by blast
    have "available_frames es \<subseteq> set_bits_of b" "available_frames es \<subseteq> {..< unat (bm_size b)}"
      using Cons.prems(3,4) True b(3,4) p(2) by auto
    then obtain bm' where "entries_loop unmark_step es b = Some (Inr bm')" "wf_bitmap bm'"
      "bm_size bm' = bm_size b" "set_bits_of bm' = set_bits_of b - available_frames es"
      using Cons.IH [OF b(2) p(3)] by blast
    then show ?thesis using b True by auto
  next
    case False
    then have "unmark_step e bm = Some (Inr bm)" by (auto simp: unmark_step_def usable_def)
    then show ?thesis using Cons False by simp
  qed
qed simp

text \<open>The memory that is in use when the allocator starts, in the order it is marked.\<close>

definition initrd_frames :: "multiboot_state \<Rightarrow> nat set" where
  "initrd_frames st = (if INIT_RD_SIZE st = 0 then {}
     else range_frames (INIT_RD_START st) (INIT_RD_START st + INIT_RD_SIZE st - 1))"

definition boot_frames :: "link_map \<Rightarrow> multiboot_state \<Rightarrow> addr \<Rightarrow> u32 \<Rightarrow> nat set list" where
  "boot_frames lm st start n =
     [range_frames (to_phys (KERNEL_START_ADDR lm)) (to_phys (KERNEL_END_ADDR lm)),
      range_frames start (start + n * 0x1000 - 1),
      range_frames (to_phys (MULTIBOOT_INFO st)) (to_phys (MULTIBOOT_INFO st) + sizeof_multiboot_info - 1),
      initrd_frames st]"

fun separate_in :: "nat set \<Rightarrow> nat set list \<Rightarrow> bool" where
  "separate_in A [] \<longleftrightarrow> True"
| "separate_in A (R # Rs) \<longleftrightarrow> R \<subseteq> A \<and> separate_in (A - R) Rs"

text \<open>A step that takes the frames \<open>R\<close>, all of which are available, and no others.\<close>

definition marks :: "(bitmap \<Rightarrow> bitmap option) \<Rightarrow> nat set \<Rightarrow> bool" where
  "marks f R \<longleftrightarrow> (\<forall>bm. wf_bitmap bm \<and> R \<subseteq> free_bits_of bm \<longrightarrow>
     (\<exists>bm'. f bm = Some bm' \<and> wf_bitmap bm' \<and> bm_size bm' = bm_size bm \<and>
       set_bits_of bm' = set_bits_of bm \<union> R))"

lemma free_bits_complement: "free_bits_of bm = {..< unat (bm_size bm)} - set_bits_of bm"
  by (auto simp: free_bits_of_def set_bits_of_def)

lemma marks_range: "marks (mark_memory_range a b) (range_frames a b)"
  unfolding marks_def free_bits_complement using mark_range_correct [of _ a b] by blast

lemma marks_initrd: "marks (mark_initrd_frames st) (initrd_frames st)"
proof (cases "INIT_RD_SIZE st = 0")
  case True
  then show ?thesis
    by (simp add: marks_def mark_initrd_frames_def multiboot_get_initrd_size_def initrd_frames_def)
next
  case False
  then have "mark_initrd_frames st =
      mark_memory_range (INIT_RD_START st) (INIT_RD_START st + INIT_RD_SIZE st - 1)"
    by (auto simp: mark_initrd_frames_def multiboot_get_initrd_size_def
        multiboot_get_initrd_start_def Let_def)
  with False show ?thesis by (simp add: initrd_frames_def marks_range)
qed

lemma marks_bind:
  assumes f: "marks f R" and g: "marks g S" and disj: "R \<inter> S = {}"
  shows "marks (\<lambda>bm. Option.bind (f bm) g) (R \<union> S)"
  unfolding marks_def
proof (intro allI impI)
  fix bm assume bm: "wf_bitmap bm \<and> R \<union> S \<subseteq> free_bits_of bm"
  then obtain b where b: "f bm = Some b" "wf_bitmap b" "bm_size b = bm_size bm"
    "set_bits_of b = set_bits_of bm \<union> R"
    using f unfolding marks_def by blast
  then have "S \<subseteq> free_bits_of b" using bm disj unfolding free_bits_complement by auto
  then obtain b' where "g b = Some b'" "wf_bitmap b'" "bm_size b' = bm_size b"
    "set_bits_of b' = set_bits_of b \<union> S"
    using g b(2) unfolding marks_def by blast
  with b show "\<exists>bm'. Option.bind (f bm) g = Some bm' \<and> wf_bitmap bm' \<and> bm_size bm' = bm_size bm \<and>
      set_bits_of bm' = set_bits_of bm \<union> (R \<union> S)" by auto
qed

lemma marks_boot:
  assumes sep: "separate_in A (boot_frames lm st start n)"
  shows "marks (\<lambda>bm. Option.bind (mark_kernel_frames lm bm) (\<lambda>bm.
      Option.bind (mark_bitmap_frames start n bm) (\<lambda>bm.
      Option.bind (mark_multiboot_info_struct st bm) (mark_initrd_frames st))))
    (\<Union> (set (boot_frames lm st start n)))"
    and "\<Union> (set (boot_frames lm st start n)) \<subseteq> A"
proof -
  obtain K B M I where bf: "boot_frames lm st start n = [K, B, M, I]"
    and K: "K = range_frames (to_phys (KERNEL_START_ADDR lm)) (to_phys (KERNEL_END_ADDR lm))"
    and B: "B = range_frames start (start + n * 0x1000 - 1)"
    and M: "M = range_frames (to_phys (MULTIBOOT_INFO st)) (to_phys (MULTIBOOT_INFO st) + sizeof_multiboot_info - 1)"
    and I: "I = initrd_frames st"
    by (simp add: boot_frames_def)
  have s: "K \<subseteq> A" "B \<subseteq> A - K" "M \<subseteq> A - K - B" "I \<subseteq> A - K - B - M"
    using sep by (simp_all add: bf)
  have m: "marks (mark_kernel_frames lm) K" "marks (mark_bitmap_frames start n) B"
    "marks (mark_multiboot_info_struct st) M" "marks (mark_initrd_frames st) I"
    unfolding K B M I mark_kernel_frames_def mark_bitmap_frames_def mark_multiboot_info_struct_def
      get_multiboot_info_struct_def Let_def
    by (rule marks_range marks_initrd)+
  have "marks (\<lambda>bm. Option.bind (mark_kernel_frames lm bm) (\<lambda>bm.
      Option.bind (mark_bitmap_frames start n bm) (\<lambda>bm.
      Option.bind (mark_multiboot_info_struct st bm) (mark_initrd_frames st))))
    (K \<union> (B \<union> (M \<union> I)))"
    using s by (intro marks_bind m) blast+
  moreover have "\<Union> (set (boot_frames lm st start n)) = K \<union> (B \<union> (M \<union> I))" by (simp add: bf)
  ultimately show "marks (\<lambda>bm. Option.bind (mark_kernel_frames lm bm) (\<lambda>bm.
      Option.bind (mark_bitmap_frames start n bm) (\<lambda>bm.
      Option.bind (mark_multiboot_info_struct st bm) (mark_initrd_frames st))))
    (\<Union> (set (boot_frames lm st start n)))" by (simp only:)
  show "\<Union> (set (boot_frames lm st start n)) \<subseteq> A" using s by (auto simp: bf)
qed

text \<open>Whatever the search finds is page aligned, wrapped around or not.\<close>

lemma round_up_aligned:
  assumes "round_up_u32 x 0x1000 = Some r"
  shows "is_4kib_aligned r"
proof -
  have dvd: "4096 dvd unat (q * 0x1000 :: u32)" for q
  proof -
    have "unat (q * 0x1000) = unat q * 4096 mod 2 ^ 32" by (simp add: unat_word_ariths)
    moreover have "(4096 :: nat) dvd 2 ^ 32" by (simp add: dvd_def)
    ultimately show ?thesis by (metis dvd_mod dvd_triv_right)
  qed
  from assms have "r = (x div 0x1000 + (if x mod 0x1000 \<noteq> 0 then 1 else 0)) * 0x1000"
    unfolding round_up_u32_def by (auto split: if_splits)
  then show ?thesis by (simp only: is_4kib_aligned_unat dvd)
qed

lemma find_in_free_entry_aligned:
  assumes "find_in_free_entry e n = Some (Some a)"
  shows "is_4kib_aligned a"
proof -
  from assms obtain r where r: "round_up_u32 (ucast (me_base_addr e)) 0x1000 = Some r"
    "a = ucast (ucast r :: u64)"
    by (auto simp: find_in_free_entry_def bind_eq_Some_conv Let_def split: if_splits)
  have "ucast (ucast r :: u64) = r"
    by (rule bit_word_eqI) (simp add: bit_simps)
  with r round_up_aligned show ?thesis by simp
qed

lemma find_in_entry_aligned:
  assumes "find_in_entry rm e n = Some (Some a)"
  shows "is_4kib_aligned a"
  using assms
proof (induction rm e n rule: find_in_entry.induct)
  case (1 rm e n)
  note IH = "1.IH" and run = "1.prems" [unfolded find_in_entry.simps [of rm e n]]
  show ?case
  proof (cases "contain_reserved_memory rm e")
    case None
    with run show ?thesis by (auto split: if_splits)
  next
    case (Some c)
    show ?thesis
    proof (cases c)
      case None
      with Some run show ?thesis by (auto split: if_splits intro: find_in_free_entry_aligned)
    next
      case (Some i)
      with \<open>contain_reserved_memory rm e = Some c\<close> run IH show ?thesis
        by (auto simp: Let_def split: if_splits option.splits)
    qed
  qed
qed

lemma find_contiguous_aligned:
  assumes "mmap_ok mem st" and "find_contiguous_physical_frames mem st n = Some a"
  shows "is_4kib_aligned a"
proof -
  have "is_4kib_aligned a" if "entries_loop (find_frames_step rm n) es () = Some (Inl a)" for rm es
    using that
    by (induction es)
      (auto simp: find_frames_step_def bind_eq_Some_conv
        split: option.splits sum.splits if_splits dest: find_in_entry_aligned)
  moreover from assms have "entries_loop (find_frames_step (RESERVED_MEM st) n) (memory_map mem st) () =
      Some (Inl a)"
    by (cases "entries_loop (find_frames_step (RESERVED_MEM st) n) (memory_map mem st) ()")
      (auto simp: find_contiguous_physical_frames_def for_each_mmap_entry_list split: sum.splits)
  ultimately show ?thesis by blast
qed

subsection \<open>Where the search for room is right\<close>

definition page_up :: "nat \<Rightarrow> nat" where
  "page_up b = ceil_div b 4096 * 4096"

text \<open>The stretches of an entry that the search looks at: all of it, or what is around one reserved range.\<close>

definition holes :: "reserved_mem \<Rightarrow> multiboot_mmap_entry \<Rightarrow> multiboot_mmap_entry list" where
  "holes rm e =
     (case contain_reserved_memory rm e of
        Some (Some i) \<Rightarrow>
          (let rstart = ucast (fst (rm ! i)); rend = ucast (snd (rm ! i)); eend = me_base_addr e + me_length e - 1
           in (if me_base_addr e \<le> rstart
               then [\<lparr>me_base_addr = me_base_addr e, me_length = rstart - me_base_addr e, me_type = 1\<rparr>] else []) @
              (if rend \<le> eend
               then [\<lparr>me_base_addr = rend + 1, me_length = eend - rend, me_type = 1\<rparr>] else []))
      | _ \<Rightarrow> [e])"

definition reaches_page :: "multiboot_mmap_entry \<Rightarrow> bool" where
  "reaches_page e \<longleftrightarrow> page_up (unat (me_base_addr e)) \<le> unat (me_base_addr e) + unat (me_length e)"

lemma find_in_free_entry_fits:
  assumes run: "find_in_free_entry e n = Some (Some a)" and page: "reaches_page e"
    and low: "unat (me_base_addr e) + unat (me_length e) < 2 ^ 32" and n: "unat n * 4096 < 2 ^ 32"
  shows "unat (me_base_addr e) \<le> unat a" and "unat a + unat n * 4096 \<le> unat (me_base_addr e) + unat (me_length e)"
proof -
  let ?b = "unat (me_base_addr e)"
  have b: "unat (ucast (me_base_addr e) :: u32) = ?b" using low by (intro unat_ucast_u32) simp
  have up: "page_up ?b < 2 ^ 32" using page low by (simp add: reaches_page_def)
  have nz: "(0x1000 :: u32) \<noteq> 0" by simp
  have lt: "ceil_div (unat (ucast (me_base_addr e) :: u32)) (unat (0x1000 :: u32)) * unat (0x1000 :: u32) < 2 ^ 32"
    using up unfolding b by (simp add: page_up_def)
  obtain r where r: "round_up_u32 (ucast (me_base_addr e)) 0x1000 = Some r" "unat r = page_up ?b"
    using round_up_u32_value [OF nz lt] unfolding b page_up_def by auto
  have r64: "unat (ucast r :: u64) = page_up ?b"
    using r(2) up by (simp add: unsigned_ucast_eq take_bit_nat_eq_self)
  have ge: "?b \<le> page_up ?b" unfolding page_up_def by (rule ceil_div_mult_ge) simp
  have d: "unat (ucast r - me_base_addr e) = page_up ?b - ?b"
    using r64 ge by (subst unat_sub_no_underflow) simp_all
  then have len: "unat (me_length e - (ucast r - me_base_addr e)) = unat (me_length e) - (page_up ?b - ?b)"
    using page by (subst unat_sub_no_underflow) (simp_all add: reaches_page_def)
  have n64: "unat (ucast (n * 0x1000) :: u64) = unat n * 4096"
    using n by (simp add: unsigned_ucast_eq take_bit_nat_eq_self unat_mult_no_overflow)
  have fits: "unat n * 4096 \<le> unat (me_length e) - (page_up ?b - ?b)" and a: "a = ucast (ucast r :: u64)"
    using run r(1) len n64
    by (auto simp: find_in_free_entry_def Let_def word_less_nat_alt split: if_splits)
  have "unat a = page_up ?b" using r64 up unfolding a by (simp add: unat_ucast_u32)
  with ge fits page show "?b \<le> unat a" "unat a + unat n * 4096 \<le> ?b + unat (me_length e)"
    by (simp_all add: reaches_page_def)
qed

lemma find_conflict_bounds:
  "find_conflict s e rs i = Some k \<Longrightarrow> i \<le> k \<and> k < i + length rs"
proof (induction rs arbitrary: i)
  case (Cons r rs)
  then show ?case by (cases r) (fastforce simp: Let_def split: if_splits)
qed simp

lemma find_conflict_none:
  assumes "find_conflict s e rs i = None" and "(lo, hi) \<in> set rs"
  shows "unat e < unat lo \<or> unat hi < unat s"
  using assms
proof (induction rs arbitrary: i)
  case (Cons r rs)
  have u: "unat (ucast x :: u64) = unat x" for x :: u32
    using unat_u32_bound [of x] by (simp add: unsigned_ucast_eq take_bit_nat_eq_self)
  show ?case
  proof (cases "r = (lo, hi)")
    case True
    with Cons.prems show ?thesis by (auto simp: Let_def word_less_nat_alt u split: if_splits)
  next
    case False
    with Cons show ?thesis by (cases r) (auto simp: Let_def split: if_splits)
  qed
qed simp

text \<open>A stretch without reserved memory keeps clear of every reserved range.\<close>

lemma free_entry_clear:
  assumes c: "contain_reserved_memory rm e = Some None" and "me_type e = 1"
    and low: "unat (me_base_addr e) + unat (me_length e) < 2 ^ 32" and r: "(lo, hi) \<in> set rm"
    and a: "unat (me_base_addr e) \<le> a" "a + m \<le> unat (me_base_addr e) + unat (me_length e)"
  shows "{a..<a + m} \<inter> {unat lo..unat hi} = {}"
proof (cases "me_length e = 0")
  case True
  with a have "m = 0" by simp
  then show ?thesis by simp
next
  case False
  then have l: "0 < unat (me_length e)" by (simp add: unat_gt_0)
  have "unat (me_base_addr e + me_length e) = unat (me_base_addr e) + unat (me_length e)"
    using low by (intro unat_add_no_overflow) simp
  then have e: "unat (me_base_addr e + me_length e - 1) = unat (me_base_addr e) + unat (me_length e) - 1"
    using l by (subst unat_sub_no_underflow) simp_all
  have "find_conflict (me_base_addr e) (me_base_addr e + me_length e - 1) rm 0 = None"
    using c False assms(2)
    by (simp add: contain_reserved_memory_def get_max_offset_for_entry_def mmap_entry_is_available_def)
  from find_conflict_none [OF this r] e l a show ?thesis by auto
qed

lemma find_in_entry_clean:
  assumes "contain_reserved_memory rm e = Some None"
  shows "find_in_entry rm e n =
    (if mmap_entry_within_4GiB e then find_in_free_entry e n else Some None)"
  using assms by (simp add: find_in_entry.simps [of rm e n])

text \<open>Where the result of the search comes from: one of the holes, free of reserved memory.\<close>

lemma find_in_entry_hole:
  assumes run: "find_in_entry rm e n = Some (Some a)" and av: "me_type e = 1"
  shows "\<exists>h \<in> set (holes rm e). contain_reserved_memory rm h = Some None \<and> me_type h = 1 \<and>
    find_in_free_entry h n = Some (Some a)"
proof -
  have w: "mmap_entry_within_4GiB e" using run by (auto simp: find_in_entry.simps [of rm e n] split: if_splits)
  have end_: "get_max_offset_for_entry e = Some (me_base_addr e + me_length e - 1)"
    using av by (simp add: get_max_offset_for_entry_def mmap_entry_is_available_def)
  show ?thesis
  proof (cases "contain_reserved_memory rm e")
    case None
    with run w show ?thesis by (simp add: find_in_entry.simps [of rm e n])
  next
    case (Some c)
    show ?thesis
    proof (cases c)
      case None
      with Some run w av show ?thesis by (simp add: find_in_entry_clean holes_def)
    next
      case c: (Some i)
      define rstart rend :: u64 where "rstart = ucast (fst (rm ! i))" and "rend = ucast (snd (rm ! i))"
      define before where "before = \<lparr>me_base_addr = me_base_addr e, me_length = rstart - me_base_addr e, me_type = 1\<rparr>"
      define after where "after = \<lparr>me_base_addr = rend + 1,
        me_length = me_base_addr e + me_length e - 1 - rend, me_type = 1\<rparr>"
      have hs: "set (holes rm e) = (if me_base_addr e \<le> rstart then {before} else {}) \<union>
          (if rend \<le> me_base_addr e + me_length e - 1 then {after} else {})"
        using Some c by (simp add: holes_def Let_def rstart_def rend_def before_def after_def)
      have "(me_base_addr e \<le> rstart \<and> contain_reserved_memory rm before = Some None \<and>
              find_in_entry rm before n = Some (Some a)) \<or>
            (rend \<le> me_base_addr e + me_length e - 1 \<and> contain_reserved_memory rm after = Some None \<and>
              find_in_entry rm after n = Some (Some a))"
        using run w Some c end_
        unfolding find_in_entry.simps [of rm e n] rstart_def [symmetric] rend_def [symmetric]
        by (auto simp: Let_def rstart_def [symmetric] rend_def [symmetric] before_def [symmetric]
            after_def [symmetric] split: option.splits if_splits)
      moreover have "me_type before = 1" "me_type after = 1" by (simp_all add: before_def after_def)
      ultimately show ?thesis
        unfolding hs by (auto simp: find_in_entry_clean split: if_splits)
    qed
  qed
qed

lemma find_conflict_hit:
  assumes "find_conflict s e rs i = Some k" and "unat s \<le> unat e"
  shows "unat (fst (rs ! (k - i))) \<le> unat e \<and> unat s \<le> unat (snd (rs ! (k - i)))"
  using assms
proof (induction rs arbitrary: i)
  case (Cons r rs)
  obtain lo hi where r: "r = (lo, hi)" by (cases r)
  have u: "unat (ucast x :: u64) = unat x" for x :: u32
    using unat_u32_bound [of x] by (simp add: unsigned_ucast_eq take_bit_nat_eq_self)
  show ?case
  proof (cases "find_conflict s e [r] i = None")
    case True
    then have run: "find_conflict s e rs (Suc i) = Some k"
      using Cons.prems(1) by (simp add: r Let_def split: if_splits)
    then have "Suc i \<le> k" using find_conflict_bounds by blast
    then have "(r # rs) ! (k - i) = rs ! (k - Suc i)" by (simp add: nth_Cons')
    with Cons.IH [OF run Cons.prems(2)] show ?thesis by simp
  next
    case False
    then have "k = i" and "\<not> (unat e < unat lo) \<and> \<not> (unat hi < unat s)"
      using Cons.prems by (auto simp: r Let_def word_less_nat_alt u split: if_splits)
    then show ?thesis by (simp add: r)
  qed
qed simp

lemma hole_inside:
  assumes h: "h \<in> set (holes rm e)" and low: "unat (me_base_addr e) + unat (me_length e) < 2 ^ 32"
    and l: "0 < unat (me_length e)" and av: "me_type e = 1"
  shows "unat (me_base_addr e) \<le> unat (me_base_addr h) \<and>
    unat (me_base_addr h) + unat (me_length h) \<le> unat (me_base_addr e) + unat (me_length e)"
proof (cases "\<exists>i. contain_reserved_memory rm e = Some (Some i)")
  case False
  then have "h = e" using h by (auto simp: holes_def split: option.splits)
  then show ?thesis by simp
next
  case True
  then obtain i where i: "contain_reserved_memory rm e = Some (Some i)" by blast
  define eend where "eend = me_base_addr e + me_length e - 1"
  have "unat (me_base_addr e + me_length e) = unat (me_base_addr e) + unat (me_length e)"
    using low by (intro unat_add_no_overflow) simp
  then have ee: "unat eend = unat (me_base_addr e) + unat (me_length e) - 1"
    using l unfolding eend_def by (subst unat_sub_no_underflow) simp_all
  have hit: "unat (fst (rm ! i)) \<le> unat eend \<and> unat (me_base_addr e) \<le> unat (snd (rm ! i))"
    using find_conflict_hit [of "me_base_addr e" eend rm 0 i] i ee l av
    by (auto simp: contain_reserved_memory_def get_max_offset_for_entry_def eend_def
        mmap_entry_is_available_def split: if_splits)
  have u: "unat (ucast x :: u64) = unat x" for x :: u32
    using unat_u32_bound [of x] by (simp add: unsigned_ucast_eq take_bit_nat_eq_self)
  define rstart rend :: u64 where "rstart = ucast (fst (rm ! i))" and "rend = ucast (snd (rm ! i))"
  have hs: "h = \<lparr>me_base_addr = me_base_addr e, me_length = rstart - me_base_addr e, me_type = 1\<rparr> \<and>
        me_base_addr e \<le> rstart \<or>
      h = \<lparr>me_base_addr = rend + 1, me_length = eend - rend, me_type = 1\<rparr> \<and> rend \<le> eend"
    using h i by (auto simp: holes_def Let_def eend_def rstart_def rend_def split: if_splits)
  have r1: "unat (rstart - me_base_addr e) = unat rstart - unat (me_base_addr e)" if "me_base_addr e \<le> rstart"
    using that by (intro unat_sub_no_underflow) (simp add: word_le_nat_alt)
  have r2: "unat (rend + 1) = unat rend + 1" "unat (eend - rend) = unat eend - unat rend" if "rend \<le> eend"
    using that ee low
    by (simp_all add: unat_sub_no_underflow unat_add_no_overflow word_le_nat_alt)
  show ?thesis
    using hs r1 r2 hit ee l by (auto simp: word_le_nat_alt rstart_def rend_def u)
qed

subsection \<open>Properties\<close>

text \<open>
  C8: on a machine whose memory map is plain (usable entries that are not empty, lie below 4GiB
  and share no frame) and whose kernel image, bitmap, multiboot structure and initrd lie in
  separate frames of usable memory, \<open>init_frame_alloc\<close> returns, with a consistent bitmap that
  covers all of RAM, in which the available frames are exactly the usable ones minus those four.
\<close>

theorem init_frame_alloc_exact:
  assumes ok: "mmap_ok mem st" and sep: "separate_entries (memory_map mem st)"
    and sz: "compute_bitmap_size mem st = Some sz"
    and n: "ceil_x_over_y_u32 sz (8 * 0x1000) = Some n"
    and start: "find_contiguous_physical_frames mem st n = Some start"
    and below: "to_virt start < KERNEL_START_ADDR lm"
    and words: "length (words (to_virt start)) = unat (BITMAP_WORD_COUNT sz)"
    and used: "separate_in (available_frames (memory_map mem st)) (boot_frames lm st start n)"
  shows "\<exists>bm. init_frame_alloc mem lm False True words st = Some (bm, n, start) \<and>
    wf_bitmap bm \<and> bm_size bm = sz \<and> unat sz \<le> 2 ^ 20 \<and>
    free_bits_of bm = available_frames (memory_map mem st) - \<Union> (set (boot_frames lm st start n))"
proof -
  let ?A = "available_frames (memory_map mem st)" and ?U = "\<Union> (set (boot_frames lm st start n))"
  have small: "unat sz \<le> 2 ^ 20" and cover: "?A \<subseteq> {..< unat sz}"
    using bitmap_size_covers [OF ok sep] sz by auto
  have "unat sz \<le> 2 ^ 31" using small by simp
  then obtain b0 where b0: "bitmap_init sz (words (to_virt start)) True = Some b0" "wf_bitmap b0"
    "bm_size b0 = sz" "set_bits_of b0 = {..< unat sz}"
    using bitmap_init_correct [OF _ words, of True] by metis
  obtain b1 where b1: "unmark_avail_frames mem st b0 = Some b1" "wf_bitmap b1" "bm_size b1 = sz"
    "set_bits_of b1 = {..< unat sz} - ?A"
    using unmark_loop [OF b0(2) sep] b0(3,4) cover
    by (auto simp: unmark_avail_frames_def for_each_mmap_entry_list [OF ok])
  have f1: "free_bits_of b1 = ?A" using b1(3,4) cover by (auto simp: free_bits_complement)
  obtain b2 where b2: "Option.bind (mark_kernel_frames lm b1) (\<lambda>bm.
      Option.bind (mark_bitmap_frames start n bm) (\<lambda>bm.
      Option.bind (mark_multiboot_info_struct st bm) (mark_initrd_frames st))) = Some b2"
    "wf_bitmap b2" "bm_size b2 = sz" "set_bits_of b2 = set_bits_of b1 \<union> ?U"
    using marks_boot [OF used] b1(2,3) f1 unfolding marks_def by metis
  have "init_frame_alloc mem lm False True words st = Some (b2, n, start)"
    using sz n start below b0(1) b1(1) b2(1) find_contiguous_aligned [OF ok start]
    by (auto simp: init_frame_alloc_def bind_eq_Some_conv)
  moreover have "free_bits_of b2 = ?A - ?U"
    using b2(3,4) b1(4) cover by (auto simp: free_bits_complement)
  ultimately show ?thesis using b2(2,3) small by blast
qed

lemmas boot_eval = contain_reserved_memory_def get_max_offset_for_entry_def mmap_entry_is_available_def
  mmap_entry_within_4GiB_def find_in_free_entry_def round_up_u32_def Let_def

text \<open>A machine with 2MiB of RAM, the kernel at 1MiB and the multiboot data at \<open>0x9000\<close>.\<close>

definition boot_example :: boot_memory where
  "boot_example = \<lparr>
     info_at = (\<lambda>_. \<lparr>mods_count = 0, mods_addr = 0, mmap_length = 48, mmap_addr = 0x9100\<rparr>),
     mmap_at = (\<lambda>a. if a = 0x9100 then \<lparr>me_base_addr = 0, me_length = 0x9FC00, me_type = 1\<rparr>
                    else \<lparr>me_base_addr = 0x100000, me_length = 0x100000, me_type = 1\<rparr>),
     mod_at = (\<lambda>_. \<lparr>mod_start = 0, mod_end = 0\<rparr>)\<rparr>"

definition link_example :: link_map where
  "link_example = \<lparr>KERNEL_START_ADDR = 0xC0100000, KERNEL_END_ADDR = 0xC010FFFF\<rparr>"

definition multiboot_example :: multiboot_state where
  "multiboot_example = \<lparr>MULTIBOOT_INFO = 0xC0009000, INIT_RD_START = 0, INIT_RD_SIZE = 0,
     RESERVED_MEM = [(0x100000, 0x10FFFF), (0x9000, 0x9130), (0xB8000, 0xB8F9F)]\<rparr>"

lemma init_multiboot_example:
  "init_multiboot boot_example link_example False False 0x9000
     \<lparr>MULTIBOOT_INFO = 0, INIT_RD_START = 0, INIT_RD_SIZE = 0, RESERVED_MEM = []\<rparr> = Some multiboot_example"
  by (simp add: init_multiboot_def init_reserved_memory_area_def init_initrd_def boot_example_def
      link_example_def multiboot_example_def to_phys_def to_virt_def KERNEL_PHY_OFFSET_def min_u32_def
      max_u32_def sizeof_multiboot_info_def Let_def)

lemma example_map:
  "mmap_ok boot_example multiboot_example"
  "memory_map boot_example multiboot_example =
     [\<lparr>me_base_addr = 0, me_length = 0x9FC00, me_type = 1\<rparr>,
      \<lparr>me_base_addr = 0x100000, me_length = 0x100000, me_type = 1\<rparr>]"
  by (simp_all add: mmap_ok_def memory_map_def mmap_entries_def boot_example_def multiboot_example_def
      sizeof_mmap_entry_def upt_rec Let_def)

lemma example_frames:
  "usable \<lparr>me_base_addr = 0, me_length = 0x9FC00, me_type = 1\<rparr>"
  "usable \<lparr>me_base_addr = 0x100000, me_length = 0x100000, me_type = 1\<rparr>"
  "entry_frames \<lparr>me_base_addr = 0, me_length = 0x9FC00, me_type = 1\<rparr> = {0..0x9F}"
  "entry_frames \<lparr>me_base_addr = 0x100000, me_length = 0x100000, me_type = 1\<rparr> = {0x100..0x1FF}"
  by (simp_all add: usable_def mmap_entry_is_available_def mmap_entry_within_4GiB_def entry_frames_def
      entry_end_def)

theorem init_frame_alloc_exact_witness:
  "\<exists>bm. init_frame_alloc boot_example link_example False True (\<lambda>_. replicate 16 0) multiboot_example =
      Some (bm, 1, 0) \<and> wf_bitmap bm \<and>
    free_bits_of bm = {0..0x9F} \<union> {0x100..0x1FF} -
      ({0x100..0x10F} \<union> ({0..0} \<union> ({9..9} \<union> {})))"
proof -
  note ok = example_map(1)
  have avail: "available_frames (memory_map boot_example multiboot_example) = {0..0x9F} \<union> {0x100..0x1FF}"
    by (simp add: example_map(2) example_frames)
  have sep: "separate_entries (memory_map boot_example multiboot_example)"
    by (auto simp: example_map(2) example_frames plain_entry_def entry_end_def)
  have sz: "compute_bitmap_size boot_example multiboot_example = Some 512"
    by (simp add: compute_bitmap_size_def get_max_addr_def for_each_mmap_entry_list [OF ok]
        example_map(2) max_addr_step_def boot_eval ceil_x_over_y_u32_def)
  have rm: "RESERVED_MEM multiboot_example = [(0x100000, 0x10FFFF), (0x9000, 0x9130), (0xB8000, 0xB8F9F)]"
    by (simp add: multiboot_example_def)
  have n: "ceil_x_over_y_u32 512 (8 * 0x1000) = Some 1" by (simp add: ceil_x_over_y_u32_def)
  have st: "find_contiguous_physical_frames boot_example multiboot_example 1 = Some 0"
    by (simp add: find_contiguous_physical_frames_def for_each_mmap_entry_list [OF ok]
        example_map(2) find_frames_step_def rm find_in_entry.simps boot_eval)
  have bf: "boot_frames link_example multiboot_example 0 1 = [{0x100..0x10F}, {0..0}, {9..9}, {}]"
    by (simp add: boot_frames_def link_example_def multiboot_example_def range_frames_def initrd_frames_def
        frame_number_def to_phys_def KERNEL_PHY_OFFSET_def sizeof_multiboot_info_def)
  have used: "separate_in (available_frames (memory_map boot_example multiboot_example))
      (boot_frames link_example multiboot_example 0 1)"
    unfolding bf avail by auto
  have below: "to_virt 0 < KERNEL_START_ADDR link_example"
    by (simp add: to_virt_def KERNEL_PHY_OFFSET_def link_example_def)
  have words: "length ((\<lambda>_. replicate 16 0 :: u32 list) (to_virt 0)) = unat (BITMAP_WORD_COUNT 512)"
    by (simp add: BITMAP_WORD_COUNT_def)
  show ?thesis
    using init_frame_alloc_exact [OF ok sep sz n st below words used] unfolding bf avail by auto
qed

text \<open>
  C17: when every stretch the search may look at reaches the next page boundary, the frames it
  returns lie inside the entry and keep clear of the kernel image, the multiboot data and the
  VGA buffer.
\<close>

theorem find_in_entry_sound:
  assumes run: "find_in_entry rm e n = Some (Some a)" and av: "mmap_entry_is_available e"
    and low: "unat (me_base_addr e) + unat (me_length e) < 2 ^ 32" and l: "me_length e \<noteq> 0"
    and n: "unat n * 4096 < 2 ^ 32" and page: "\<forall>h \<in> set (holes rm e). reaches_page h"
  shows "is_4kib_aligned a \<and> unat (me_base_addr e) \<le> unat a \<and>
    unat a + unat n * 4096 \<le> unat (me_base_addr e) + unat (me_length e) \<and>
    (\<forall>(lo, hi) \<in> set rm. {unat a..<unat a + unat n * 4096} \<inter> {unat lo..unat hi} = {})"
proof -
  have av': "me_type e = 1" and l': "0 < unat (me_length e)"
    using av l by (simp_all add: mmap_entry_is_available_def unat_gt_0)
  obtain h where h: "h \<in> set (holes rm e)" "contain_reserved_memory rm h = Some None" "me_type h = 1"
    "find_in_free_entry h n = Some (Some a)"
    using find_in_entry_hole [OF run av'] by blast
  have inside: "unat (me_base_addr e) \<le> unat (me_base_addr h)"
    "unat (me_base_addr h) + unat (me_length h) \<le> unat (me_base_addr e) + unat (me_length e)"
    using hole_inside [OF h(1) low l' av'] by simp_all
  then have low': "unat (me_base_addr h) + unat (me_length h) < 2 ^ 32" using low by linarith
  have "reaches_page h" using page h(1) by blast
  from find_in_free_entry_fits [OF h(4) this low' n]
  have fit: "unat (me_base_addr h) \<le> unat a"
    "unat a + unat n * 4096 \<le> unat (me_base_addr h) + unat (me_length h)" .
  have "{unat a..<unat a + unat n * 4096} \<inter> {unat lo..unat hi} = {}" if "(lo, hi) \<in> set rm" for lo hi
    using free_entry_clear [OF h(2,3) low' that fit] .
  then show ?thesis
    using find_in_entry_aligned [OF run] inside fit by auto
qed

theorem find_in_entry_sound_witness:
  "let rm = [(0x100000, 0x10FFFF), (0x9000, 0x9117), (0xB8000, 0xB8F9F)];
       e = \<lparr>me_base_addr = 0, me_length = 0x9FC00, me_type = 1\<rparr>
   in \<exists>a. find_in_entry rm e 16 = Some (Some a) \<and> unat a + 16 * 4096 \<le> 0x9FC00 \<and>
      {unat a..<unat a + 16 * 4096} \<inter> {0x9000..0x9117} = {}"
proof -
  let ?rm = "[(0x100000, 0x10FFFF), (0x9000, 0x9117), (0xB8000, 0xB8F9F)] :: reserved_mem"
  let ?e = "\<lparr>me_base_addr = 0, me_length = 0x9FC00, me_type = 1\<rparr> :: multiboot_mmap_entry"
  have run: "find_in_entry ?rm ?e 16 = Some (Some 0xA000)"
    by (simp add: find_in_entry.simps boot_eval)
  have hs: "\<forall>h \<in> set (holes ?rm ?e). reaches_page h"
    by (simp add: holes_def reaches_page_def page_up_def ceil_div_def boot_eval)
  show ?thesis
    using find_in_entry_sound [OF run _ _ _ _ hs] run
    by (simp add: mmap_entry_is_available_def)
qed


end
