(* ===== verification/Error_Log.thy ===== *)
theory Error_Log
  imports Heap_Client
begin

text \<open>
  The error log of \<open>error.c\<close>: every cpu keeps a list of error descriptors. A descriptor comes from
  \<open>kmalloc\<close>, or, when the error happens inside of \<open>kmalloc\<close>, from four static ones. The other components
  use \<^const>\<open>set_error\<close>, which sees the codes in the list and whether a descriptor can be had; this theory
  shows that \<open>_set_error\<close> does exactly that. The fields \<^const>\<open>error_list\<close> and \<^const>\<open>error_descs\<close> of the
  underlying state are not used here. Printing is left out, and so is the preemption count, which
  \<open>init_error_mechanism\<close> leaves as it found it.
\<close>

subsection \<open>State\<close>

definition NUM_STATIC_ERR_DESC :: nat where
  "NUM_STATIC_ERR_DESC = 4"

text \<open>\<open>struct error_desc\<close>; strings are given by their addresses.\<close>

record error_desc =
  is_static :: bool
  active :: bool
  ed_file :: addr
  ed_line :: u32
  ed_func :: addr
  ed_message :: addr
  ed_code :: error_code

text \<open>A pointer to a descriptor: an entry of \<open>static_error_desc\<close> or an allocation.\<close>

datatype desc_ref = Static_Desc nat | Heap_Desc addr

record err_state = heap_state +
  err_refs :: "desc_ref list"
  error_list_initialized :: bool
  kmalloc_nest_level :: u32
  desc_at :: "desc_ref \<Rightarrow> error_desc"

subsection \<open>Operations\<close>

definition get_irq_flag_and_disable :: "'a err_state_scheme \<Rightarrow> bool \<times> 'a err_state_scheme" where
  "get_irq_flag_and_disable s = (int_flag s, cpu_set_interrupt_flag False s)"

fun reset_desc_loop :: "nat list \<Rightarrow> (desc_ref \<Rightarrow> error_desc) \<Rightarrow> desc_ref \<Rightarrow> error_desc" where
  "reset_desc_loop [] ds = ds"
| "reset_desc_loop (i # is) ds = reset_desc_loop is
     (ds(Static_Desc i := (ds (Static_Desc i))\<lparr>is_static := True, active := False\<rparr>))"

definition reset_statically_allocated_error_desc :: "'a err_state_scheme \<Rightarrow> 'a err_state_scheme" where
  "reset_statically_allocated_error_desc s = s\<lparr>desc_at := reset_desc_loop [0..<NUM_STATIC_ERR_DESC] (desc_at s)\<rparr>"

definition init_error_mechanism :: "'a err_state_scheme \<Rightarrow> 'a err_state_scheme" where
  "init_error_mechanism s = (let
     s = s\<lparr>err_refs := []\<rparr>;
     s = reset_statically_allocated_error_desc s
     in s\<lparr>error_list_initialized := True\<rparr>)"

definition get_static_error_desc :: "'a err_state_scheme \<Rightarrow> desc_ref option option" where
  "get_static_error_desc s = do {
     ASSERT (\<not> int_flag s);
     Some (map_option Static_Desc (find (\<lambda>i. \<not> active (desc_at s (Static_Desc i))) [0..<NUM_STATIC_ERR_DESC])) }"

text \<open>
  The descriptor of a new error. Memory from \<open>kmalloc\<close> is zero; all fields but \<open>is_static\<close> are set by
  \<open>_set_error\<close> right after.
\<close>

definition get_error_desc :: "'a err_state_scheme \<Rightarrow> (desc_ref option \<times> 'a err_state_scheme) option" where
  "get_error_desc s =
     (if 0 < kmalloc_nest_level s then do {
        r \<leftarrow> get_static_error_desc s;
        Some (r, s) }
      else (let (a, s) = kmalloc s in
        if a = 0 then Some (None, s)
        else Some (Some (Heap_Desc a),
          s\<lparr>desc_at := (desc_at s)(Heap_Desc a := (desc_at s (Heap_Desc a))\<lparr>is_static := False\<rparr>)\<rparr>)))"

definition set_error_desc ::
  "addr \<Rightarrow> u32 \<Rightarrow> addr \<Rightarrow> addr \<Rightarrow> error_code \<Rightarrow> 'a err_state_scheme \<Rightarrow> 'a err_state_scheme option" where
  "set_error_desc fname line func message code s = do {
     let (irq, s) = get_irq_flag_and_disable s;
     let s = (if \<not> error_list_initialized s then init_error_mechanism s else s);
     (desc, s) \<leftarrow> get_error_desc s;
     case desc of
       None \<Rightarrow> Some (cpu_set_interrupt_flag irq s)
     | Some d \<Rightarrow> do {
         true_error_code \<leftarrow>
           (if code = ENONE then
              (if err_refs s = [] then PANIC else Some (ed_code (desc_at s (last (err_refs s)))))
            else Some code);
         let s = s\<lparr>desc_at := (desc_at s)(d := (desc_at s d)\<lparr>active := True, ed_file := fname, ed_line := line,
           ed_func := func, ed_message := message, ed_code := true_error_code\<rparr>)\<rparr>;
         let s = s\<lparr>err_refs := err_refs s @ [d]\<rparr>;
         Some (cpu_set_interrupt_flag irq s) } }"

fun kfree_desc :: "desc_ref \<Rightarrow> 'a err_state_scheme \<Rightarrow> 'a err_state_scheme option" where
  "kfree_desc (Heap_Desc a) s = kfree a s"
| "kfree_desc (Static_Desc i) s = PANIC"

fun clear_error_loop :: "desc_ref list \<Rightarrow> 'a err_state_scheme \<Rightarrow> 'a err_state_scheme option" where
  "clear_error_loop [] s = Some s"
| "clear_error_loop (d # ds) s = do {
     let s = s\<lparr>err_refs := ds\<rparr>;
     s \<leftarrow> (if \<not> is_static (desc_at s d) then kfree_desc d s else Some s);
     clear_error_loop ds s }"

definition clear_error :: "'a err_state_scheme \<Rightarrow> 'a err_state_scheme option" where
  "clear_error s = do {
     let (irq, s) = get_irq_flag_and_disable s;
     ASSERT (error_list_initialized s);
     s \<leftarrow> clear_error_loop (err_refs s) s;
     let s = reset_statically_allocated_error_desc s;
     Some (cpu_set_interrupt_flag irq s) }"

subsection \<open>Invariant and view\<close>

text \<open>
  A listed descriptor has a code of its own. Static ones are marked as such and are active while listed;
  the others are live allocations.
\<close>

definition desc_ok :: "addr set \<Rightarrow> (desc_ref \<Rightarrow> error_desc) \<Rightarrow> desc_ref \<Rightarrow> bool" where
  "desc_ok live ds r \<longleftrightarrow> ed_code (ds r) \<noteq> ENONE \<and>
     (case r of Static_Desc i \<Rightarrow> i < NUM_STATIC_ERR_DESC | Heap_Desc a \<Rightarrow> a \<in> live \<and> \<not> is_static (ds r))"

definition refs_ok :: "desc_ref list \<Rightarrow> (desc_ref \<Rightarrow> error_desc) \<Rightarrow> addr set \<Rightarrow> bool" where
  "refs_ok rs ds live \<longleftrightarrow> distinct rs \<and> (\<forall>r \<in> set rs. desc_ok live ds r) \<and>
     (\<forall>i < NUM_STATIC_ERR_DESC. is_static (ds (Static_Desc i)) \<and>
        (active (ds (Static_Desc i)) \<longleftrightarrow> Static_Desc i \<in> set rs))"

definition log_ok :: "'a err_state_scheme \<Rightarrow> bool" where
  "log_ok s \<longleftrightarrow> heap_ok s \<and> (error_list_initialized s \<longrightarrow> refs_ok (err_refs s) (desc_at s) (kmalloc_live s))"

definition free_statics :: "(desc_ref \<Rightarrow> error_desc) \<Rightarrow> nat list" where
  "free_statics ds = filter (\<lambda>i. \<not> active (ds (Static_Desc i))) [0..<NUM_STATIC_ERR_DESC]"

text \<open>What the log looks like to the users of \<^const>\<open>set_error\<close>.\<close>

definition log_view :: "'a err_state_scheme \<Rightarrow> cpu_state" where
  "log_view s = \<lparr>cpu_id = cpu_id s, int_flag = int_flag s,
     error_list = (if error_list_initialized s then map (\<lambda>r. ed_code (desc_at s r)) (err_refs s) else []),
     error_descs =
       (if 0 < kmalloc_nest_level s then
          replicate (if error_list_initialized s then length (free_statics (desc_at s)) else NUM_STATIC_ERR_DESC) True
        else map (\<lambda>a. a \<noteq> 0) (kmalloc_answers s))\<rparr>"

lemma reset_desc_loop_eq:
  "reset_desc_loop is ds r = (case r of
     Static_Desc i \<Rightarrow> if i \<in> set is then (ds r)\<lparr>is_static := True, active := False\<rparr> else ds r
   | Heap_Desc a \<Rightarrow> ds r)"
  by (induction "is" arbitrary: ds) (auto split: desc_ref.splits)

lemma init_error_mechanism_ok:
  assumes "log_ok s" and "\<not> error_list_initialized s"
  shows "log_ok (init_error_mechanism s)" "log_view (init_error_mechanism s) = log_view s"
proof -
  have free: "free_statics (reset_desc_loop [0..<NUM_STATIC_ERR_DESC] ds) = [0..<NUM_STATIC_ERR_DESC]" for ds
    by (simp add: free_statics_def reset_desc_loop_eq)
  show "log_ok (init_error_mechanism s)" "log_view (init_error_mechanism s) = log_view s"
    using assms free
    by (auto simp: log_ok_def log_view_def init_error_mechanism_def reset_statically_allocated_error_desc_def refs_ok_def
        reset_desc_loop_eq heap_ok_def)
qed

lemma log_ok_irq [simp]: "log_ok (s\<lparr>int_flag := b\<rparr>) = log_ok s"
  by (simp add: log_ok_def)

lemma log_view_irq [simp]: "log_view (s\<lparr>int_flag := b\<rparr>) = (log_view s)\<lparr>int_flag := b\<rparr>"
  by (simp add: log_view_def)

lemma find_filter: "find P xs = (case filter P xs of [] \<Rightarrow> None | x # _ \<Rightarrow> Some x)"
  by (induction xs) auto

lemma free_statics_mem: "i \<in> set (free_statics ds) \<longleftrightarrow> i < NUM_STATIC_ERR_DESC \<and> \<not> active (ds (Static_Desc i))"
  by (auto simp: free_statics_def)

text \<open>Linking the descriptor \<open>d\<close>, filled in as \<open>e\<close>.\<close>

definition link_desc :: "desc_ref \<Rightarrow> error_desc \<Rightarrow> 'a err_state_scheme \<Rightarrow> 'a err_state_scheme" where
  "link_desc d e s = s\<lparr>desc_at := (desc_at s)(d := e), err_refs := err_refs s @ [d]\<rparr>"

lemma link_static:
  assumes ok: "log_ok s" "error_list_initialized s" and nest: "0 < kmalloc_nest_level s"
    and free: "free_statics (desc_at s) = i # is"
    and e: "active e" "is_static e" "ed_code e \<noteq> ENONE"
  shows "log_ok (link_desc (Static_Desc i) e s)"
    and "log_view (link_desc (Static_Desc i) e s) = (log_view s)\<lparr>error_list := error_list (log_view s) @ [ed_code e],
      error_descs := tl (error_descs (log_view s))\<rparr>"
proof -
  let ?d = "Static_Desc i" and ?ds = "(desc_at s)(Static_Desc i := e)"
  have i: "i < NUM_STATIC_ERR_DESC" "\<not> active (desc_at s ?d)"
    using free_statics_mem [of i "desc_at s"] free by auto
  have refs: "refs_ok (err_refs s) (desc_at s) (kmalloc_live s)" using ok by (simp add: log_ok_def)
  then have new: "?d \<notin> set (err_refs s)" using i by (auto simp: refs_ok_def)
  then show "log_ok (link_desc ?d e s)"
    using ok refs i e by (auto simp: log_ok_def link_desc_def refs_ok_def desc_ok_def heap_ok_def split: desc_ref.splits)
  have "distinct (i # is)" using free distinct_filter [OF distinct_upt] unfolding free_statics_def by metis
  moreover have "free_statics ?ds = filter (\<lambda>j. j \<noteq> i) (free_statics (desc_at s))"
    unfolding free_statics_def filter_filter using e by (intro filter_cong) auto
  ultimately have "free_statics ?ds = is" using free by (auto simp: filter_id_conv)
  then show "log_view (link_desc ?d e s) = (log_view s)\<lparr>error_list := error_list (log_view s) @ [ed_code e],
      error_descs := tl (error_descs (log_view s))\<rparr>"
    using ok nest free new by (auto simp: log_view_def link_desc_def)
qed

lemma link_heap:
  assumes ok: "log_ok s" "error_list_initialized s" and nest: "kmalloc_nest_level s = 0"
    and k: "kmalloc s = (a, s')" "a \<noteq> 0" and e: "\<not> is_static e" "ed_code e \<noteq> ENONE"
  shows "log_ok (link_desc (Heap_Desc a) e s')"
    and "log_view (link_desc (Heap_Desc a) e s') = (log_view s)\<lparr>error_list := error_list (log_view s) @ [ed_code e],
      error_descs := tl (error_descs (log_view s))\<rparr>"
proof -
  have heap: "heap_ok s" and refs: "refs_ok (err_refs s) (desc_at s) (kmalloc_live s)" using ok by (simp_all add: log_ok_def)
  obtain as where s': "s' = s\<lparr>kmalloc_answers := as, kmalloc_live := insert a (kmalloc_live s)\<rparr>" "heap_ok s'"
    and a: "a \<notin> kmalloc_live s" and ans: "kmalloc_answers s = a # as"
    using k heap by (cases rule: kmalloc_cases [OF heap k(1)]) (auto simp: kmalloc_def split: list.splits)
  then have new: "Heap_Desc a \<notin> set (err_refs s)" using refs by (auto simp: refs_ok_def desc_ok_def)
  show "log_ok (link_desc (Heap_Desc a) e s')"
    using s' ok refs new e
    by (auto simp: log_ok_def link_desc_def refs_ok_def desc_ok_def heap_ok_def split: desc_ref.splits)
  show "log_view (link_desc (Heap_Desc a) e s') = (log_view s)\<lparr>error_list := error_list (log_view s) @ [ed_code e],
      error_descs := tl (error_descs (log_view s))\<rparr>"
    using s' ok nest new ans k(2) by (auto simp: log_view_def link_desc_def)
qed

text \<open>The two ways an error goes: it is lost, or a descriptor can be linked for it.\<close>

lemma get_error_desc_cases [consumes 3]:
  assumes ok: "log_ok s" "error_list_initialized s" "\<not> int_flag s"
  obtains (lost) s' where "get_error_desc s = Some (None, s')" "\<not> next_desc (log_view s)" "log_ok s'"
      "log_view s' = (log_view s)\<lparr>error_descs := tl (error_descs (log_view s))\<rparr>"
  | (found) d s' where "get_error_desc s = Some (Some d, s')" "next_desc (log_view s)" "err_refs s' = err_refs s"
      "\<forall>r. ed_code (desc_at s' r) = ed_code (desc_at s r)"
      "\<forall>e. active e \<and> is_static e = is_static (desc_at s' d) \<and> ed_code e \<noteq> ENONE \<longrightarrow> log_ok (link_desc d e s') \<and>
        log_view (link_desc d e s') = (log_view s)\<lparr>error_list := error_list (log_view s) @ [ed_code e],
          error_descs := tl (error_descs (log_view s))\<rparr>"
proof (cases "0 < kmalloc_nest_level s")
  case nest: True
  have get: "get_error_desc s = Some (case free_statics (desc_at s) of [] \<Rightarrow> None | i # is \<Rightarrow> Some (Static_Desc i), s)"
    using nest ok(3) by (simp add: get_error_desc_def get_static_error_desc_def find_filter ASSERT_bind
        free_statics_def split: list.splits)
  show ?thesis
  proof (cases "free_statics (desc_at s)")
    case Nil
    then show ?thesis using lost [of s] get nest ok by (simp add: next_desc_def log_view_def)
  next
    case (Cons i "is")
    have "is_static (desc_at s (Static_Desc i))"
      using ok free_statics_mem [of i "desc_at s"] Cons by (auto simp: log_ok_def refs_ok_def)
    then show ?thesis
      using found [of "Static_Desc i" s] get nest ok Cons link_static [OF ok(1,2) nest Cons]
      by (auto simp: next_desc_def log_view_def)
  qed
next
  case False
  then have nest: "kmalloc_nest_level s = 0" using word_gt_0 [of "kmalloc_nest_level s"] by argo
  obtain a s' where k: "kmalloc s = (a, s')" by fastforce
  have heap: "heap_ok s" using ok by (simp add: log_ok_def)
  show ?thesis
  proof (cases "a = 0")
    case True
    then have "heap_ok s'" using kmalloc_cases [OF heap k] by metis
    moreover have "s' = s\<lparr>kmalloc_answers := tl (kmalloc_answers s)\<rparr>" "\<not> next_desc (log_view s)"
      using k True nest by (auto simp: kmalloc_def next_desc_def log_view_def split: list.splits if_splits)
    ultimately show ?thesis
      using lost [of s'] True nest ok k
      by (auto simp: get_error_desc_def log_ok_def log_view_def map_tl)
  next
    case False
    then obtain as where s': "s' = s\<lparr>kmalloc_answers := as, kmalloc_live := insert a (kmalloc_live s)\<rparr>"
      using kmalloc_cases [OF heap k] by metis
    moreover have "next_desc (log_view s)"
      using k nest False by (auto simp: next_desc_def log_view_def kmalloc_def split: list.splits)
    ultimately show ?thesis
      using found [of "Heap_Desc a" "s'\<lparr>desc_at := (desc_at s')(Heap_Desc a := (desc_at s' (Heap_Desc a))\<lparr>is_static := False\<rparr>)\<rparr>"]
        link_heap [OF ok(1,2) nest k False] False nest k
      by (auto simp: get_error_desc_def link_desc_def)
  qed
qed

definition log_opened :: "'a err_state_scheme \<Rightarrow> 'a err_state_scheme" where
  "log_opened s = (if \<not> error_list_initialized s then init_error_mechanism (s\<lparr>int_flag := False\<rparr>) else s\<lparr>int_flag := False\<rparr>)"

lemma log_opened_ok:
  assumes "log_ok s"
  shows "log_ok (log_opened s)" "log_view (log_opened s) = (log_view s)\<lparr>int_flag := False\<rparr>"
    "error_list_initialized (log_opened s)" "\<not> int_flag (log_opened s)"
  using assms init_error_mechanism_ok [of "s\<lparr>int_flag := False\<rparr>"]
  by (auto simp: log_opened_def)
    (auto simp: init_error_mechanism_def reset_statically_allocated_error_desc_def)

text \<open>\<open>_set_error\<close> and \<^const>\<open>set_error\<close> agree.\<close>

lemma set_error_desc_view:
  assumes ok: "log_ok s"
  shows "map_option log_view (set_error_desc fname line func msg code s) = set_error code (log_view s)"
    and "set_error_desc fname line func msg code s = Some s' \<Longrightarrow> log_ok s'"
proof -
  note o = log_opened_ok [OF ok]
  have run: "set_error_desc fname line func msg code s = do {
      (desc, t) \<leftarrow> get_error_desc (log_opened s);
      case desc of
        None \<Rightarrow> Some (t\<lparr>int_flag := int_flag s\<rparr>)
      | Some d \<Rightarrow> do {
          c \<leftarrow> (if code = ENONE then
            (if err_refs t = [] then PANIC else Some (ed_code (desc_at t (last (err_refs t))))) else Some code);
          Some ((link_desc d ((desc_at t d)\<lparr>active := True, ed_file := fname, ed_line := line, ed_func := func,
            ed_message := msg, ed_code := c\<rparr>) t)\<lparr>int_flag := int_flag s\<rparr>) } }"
    by (simp add: set_error_desc_def get_irq_flag_and_disable_def cpu_set_interrupt_flag_def log_opened_def link_desc_def Let_def
        cong: option.case_cong)
  have irq: "int_flag s = int_flag (log_view s)" by (simp add: log_view_def)
  have el: "error_list (log_view s) = map (\<lambda>r. ed_code (desc_at (log_opened s) r)) (err_refs (log_opened s))"
    using o(2,3) by (simp add: log_view_def)
  have codes: "r \<in> set (err_refs (log_opened s)) \<Longrightarrow> ed_code (desc_at (log_opened s) r) \<noteq> ENONE" for r
    using o(1,3) by (auto simp: log_ok_def refs_ok_def desc_ok_def)
  have nd: "next_desc (log_view (log_opened s)) = next_desc (log_view s)"
    using o(2) by (simp add: next_desc_def)
  have "map_option log_view (set_error_desc fname line func msg code s) = set_error code (log_view s) \<and>
    (\<forall>s'. set_error_desc fname line func msg code s = Some s' \<longrightarrow> log_ok s')"
    using o(1,3,4)
  proof (cases rule: get_error_desc_cases)
    case (lost t)
    then show ?thesis using run o(2) nd irq by (simp add: set_error_def Let_def)
  next
    case (found d t)
    then show ?thesis
      using run o(2) nd irq el codes
      by (auto simp: set_error_def Let_def last_map)
  qed
  then show "map_option log_view (set_error_desc fname line func msg code s) = set_error code (log_view s)"
    and "set_error_desc fname line func msg code s = Some s' \<Longrightarrow> log_ok s'" by auto
qed

subsection \<open>Clearing the log\<close>

lemma clear_error_loop_eq:
  assumes "distinct rs" and "\<forall>r \<in> set rs. desc_ok (kmalloc_live s) (desc_at s) r" and "err_refs s = rs"
    and "\<forall>i < NUM_STATIC_ERR_DESC. is_static (desc_at s (Static_Desc i))"
  shows "clear_error_loop rs s = Some (s\<lparr>err_refs := [], kmalloc_live := kmalloc_live s - {a. Heap_Desc a \<in> set rs}\<rparr>)"
  using assms
proof (induction rs arbitrary: s)
  case (Cons r rs)
  show ?case
  proof (cases r)
    case (Static_Desc i)
    then have "is_static (desc_at s r)" using Cons.prems by (auto simp: desc_ok_def)
    then show ?thesis using Cons.IH [of "s\<lparr>err_refs := rs\<rparr>"] Cons.prems Static_Desc by simp
  next
    case (Heap_Desc a)
    let ?s = "s\<lparr>err_refs := rs, kmalloc_live := kmalloc_live s - {a}\<rparr>"
    have a: "\<not> is_static (desc_at s r)" "a \<in> kmalloc_live s" using Cons.prems Heap_Desc by (auto simp: desc_ok_def)
    have "\<forall>r \<in> set rs. desc_ok (kmalloc_live s - {a}) (desc_at s) r"
      using Cons.prems Heap_Desc by (auto simp: desc_ok_def split: desc_ref.splits)
    then have "clear_error_loop rs ?s = Some (?s\<lparr>err_refs := [],
        kmalloc_live := kmalloc_live s - {a} - {a. Heap_Desc a \<in> set rs}\<rparr>)"
      using Cons.IH [of ?s] Cons.prems by simp
    moreover have "kmalloc_live s - {a} - {b. Heap_Desc b \<in> set rs} = kmalloc_live s - {b. b = a \<or> Heap_Desc b \<in> set rs}"
      by auto
    ultimately show ?thesis using a Heap_Desc by (simp add: kfree_def ASSERT_bind)
  qed
qed (cases s, simp)

subsection \<open>Properties\<close>


definition fresh_log :: "addr list \<Rightarrow> u32 \<Rightarrow> err_state" where
  "fresh_log answers nest = \<lparr>cpu_id = 0, int_flag = True, error_list = [], error_descs = [],
     kmalloc_answers = answers, kmalloc_live = {}, err_refs = [], error_list_initialized = False,
     kmalloc_nest_level = nest,
     desc_at = (\<lambda>_. \<lparr>is_static = False, active = False, ed_file = 0, ed_line = 0, ed_func = 0, ed_message = 0,
       ed_code = ENONE\<rparr>)\<rparr>"

lemma fresh_log_ok: "distinct answers \<Longrightarrow> 0 \<notin> set answers \<Longrightarrow> log_ok (fresh_log answers nest)"
  by (auto simp: log_ok_def fresh_log_def heap_ok_def)

lemma fresh_log_view:
  "\<exists>v. set_error ENOMEM (log_view (fresh_log [0x1000] nest)) = Some v \<and> error_list v = [ENOMEM]"
  by (simp add: next_desc_def log_view_def fresh_log_def NUM_STATIC_ERR_DESC_def)


text \<open>
  C36: the log is well-typed after any operation: a listed descriptor never holds \<open>ENONE\<close>, a static one
  is marked static and active exactly while it is listed, and the others are live allocations marked as
  such. So clearing the log never passes a static descriptor to \<open>kfree\<close>, frees each of the others once,
  and makes all descriptors available again.
\<close>

theorem clear_error_gives_back:
  assumes "log_ok s" and "error_list_initialized s"
  shows "\<exists>s'. clear_error s = Some s' \<and> log_ok s' \<and> err_refs s' = [] \<and> int_flag s' = int_flag s \<and>
    kmalloc_live s' = kmalloc_live s - {a. Heap_Desc a \<in> set (err_refs s)} \<and>
    free_statics (desc_at s') = [0..<NUM_STATIC_ERR_DESC]"
proof -
  have refs: "refs_ok (err_refs s) (desc_at s) (kmalloc_live s)" and heap: "heap_ok s" using assms by (auto simp: log_ok_def)
  let ?s = "s\<lparr>int_flag := False\<rparr>"
  have "clear_error_loop (err_refs s) ?s =
      Some (?s\<lparr>err_refs := [], kmalloc_live := kmalloc_live s - {a. Heap_Desc a \<in> set (err_refs s)}\<rparr>)"
    using clear_error_loop_eq [of "err_refs s" ?s] refs by (simp add: refs_ok_def)
  then show ?thesis
    using assms heap
    by (simp add: clear_error_def get_irq_flag_and_disable_def cpu_set_interrupt_flag_def ASSERT_bind log_ok_def refs_ok_def
        reset_statically_allocated_error_desc_def reset_desc_loop_eq free_statics_def heap_ok_def)
qed

theorem clear_error_gives_back_witness:
  "\<exists>s s'. set_error_desc 0 7 0 0 ENOMEM (fresh_log [0x1000] 1) = Some s \<and> clear_error s = Some s' \<and> err_refs s' = [] \<and>
    free_statics (desc_at s') = [0..<4]"
proof -
  have ok: "log_ok (fresh_log [0x1000] 1)" by (rule fresh_log_ok) simp_all
  obtain v where v: "set_error ENOMEM (log_view (fresh_log [0x1000] 1)) = Some v" "error_list v = [ENOMEM]"
    using fresh_log_view by blast
  then obtain s where s: "set_error_desc 0 7 0 0 ENOMEM (fresh_log [0x1000] 1) = Some s" "log_view s = v"
    using set_error_desc_view(1) [OF ok, of 0 7 0 0 ENOMEM] by auto
  then have "log_ok s" "error_list_initialized s"
    using set_error_desc_view(2) [OF ok s(1)] v(2) by (auto simp: log_view_def split: if_splits)
  then show ?thesis using clear_error_gives_back [of s] s(1) by (auto simp: NUM_STATIC_ERR_DESC_def)
qed

text \<open>
  An error that is lost for want of a descriptor makes the next \<open>ENONE\<close> of its propagation a first error,
  and a panic if memory is available again by then.
\<close>

lemma lost_error_panics:
  assumes ok: "log_ok s" and empty: "\<not> error_list_initialized s" "kmalloc_nest_level s = 0"
    and answers: "kmalloc_answers s = 0 # a # as" "a \<noteq> 0"
  shows "Option.bind (set_error_desc fname line func msg ENOMEM s) (set_error_desc fname' line' func' msg' ENONE) = None"
proof -
  have "set_error ENOMEM (log_view s) = Some ((log_view s)\<lparr>error_descs := True # map (\<lambda>a. a \<noteq> 0) as\<rparr>)"
    using empty answers by (simp add: next_desc_def log_view_def)
  then obtain t where t: "set_error_desc fname line func msg ENOMEM s = Some t"
    "log_view t = (log_view s)\<lparr>error_descs := True # map (\<lambda>a. a \<noteq> 0) as\<rparr>"
    using set_error_desc_view(1) [OF ok, of fname line func msg ENOMEM] by auto
  have "set_error ENONE (log_view t) = None"
    using t(2) empty by (simp add: set_error_def next_desc_def log_view_def Let_def)
  then have "set_error_desc fname' line' func' msg' ENONE t = None"
    using set_error_desc_view(1) [OF set_error_desc_view(2) [OF ok t(1)], of fname' line' func' msg' ENONE] by simp
  then show ?thesis using t(1) by simp
qed

end
