(* ===== verification/Kernel_Memory.thy ===== *)
theory Kernel_Memory
  imports Kernel_Math
begin

text \<open>
  The byte loops of \<open>memory.c\<close> and \<open>string.c\<close> over a flat memory of bytes. Addresses are 32-bit
  words, so a region may wrap around the address space; \<open>a - to < len\<close> says that \<open>a\<close> is one of
  the \<open>len\<close> bytes from \<open>to\<close>. The string loops may run forever on memory without a terminator
  and are partial functions.
\<close>

subsection \<open>Memory\<close>

type_synonym memory = "addr \<Rightarrow> u8"

function memcpy_loop :: "addr \<Rightarrow> addr \<Rightarrow> u32 \<Rightarrow> u32 \<Rightarrow> memory \<Rightarrow> memory" where
  "memcpy_loop dst src len i m =
     (if i < len then memcpy_loop dst src len (i + 1) (m(dst + i := m (src + i))) else m)"
  by pat_completeness auto
termination
  by (relation "measure (\<lambda>(dst, src, len, i, m). unat len - unat i)") (auto simp: loop_measure)

definition memcpy :: "addr \<Rightarrow> addr \<Rightarrow> u32 \<Rightarrow> memory \<Rightarrow> memory" where
  "memcpy dst src len m = memcpy_loop dst src len 0 m"

function memset_loop :: "addr \<Rightarrow> u8 \<Rightarrow> u32 \<Rightarrow> u32 \<Rightarrow> memory \<Rightarrow> memory" where
  "memset_loop dst b len i m =
     (if i < len then memset_loop dst b len (i + 1) (m(dst + i := b)) else m)"
  by pat_completeness auto
termination
  by (relation "measure (\<lambda>(dst, b, len, i, m). unat len - unat i)") (auto simp: loop_measure)

definition memset :: "addr \<Rightarrow> u8 \<Rightarrow> u32 \<Rightarrow> memory \<Rightarrow> memory" where
  "memset dst b len m = memset_loop dst b len 0 m"

definition memzero :: "addr \<Rightarrow> u32 \<Rightarrow> memory \<Rightarrow> memory" where
  "memzero dst len m = memset dst 0 len m"

function memeq_loop :: "addr \<Rightarrow> addr \<Rightarrow> u32 \<Rightarrow> u32 \<Rightarrow> memory \<Rightarrow> bool" where
  "memeq_loop s1 s2 sz i m =
     (if i < sz then (if m s1 \<noteq> m s2 then False else memeq_loop (s1 + 1) (s2 + 1) sz (i + 1) m) else True)"
  by pat_completeness auto
termination
  by (relation "measure (\<lambda>(s1, s2, sz, i, m). unat sz - unat i)") (auto simp: loop_measure)

definition memeq :: "addr \<Rightarrow> addr \<Rightarrow> u32 \<Rightarrow> memory \<Rightarrow> bool" where
  "memeq s1 s2 sz m = memeq_loop s1 s2 sz 0 m"

text \<open>\<open>memdup\<close>; the allocator is a parameter that returns 0 when it fails.\<close>

definition memdup :: "(u32 \<Rightarrow> memory \<Rightarrow> addr \<times> memory) \<Rightarrow> addr \<Rightarrow> u32 \<Rightarrow> memory \<Rightarrow> addr \<times> memory" where
  "memdup kmalloc buf len m =
     (let (dup_buf, m) = kmalloc len m
      in (dup_buf, if dup_buf \<noteq> 0 then memcpy dup_buf buf len m else m))"

definition get_adjusted_addr :: "bool \<Rightarrow> bool \<Rightarrow> addr \<Rightarrow> addr \<Rightarrow> addr option" where
  "get_adjusted_addr paging higher_half kernel_end paddr =
     (if paging then do {
        ASSERT (paddr < to_phys kernel_end);
        Some (to_virt paddr) }
      else if higher_half then Some (to_virt paddr)
      else Some paddr)"

definition phy_read ::
  "bool \<Rightarrow> bool \<Rightarrow> addr \<Rightarrow> addr \<Rightarrow> addr \<Rightarrow> u32 \<Rightarrow> memory \<Rightarrow> memory option" where
  "phy_read paging higher_half kernel_end a dest sz m = do {
     adj \<leftarrow> get_adjusted_addr paging higher_half kernel_end a;
     Some (memcpy dest adj sz m) }"

definition phy_write ::
  "bool \<Rightarrow> bool \<Rightarrow> addr \<Rightarrow> addr \<Rightarrow> addr \<Rightarrow> u32 \<Rightarrow> memory \<Rightarrow> memory option" where
  "phy_write paging higher_half kernel_end a buf sz m = do {
     adj \<leftarrow> get_adjusted_addr paging higher_half kernel_end a;
     Some (memcpy adj buf sz m) }"

declare memcpy_loop.simps [simp del] memset_loop.simps [simp del] memeq_loop.simps [simp del]

subsection \<open>Strings\<close>

definition STR_NPOS :: u32 where
  "STR_NPOS = - 1"

partial_function (option) strlen_loop :: "memory \<Rightarrow> addr \<Rightarrow> u32 \<Rightarrow> u32 option" where
  "strlen_loop m str i = (if m (str + i) \<noteq> 0 then strlen_loop m str (i + 1) else Some i)"

definition strlen :: "memory \<Rightarrow> addr \<Rightarrow> u32 option" where
  "strlen m str = strlen_loop m str 0"

function strneq_loop :: "memory \<Rightarrow> addr \<Rightarrow> addr \<Rightarrow> u32 \<Rightarrow> u32 \<Rightarrow> bool" where
  "strneq_loop m str1 str2 n i =
     (if i < n then (if m (str1 + i) \<noteq> m (str2 + i) then False else strneq_loop m str1 str2 n (i + 1)) else True)"
  by pat_completeness auto
termination
  by (relation "measure (\<lambda>(m, str1, str2, n, i). unat n - unat i)") (auto simp: loop_measure)

definition strneq :: "memory \<Rightarrow> addr \<Rightarrow> addr \<Rightarrow> u32 \<Rightarrow> bool" where
  "strneq m str1 str2 n = strneq_loop m str1 str2 n 0"

definition streq :: "memory \<Rightarrow> addr \<Rightarrow> addr \<Rightarrow> bool option" where
  "streq m str1 str2 = do {
     len1 \<leftarrow> strlen m str1;
     len2 \<leftarrow> strlen m str2;
     Some (if len1 \<noteq> len2 then False else strneq m str1 str2 len1) }"

partial_function (option) find_chr_loop :: "memory \<Rightarrow> u8 \<Rightarrow> addr \<Rightarrow> addr option" where
  "find_chr_loop m ch cur =
     (if m cur \<noteq> 0 \<and> m cur \<noteq> ch then find_chr_loop m ch (cur + 1) else Some cur)"

definition str_find_chr :: "memory \<Rightarrow> addr \<Rightarrow> u8 \<Rightarrow> u32 \<Rightarrow> u32 option" where
  "str_find_chr m str ch begin = do {
     len \<leftarrow> strlen m str;
     if len \<le> begin then Some STR_NPOS
     else do {
       cur \<leftarrow> find_chr_loop m ch (str + begin);
       Some (if m cur = 0 then STR_NPOS else cur - str) } }"

definition strncpy :: "addr \<Rightarrow> addr \<Rightarrow> u32 \<Rightarrow> memory \<Rightarrow> memory" where
  "strncpy src dst len m = memcpy_loop dst src len 0 m"

declare strneq_loop.simps [simp del]

subsection \<open>What the memory loops do\<close>

lemma memcpy_loop_forward:
  assumes "\<And>j k. i \<le> j \<Longrightarrow> j < k \<Longrightarrow> k < len \<Longrightarrow> dst + j \<noteq> src + k"
  shows "memcpy_loop dst src len i m a =
    (if i \<le> a - dst \<and> a - dst < len then m (src + (a - dst)) else m a)"
  using assms
proof (induction dst src len i m rule: memcpy_loop.induct)
  case (1 dst src len i m)
  show ?case
  proof (cases "i < len")
    case False
    then have "\<not> (i \<le> a - dst \<and> a - dst < len)" by (meson leD le_less_trans)
    with False show ?thesis by (auto simp: memcpy_loop.simps [of dst src len i])
  next
    case True
    let ?m = "m(dst + i := m (src + i))"
    have later: "dst + j \<noteq> src + k" if "i + 1 \<le> j" "j < k" "k < len" for j k
      using "1.prems" [of j k] inc_le_iff [OF True, of j] that by simp
    have ih: "memcpy_loop dst src len (i + 1) ?m a =
        (if i < a - dst \<and> a - dst < len then ?m (src + (a - dst)) else ?m a)"
      using "1.IH" [OF True later] by (simp only: inc_le_iff [OF True])
    consider "a - dst = i" | "i < a - dst" "a - dst < len" | "a - dst \<noteq> i" "\<not> (i < a - dst \<and> a - dst < len)"
      by blast
    then show ?thesis
    proof cases
      case 1
      then have "a = dst + i" by (simp add: algebra_simps)
      with True ih show ?thesis by (simp add: memcpy_loop.simps [of dst src len i])
    next
      case 2
      then have "src + (a - dst) \<noteq> dst + i" using "1.prems" [of i "a - dst"] by auto
      with 2 True ih show ?thesis by (simp add: memcpy_loop.simps [of dst src len i] less_imp_le)
    next
      case 3
      then have "a \<noteq> dst + i" and "\<not> (i \<le> a - dst \<and> a - dst < len)" by auto
      with 3 True ih show ?thesis by (auto simp: memcpy_loop.simps [of dst src len i])
    qed
  qed
qed

lemma memset_loop_bytes:
  "memset_loop dst b len i m a = (if i \<le> a - dst \<and> a - dst < len then b else m a)"
proof (induction dst b len i m rule: memset_loop.induct)
  case (1 dst b len i m)
  show ?case
  proof (cases "i < len")
    case False
    then have "\<not> (i \<le> a - dst \<and> a - dst < len)" by (meson leD le_less_trans)
    with False show ?thesis by (auto simp: memset_loop.simps [of dst b len i])
  next
    case True
    have ih: "memset_loop dst b len (i + 1) (m(dst + i := b)) a =
        (if i < a - dst \<and> a - dst < len then b else (m(dst + i := b)) a)"
      using "1.IH" [OF True] by (simp only: inc_le_iff [OF True])
    show ?thesis
    proof (cases "a - dst = i")
      case eq: True
      then have "a = dst + i" by (simp add: algebra_simps)
      with True ih show ?thesis by (simp add: memset_loop.simps [of dst b len i])
    next
      case False
      then have "a \<noteq> dst + i" and "i \<le> a - dst \<longleftrightarrow> i < a - dst" by auto
      with True ih show ?thesis by (simp add: memset_loop.simps [of dst b len i])
    qed
  qed
qed

lemma memset_bytes: "memset dst b len m a = (if a - dst < len then b else m a)"
  by (simp add: memset_def memset_loop_bytes)

lemma memcpy_bytes:
  assumes "\<And>j k. j < k \<Longrightarrow> k < len \<Longrightarrow> dst + j \<noteq> src + k"
  shows "memcpy dst src len m a = (if a - dst < len then m (src + (a - dst)) else m a)"
  using memcpy_loop_forward [of 0 len dst src m a] assms by (simp add: memcpy_def)

lemma memeq_loop_bytes:
  "memeq_loop p q sz i m \<longleftrightarrow> (\<forall>k. i \<le> k \<and> k < sz \<longrightarrow> m (p + (k - i)) = m (q + (k - i)))"
proof (induction p q sz i m rule: memeq_loop.induct)
  case (1 p q sz i m)
  show ?case
  proof (cases "i < sz")
    case False
    then have "\<not> (i \<le> k \<and> k < sz)" for k by (meson leD le_less_trans)
    with False show ?thesis by (auto simp: memeq_loop.simps [of _ _ sz i])
  next
    case True
    have split: "i \<le> k \<and> k < sz \<longleftrightarrow> k = i \<or> (i < k \<and> k < sz)" for k
      using True by auto
    have "memeq_loop (p + 1) (q + 1) sz (i + 1) m \<longleftrightarrow>
        (\<forall>k. i < k \<and> k < sz \<longrightarrow> m (p + (k - i)) = m (q + (k - i)))" if "m p = m q"
    proof -
      have "r + 1 + (k - (i + 1)) = r + (k - i)" for r k :: addr by (simp add: algebra_simps)
      then show ?thesis using "1.IH" [OF True] that by (simp add: inc_le_iff [OF True])
    qed
    then show ?thesis
      unfolding split memeq_loop.simps [of p q sz i m] using True by auto
  qed
qed

lemma memeq_bytes: "memeq s1 s2 sz m \<longleftrightarrow> (\<forall>k < sz. m (s1 + k) = m (s2 + k))"
  using memeq_loop_bytes [of s1 s2 sz 0 m] by (simp add: memeq_def)

subsection \<open>What the string loops do\<close>

text \<open>\<open>n\<close> bytes from \<open>str\<close> that are not 0, then a 0.\<close>

definition cstring :: "memory \<Rightarrow> addr \<Rightarrow> u32 \<Rightarrow> bool" where
  "cstring m str n \<longleftrightarrow> (\<forall>i < n. m (str + i) \<noteq> 0) \<and> m (str + n) = 0"

lemma strlen_loop_cstring:
  assumes "cstring m str n" and "i \<le> n"
  shows "strlen_loop m str i = Some n"
  using assms(2)
proof (induction "unat n - unat i" arbitrary: i)
  case 0
  then have "i = n" by (simp add: word_unat_eq_iff word_le_nat_alt)
  with assms(1) show ?case by (simp add: strlen_loop.simps cstring_def)
next
  case (Suc d)
  then have lt: "i < n" by (auto simp: word_less_nat_alt)
  then have "d = unat n - unat (i + 1)" using Suc.hyps(2) unat_inc [OF lt] by simp
  then have "strlen_loop m str (i + 1) = Some n"
    using Suc.hyps(1) inc_le_iff [OF lt] lt by blast
  with lt assms(1) show ?case by (simp add: strlen_loop.simps [of m str i] cstring_def)
qed

lemma strlen_cstring: "cstring m str n \<Longrightarrow> strlen m str = Some n"
  using strlen_loop_cstring [of m str n 0] by (simp add: strlen_def)

lemma strneq_loop_bytes:
  "strneq_loop m s1 s2 n i \<longleftrightarrow> (\<forall>k. i \<le> k \<and> k < n \<longrightarrow> m (s1 + k) = m (s2 + k))"
proof (induction m s1 s2 n i rule: strneq_loop.induct)
  case (1 m s1 s2 n i)
  show ?case
  proof (cases "i < n")
    case False
    then have "\<not> (i \<le> k \<and> k < n)" for k by (meson leD le_less_trans)
    with False show ?thesis by (auto simp: strneq_loop.simps [of m s1 s2 n i])
  next
    case True
    have split: "i \<le> k \<and> k < n \<longleftrightarrow> k = i \<or> (i < k \<and> k < n)" for k
      using True by auto
    have "strneq_loop m s1 s2 n (i + 1) \<longleftrightarrow> (\<forall>k. i < k \<and> k < n \<longrightarrow> m (s1 + k) = m (s2 + k))"
      if "m (s1 + i) = m (s2 + i)"
      using "1.IH" [OF True] that by (simp add: inc_le_iff [OF True])
    then show ?thesis
      unfolding split strneq_loop.simps [of m s1 s2 n i] using True by auto
  qed
qed

lemma strneq_bytes: "strneq m s1 s2 n \<longleftrightarrow> (\<forall>k < n. m (s1 + k) = m (s2 + k))"
  by (simp add: strneq_def strneq_loop_bytes)

lemma find_chr_loop_first:
  assumes "\<forall>k. i \<le> k \<and> k < n \<longrightarrow> m (str + k) \<noteq> 0 \<and> m (str + k) \<noteq> ch"
    and "m (str + n) = 0 \<or> m (str + n) = ch" and "i \<le> n"
  shows "find_chr_loop m ch (str + i) = Some (str + n)"
  using assms(1,3)
proof (induction "unat n - unat i" arbitrary: i)
  case 0
  then have "i = n" by (simp add: word_unat_eq_iff word_le_nat_alt)
  then show ?case
    unfolding find_chr_loop.simps [of m ch "str + i"] using assms(2) by auto
next
  case (Suc d)
  then have lt: "i < n" by (auto simp: word_less_nat_alt)
  have d: "d = unat n - unat (i + 1)" using Suc.hyps(2) unat_inc [OF lt] by simp
  have rest: "\<forall>k. i + 1 \<le> k \<and> k < n \<longrightarrow> m (str + k) \<noteq> 0 \<and> m (str + k) \<noteq> ch"
  proof (intro allI impI)
    fix k assume "i + 1 \<le> k \<and> k < n"
    then have "i \<le> k \<and> k < n" using inc_le_iff [OF lt, of k] by (simp add: less_imp_le)
    with Suc.prems(1) show "m (str + k) \<noteq> 0 \<and> m (str + k) \<noteq> ch" by blast
  qed
  have "find_chr_loop m ch (str + (i + 1)) = Some (str + n)"
    using Suc.hyps(1) [OF d rest] inc_le_iff [OF lt] lt by blast
  moreover have "m (str + i) \<noteq> 0 \<and> m (str + i) \<noteq> ch" using Suc.prems(1) lt by blast
  ultimately show ?case by (simp add: find_chr_loop.simps [of m ch "str + i"] add.assoc)
qed

subsection \<open>Properties\<close>

text \<open>
  C25: \<open>memcpy\<close> copies the source region into the destination and writes nothing else, whenever
  no source byte is overwritten before it is read: for disjoint regions and for a destination
  that overlaps the source from below. \<open>memset\<close> fills exactly its region, and \<open>memeq\<close> then finds
  a copied region equal to its source when the two are disjoint.
\<close>

theorem memcpy_region:
  assumes "\<And>j k. j < k \<Longrightarrow> k < len \<Longrightarrow> dst + j \<noteq> src + k"
  shows "(\<forall>a. memcpy dst src len m a = (if a - dst < len then m (src + (a - dst)) else m a)) \<and>
    (\<forall>a b. memset dst b len m a = (if a - dst < len then b else m a)) \<and>
    ((\<forall>j k. j < len \<longrightarrow> k < len \<longrightarrow> dst + j \<noteq> src + k) \<longrightarrow> memeq dst src len (memcpy dst src len m))"
proof (intro conjI allI impI)
  show copy: "memcpy dst src len m a = (if a - dst < len then m (src + (a - dst)) else m a)" for a
    using assms by (rule memcpy_bytes)
  show "memset dst b len m a = (if a - dst < len then b else m a)" for a b
    by (rule memset_bytes)
  assume dis: "\<forall>j k. j < len \<longrightarrow> k < len \<longrightarrow> dst + j \<noteq> src + k"
  have "\<not> src + k - dst < len" if "k < len" for k
  proof
    assume "src + k - dst < len"
    with dis that have "dst + (src + k - dst) \<noteq> src + k" by blast
    then show False by (simp add: algebra_simps)
  qed
  then show "memeq dst src len (memcpy dst src len m)"
    by (simp add: memeq_bytes copy)
qed

theorem memcpy_region_witness:
  "memcpy 16 8 4 (\<lambda>a. ucast a) 17 = 9 \<and> memcpy 16 8 4 (\<lambda>a. ucast a) 20 = 20"
proof -
  have apart: "(16 :: addr) + j \<noteq> 8 + k" if "j < k" "k < 4" for j k
  proof
    assume "16 + j = 8 + k"
    then have "k = 16 + j - 8" by (simp only: add_diff_cancel_left')
    then have "k = j + 8" by simp
    moreover have "unat (j + 8) = unat j + 8" using that by (simp add: word_less_nat_alt unat_add_no_overflow)
    ultimately show False using that by (simp add: word_less_nat_alt)
  qed
  have "\<forall>a. memcpy 16 8 4 (\<lambda>a. ucast a) a = (if a - 16 < 4 then ucast (8 + (a - 16)) else ucast a)"
    using memcpy_region [of 4 16 8 "\<lambda>a. ucast a"] apart by blast
  then show ?thesis by simp
qed

end
