(* ===== verification/Byte_Buffers.thy ===== *)
theory Byte_Buffers
  imports Kernel_Memory
begin

text \<open>
  Buffers as lists of bytes. The components that only ever handle whole buffers (disks, archives,
  files, tables of the firmware) use these instead of a flat memory: \<open>memcpy_buf\<close>, \<open>memzero_buf\<close>,
  \<open>strlen_buf\<close>, \<open>strneq_buf\<close> and \<open>streq_buf\<close> have no result when they would touch a byte outside of
  a buffer. The last section shows that they do what the functions of \<open>memory.c\<close> and \<open>string.c\<close> do
  to memory that holds the buffers.
\<close>

subsection \<open>Copying and clearing\<close>

definition memcpy_buf :: "u8 list \<Rightarrow> nat \<Rightarrow> u8 list \<Rightarrow> nat \<Rightarrow> nat \<Rightarrow> u8 list option" where
  "memcpy_buf dst d src s n =
     (if d + n \<le> length dst \<and> s + n \<le> length src
      then Some (take d dst @ take n (drop s src) @ drop (d + n) dst) else None)"

definition memzero_buf :: "u8 list \<Rightarrow> nat \<Rightarrow> u8 list option" where
  "memzero_buf buf n = (if n \<le> length buf then Some (replicate n 0 @ drop n buf) else None)"

lemma memcpy_buf_length: "memcpy_buf dst d src s n = Some r \<Longrightarrow> length r = length dst"
  by (auto simp: memcpy_buf_def split: if_splits)

text \<open>Copying the next piece of \<open>G\<close> behind the pieces already in the buffer.\<close>

lemma memcpy_buf_append:
  assumes "w + c \<le> length G" and "w + c \<le> length b" and "s + c \<le> length src"
    and "take c (drop s src) = take c (drop w G)"
  shows "memcpy_buf (take w G @ drop w b) w src s c = Some (take (w + c) G @ drop (w + c) b)"
proof -
  have "drop (w + c) (take w G @ drop w b) = drop (w + c) b"
    using assms(1,2) by (simp add: add.commute)
  then show ?thesis
    using assms by (simp add: memcpy_buf_def take_add [of w c])
qed

text \<open>Replacing bytes inside of one sector, and after the bytes already replaced.\<close>

definition put_bytes :: "'a list \<Rightarrow> nat \<Rightarrow> 'a list \<Rightarrow> 'a list" where
  "put_bytes F p xs = take p F @ xs @ drop (p + length xs) F"

lemma put_bytes_length [simp]: "p + length xs \<le> length F \<Longrightarrow> length (put_bytes F p xs) = length F"
  by (simp add: put_bytes_def)

lemma put_bytes_Nil [simp]: "put_bytes F p [] = F"
  by (simp add: put_bytes_def)

lemma put_bytes_append:
  assumes "p + length xs + length ys \<le> length F"
  shows "put_bytes (put_bytes F p xs) (p + length xs) ys = put_bytes F p (xs @ ys)"
  using assms by (simp add: put_bytes_def add.assoc add.commute add.left_commute)

lemma put_bytes_next:
  assumes "w \<le> w'" and "w' \<le> length b" and "p + w' \<le> length F"
  shows "put_bytes (put_bytes F p (take w b)) (p + w) (take (w' - w) (drop w b)) = put_bytes F p (take w' b)"
proof -
  have "take w b @ take (w' - w) (drop w b) = take w' b"
    using assms(1) take_add [of w "w' - w" b] by simp
  moreover have "length (take w b) = w" using assms by simp
  ultimately show ?thesis
    using put_bytes_append [of p "take w b" "take (w' - w) (drop w b)" F] assms by simp
qed

lemma put_bytes_sector:
  assumes "p + S \<le> length F" and "so + length x \<le> S"
  shows "put_bytes F p (put_bytes (take S (drop p F)) so x) = put_bytes F (p + so) x"
proof -
  have "length (put_bytes (take S (drop p F)) so x) = S"
    using assms by simp
  then have "put_bytes F p (put_bytes (take S (drop p F)) so x) =
      take p F @ (take so (take S (drop p F)) @ x @ drop (so + length x) (take S (drop p F))) @ drop (p + S) F"
    by (simp add: put_bytes_def)
  also have "\<dots> = take (p + so) F @ x @ (drop (so + length x) (take S (drop p F)) @ drop (p + S) F)"
    using assms by (simp add: take_add)
  also have "drop (so + length x) (take S (drop p F)) @ drop (p + S) F = drop (p + so + length x) F"
  proof -
    have "drop (p + S) F = drop (S - (so + length x)) (drop (p + so + length x) F)"
      using assms by (simp add: add.commute add.left_commute)
    moreover have "drop (so + length x) (take S (drop p F)) =
        take (S - (so + length x)) (drop (p + so + length x) F)"
      by (simp add: drop_take add.commute add.left_commute)
    ultimately show ?thesis by (simp only: append_take_drop_id)
  qed
  finally show ?thesis by (simp add: put_bytes_def)
qed

lemma memcpy_buf_put:
  "d + n \<le> length dst \<Longrightarrow> s + n \<le> length src \<Longrightarrow>
    memcpy_buf dst d src s n = Some (put_bytes dst d (take n (drop s src)))"
  by (simp add: memcpy_buf_def put_bytes_def)

subsection \<open>Strings\<close>

fun strlen_buf :: "u8 list \<Rightarrow> nat option" where
  "strlen_buf [] = None"
| "strlen_buf (c # cs) = (if c \<noteq> 0 then map_option Suc (strlen_buf cs) else Some 0)"

fun strneq_buf :: "u8 list \<Rightarrow> u8 list \<Rightarrow> nat \<Rightarrow> bool option" where
  "strneq_buf xs ys 0 = Some True"
| "strneq_buf (x # xs) (y # ys) (Suc n) = (if x \<noteq> y then Some False else strneq_buf xs ys n)"
| "strneq_buf xs ys (Suc n) = None"

definition streq_buf :: "u8 list \<Rightarrow> u8 list \<Rightarrow> bool option" where
  "streq_buf xs ys = do {
     len1 \<leftarrow> strlen_buf xs;
     len2 \<leftarrow> strlen_buf ys;
     if len1 \<noteq> len2 then Some False else strneq_buf xs ys len1 }"

text \<open>A buffer that starts with the string \<open>s\<close> and its terminator.\<close>

definition holds_string :: "u8 list \<Rightarrow> u8 list \<Rightarrow> bool" where
  "holds_string buf s \<longleftrightarrow> 0 \<notin> set s \<and> (\<exists>rest. buf = s @ 0 # rest)"

lemma strlen_buf_append: "0 \<notin> set s \<Longrightarrow> strlen_buf (s @ 0 # rest) = Some (length s)"
  by (induction s) auto

lemma strlen_buf_holds: "holds_string buf s \<Longrightarrow> strlen_buf buf = Some (length s)"
  by (auto simp: holds_string_def strlen_buf_append)

lemma strneq_buf_prefix:
  assumes "n \<le> length xs" and "n \<le> length ys"
  shows "strneq_buf xs ys n = Some (take n xs = take n ys)"
  using assms by (induction xs ys n rule: strneq_buf.induct) auto

lemma streq_buf_holds:
  assumes "holds_string a s" and "holds_string b t"
  shows "streq_buf a b = Some (s = t)"
proof -
  have "strneq_buf a b (length s) = Some (s = t)" if "length s = length t"
    using assms that by (auto simp: holds_string_def strneq_buf_prefix)
  then show ?thesis
    using strlen_buf_holds [OF assms(1)] strlen_buf_holds [OF assms(2)] by (auto simp: streq_buf_def)
qed

lemma holds_string_take: "holds_string buf s \<Longrightarrow> take (length s) buf = s"
  by (auto simp: holds_string_def)

subsection \<open>Buffers in memory\<close>

definition holds_buf :: "memory \<Rightarrow> addr \<Rightarrow> u8 list \<Rightarrow> bool" where
  "holds_buf m a buf \<longleftrightarrow> length buf < 2 ^ 32 \<and> (\<forall>i < length buf. m (a + of_nat i) = buf ! i)"

lemma of_nat_window:
  assumes "i < 2 ^ 32" and "d + n < 2 ^ 32"
  shows "(of_nat i - of_nat d < (of_nat n :: u32)) \<longleftrightarrow> d \<le> i \<and> i < d + n"
proof (cases "d \<le> i")
  case True
  then have "(of_nat i - of_nat d :: u32) = of_nat (i - d)" by (simp add: of_nat_diff)
  moreover have "unat (of_nat (i - d) :: u32) = i - d" and "unat (of_nat n :: u32) = n"
    using assms by (simp_all add: unat_of_nat_bounded)
  ultimately show ?thesis using True by (auto simp: word_less_nat_alt)
next
  case False
  have "(of_nat (2 ^ 32 + i - d) :: u32) = of_nat (2 ^ 32 + i) - of_nat d"
    using assms False by (intro of_nat_diff) simp
  moreover have "(of_nat (2 ^ 32 + i) :: u32) = of_nat i"
  proof -
    have "(4294967296 :: u32) = 0" by simp
    then show ?thesis by (simp only: of_nat_add of_nat_power of_nat_numeral) simp
  qed
  ultimately have "(of_nat i - of_nat d :: u32) = of_nat (2 ^ 32 + i - d)" by simp
  moreover have "unat (of_nat (2 ^ 32 + i - d) :: u32) = 2 ^ 32 + i - d"
    using assms False by (intro unat_of_nat_bounded) simp
  ultimately have "unat (of_nat i - of_nat d :: u32) = 2 ^ 32 + i - d" by (simp only:)
  moreover have "unat (of_nat n :: u32) = n"
    using assms by (simp add: unat_of_nat_bounded)
  ultimately show ?thesis using assms False by (simp add: word_less_nat_alt)
qed

lemma holds_buf_nth: "holds_buf m a buf \<Longrightarrow> i < length buf \<Longrightarrow> m (a + of_nat i) = buf ! i"
  by (simp add: holds_buf_def)

lemma strlen_buf_nth:
  assumes "strlen_buf buf = Some n"
  shows "n < length buf \<and> buf ! n = 0 \<and> (\<forall>i < n. buf ! i \<noteq> 0)"
  using assms by (induction buf arbitrary: n) (auto split: if_splits simp: less_Suc_eq_0_disj)

lemma strlen_buf_cstring:
  assumes "holds_buf m a buf" and "strlen_buf buf = Some n"
  shows "cstring m a (of_nat n)"
proof -
  have n: "n < length buf" "buf ! n = 0" "\<And>i. i < n \<Longrightarrow> buf ! i \<noteq> 0"
    using strlen_buf_nth [OF assms(2)] by auto
  have un: "unat (of_nat n :: u32) = n"
    using n(1) assms(1) by (simp add: holds_buf_def unat_of_nat_bounded)
  have "m (a + i) \<noteq> 0" if "i < of_nat n" for i
  proof -
    have "unat i < n" using that un by (simp add: word_less_nat_alt)
    then show ?thesis using holds_buf_nth [OF assms(1), of "unat i"] n by simp
  qed
  moreover have "m (a + of_nat n) = 0"
    using holds_buf_nth [OF assms(1) n(1)] n(2) by simp
  ultimately show ?thesis by (simp add: cstring_def)
qed

lemma streq_holds:
  assumes "holds_buf m a xs" and "holds_buf m b ys" and "streq_buf xs ys = Some r"
  shows "streq m a b = Some r"
proof -
  obtain k l where k: "strlen_buf xs = Some k" and l: "strlen_buf ys = Some l"
    and r: "(if k \<noteq> l then Some False else strneq_buf xs ys k) = Some r"
    using assms(3) by (auto simp: streq_buf_def elim!: bind_Some_elim)
  have lt: "k < length xs" "l < length ys" using strlen_buf_nth [OF k] strlen_buf_nth [OF l] by simp_all
  have un: "unat (of_nat k :: u32) = k" "unat (of_nat l :: u32) = l"
    using lt assms(1,2) by (simp_all add: holds_buf_def unat_of_nat_bounded)
  then have kl: "(of_nat k :: u32) = of_nat l \<longleftrightarrow> k = l" by (metis word_unat_eq_iff)
  have same: "strneq m a b (of_nat k) \<longleftrightarrow> take k xs = take k ys" if "k = l"
  proof -
    have "strneq m a b (of_nat k) \<longleftrightarrow> (\<forall>j < k. m (a + of_nat j) = m (b + of_nat j))"
    proof -
      have "(\<forall>i < of_nat k. m (a + i) = m (b + i)) \<longleftrightarrow> (\<forall>j < k. m (a + of_nat j) = m (b + of_nat j))"
      proof (intro iffI allI impI)
        fix j assume "\<forall>i < of_nat k. m (a + i) = m (b + i)" "j < k"
        moreover from \<open>j < k\<close> have "(of_nat j :: u32) < of_nat k"
          using un(1) lt(1) assms(1) by (simp add: word_less_nat_alt holds_buf_def unat_of_nat_bounded)
        ultimately show "m (a + of_nat j) = m (b + of_nat j)" by blast
      next
        fix i :: u32 assume all: "\<forall>j < k. m (a + of_nat j) = m (b + of_nat j)" and "i < of_nat k"
        then have "unat i < k" using un(1) by (simp add: word_less_nat_alt)
        with all show "m (a + i) = m (b + i)" by (metis of_nat_unat ucast_id)
      qed
      then show ?thesis by (simp add: strneq_bytes)
    qed
    also have "\<dots> \<longleftrightarrow> (\<forall>j < k. xs ! j = ys ! j)"
      using lt that holds_buf_nth [OF assms(1)] holds_buf_nth [OF assms(2)] by simp
    finally show ?thesis
      using lt that by (simp add: list_eq_iff_nth_eq)
  qed
  show ?thesis
    using r same lt kl strlen_cstring [OF strlen_buf_cstring [OF assms(1) k]]
      strlen_cstring [OF strlen_buf_cstring [OF assms(2) l]]
    by (auto simp: streq_def strneq_buf_prefix split: if_splits)
qed

lemma memcpy_holds:
  assumes dst: "holds_buf m a dst" and src: "holds_buf m b src"
    and apart: "\<And>i j. i < length dst \<Longrightarrow> j < length src \<Longrightarrow> a + of_nat i \<noteq> b + of_nat j"
    and cpy: "memcpy_buf dst d src s n = Some r"
  shows "holds_buf (memcpy (a + of_nat d) (b + of_nat s) (of_nat n) m) a r"
proof -
  have len: "d + n \<le> length dst" "s + n \<le> length src" "r = put_bytes dst d (take n (drop s src))"
    using cpy by (auto simp: memcpy_buf_def put_bytes_def split: if_splits)
  have lr: "length r = length dst" using cpy by (rule memcpy_buf_length)
  have lt: "length dst < 2 ^ 32" "length src < 2 ^ 32" using dst src by (simp_all add: holds_buf_def)
  have un: "unat (of_nat n :: u32) = n" using len lt by (simp add: unat_of_nat_bounded)
  have copy: "memcpy (a + of_nat d) (b + of_nat s) (of_nat n) m x =
      (if x - (a + of_nat d) < of_nat n then m (b + of_nat s + (x - (a + of_nat d))) else m x)" for x
  proof (rule memcpy_bytes)
    fix j k :: u32 assume "j < k" "k < of_nat n"
    then have "d + unat j < length dst" "s + unat k < length src"
      using len un by (simp_all add: word_less_nat_alt)
    from apart [OF this] show "a + of_nat d + j \<noteq> b + of_nat s + k" by (simp add: add.assoc)
  qed
  have "memcpy (a + of_nat d) (b + of_nat s) (of_nat n) m (a + of_nat i) = r ! i" if i: "i < length dst" for i
  proof -
    have diff: "a + of_nat i - (a + of_nat d) = of_nat i - (of_nat d :: u32)" by simp
    have win: "(of_nat i - of_nat d < (of_nat n :: u32)) \<longleftrightarrow> d \<le> i \<and> i < d + n"
      using i lt len by (intro of_nat_window) simp_all
    have "b + of_nat s + (of_nat i - of_nat d) = b + of_nat (s + (i - d))" if "d \<le> i"
      using that by (simp add: of_nat_diff)
    then show ?thesis
      unfolding copy diff win len(3) put_bytes_def
      using i len(1,2) holds_buf_nth [OF dst i] holds_buf_nth [OF src, of "s + (i - d)"]
      by (auto simp: nth_append add.assoc)
  qed
  then show ?thesis using lt lr by (simp add: holds_buf_def)
qed

text \<open>
  C31: The operations on buffers are those of the C library of the kernel on memory that holds the
  buffers: \<open>strlen\<close> and \<open>streq\<close> return what the buffer functions return, and after \<open>memcpy\<close> between
  two disjoint buffers memory holds the resulting buffer.
\<close>

theorem buffer_functions_agree:
  assumes "holds_buf m a xs" and "holds_buf m b ys"
    and "\<And>i j. i < length xs \<Longrightarrow> j < length ys \<Longrightarrow> a + of_nat i \<noteq> b + of_nat j"
  shows "(strlen_buf xs = Some k \<longrightarrow> strlen m a = Some (of_nat k)) \<and>
    (streq_buf xs ys = Some r \<longrightarrow> streq m a b = Some r) \<and>
    (memcpy_buf xs d ys s n = Some zs \<longrightarrow>
      holds_buf (memcpy (a + of_nat d) (b + of_nat s) (of_nat n) m) a zs)"
  using strlen_cstring strlen_buf_cstring [OF assms(1)] streq_holds [OF assms(1,2)] memcpy_holds [OF assms]
  by blast

theorem buffer_functions_agree_witness:
  "streq (\<lambda>a. if a = 8 \<or> a = 16 then 97 else 0) 8 16 = Some True \<and>
   strlen (\<lambda>a. if a = 8 \<or> a = 16 then 97 else 0) 8 = Some 1"
proof -
  let ?m = "\<lambda>a :: addr. if a = 8 \<or> a = 16 then 97 else 0 :: u8"
  have "holds_buf ?m 8 [97, 0]" and "holds_buf ?m 16 [97, 0]"
    by (auto simp: holds_buf_def less_Suc_eq)
  moreover have "(8 :: addr) + of_nat i \<noteq> 16 + of_nat j"
    if "i < length [97, 0 :: u8]" "j < length [97, 0 :: u8]" for i j
    using that by (auto simp: less_Suc_eq)
  ultimately show ?thesis
    using buffer_functions_agree [of ?m 8 "[97, 0]" 16 "[97, 0]" 1 True]
    by (simp add: streq_buf_def)
qed

end
