(* ===== verification/Disk_Io.thy ===== *)
theory Disk_Io
  imports Cpu_Locks Byte_Buffers
begin

text \<open>
  Byte access to sector devices: \<open>disk_read\<close> and \<open>disk_write\<close> of \<open>disk.c\<close> over any
  \<open>struct disk_ops\<close>, and the memory disks of \<open>memdisk.c\<close>. Buffers are lists of bytes; touching a
  byte outside of a buffer has no result. The contract of a driver is the locale
  \<open>sector_device\<close>, under which the two functions are reads and writes of one flat list of bytes;
  memory disks are an instance.
\<close>

subsection \<open>Disks\<close>

text \<open>
  \<open>struct disk_ops\<close>: the sector size, and reading into and writing from a buffer. Each returns the
  number of bytes moved; reading also returns the buffer, writing the disk.
\<close>

record 'd disk_ops =
  sector_size :: "'d \<Rightarrow> u32"
  read_sector :: "'d \<Rightarrow> u64 \<Rightarrow> u8 list \<Rightarrow> (u32 \<times> u8 list) option"
  write_sector :: "'d \<Rightarrow> u64 \<Rightarrow> u8 list \<Rightarrow> (u32 \<times> 'd) option"

definition offset_to_sector :: "u64 \<Rightarrow> u32 \<Rightarrow> u64" where
  "offset_to_sector offset sec_size = offset div ucast sec_size"

definition sector_to_offset :: "u64 \<Rightarrow> u32 \<Rightarrow> u64" where
  "sector_to_offset sec sec_size = sec * ucast sec_size"

text \<open>The offset into the first sector, as the code computes it.\<close>

definition start_offset_in :: "u64 \<Rightarrow> u64 \<Rightarrow> u32 \<Rightarrow> u64 \<Rightarrow> u32 option" where
  "start_offset_in sector start ss offset =
     (if sector = start then do {
        ASSERT (sector_to_offset sector ss \<le> offset);
        Some (ucast (offset - sector_to_offset sector ss)) }
      else Some 0)"

text \<open>
  The loop of \<open>disk_read\<close>. The sector counter is a 64-bit word, so the loop is a partial function;
  \<open>written\<close> is the number of bytes delivered so far.
\<close>

partial_function (option) disk_read_loop ::
  "'d disk_ops \<Rightarrow> 'd \<Rightarrow> u32 \<Rightarrow> u64 \<Rightarrow> u32 \<Rightarrow> u64 \<Rightarrow> u64 \<Rightarrow> u64 \<Rightarrow> u8 list \<Rightarrow> u8 list \<Rightarrow> u32 \<Rightarrow>
   (u32 \<times> u8 list) option" where
  "disk_read_loop ops disk ss offset len start_sector end_sector sector sector_data buf written =
     (if sector \<le> end_sector then do {
        sector_data \<leftarrow> memzero_buf sector_data (unat ss);
        (rd, sector_data) \<leftarrow> read_sector ops disk sector sector_data;
        if rd = 0 then Some (written, buf)
        else do {
          ASSERT (rd = ss);
          start_offset \<leftarrow> start_offset_in sector start_sector ss offset;
          ASSERT (start_offset < ss);
          ASSERT (written \<le> len);
          let remaining = len - written;
          let copy_len = min_u32 remaining (ss - start_offset);
          buf \<leftarrow> memcpy_buf buf (unat written) sector_data (unat start_offset) (unat copy_len);
          disk_read_loop ops disk ss offset len start_sector end_sector (sector + 1) sector_data buf
            (written + copy_len) } }
      else Some (written, buf))"

text \<open>
  \<open>disk_read\<close> returns the number of bytes read and the buffer. \<open>kmalloc\<close> is given the size of the
  sector buffer; running out of memory is a panic here. A sector size of 0 is a division by zero.
\<close>

definition disk_read ::
  "(u32 \<Rightarrow> u8 list option) \<Rightarrow> 'd disk_ops \<Rightarrow> 'd \<Rightarrow> u64 \<Rightarrow> u8 list \<Rightarrow> u32 \<Rightarrow> (u32 \<times> u8 list) option" where
  "disk_read kmalloc ops disk offset buf len =
     (if len = 0 then Some (0, buf)
      else do {
        let ss = sector_size ops disk;
        ASSERT (ss \<noteq> 0);
        let start_sector = offset_to_sector offset ss;
        let end_sector = offset_to_sector (offset + ucast len - 1) ss;
        sector_data \<leftarrow> kmalloc ss;
        disk_read_loop ops disk ss offset len start_sector end_sector start_sector sector_data buf 0 })"

text \<open>The first and the last sector may be updated in part only.\<close>

definition partial_round :: "u64 \<Rightarrow> u64 \<Rightarrow> u64 \<Rightarrow> u32 \<Rightarrow> u64 \<Rightarrow> u32 \<Rightarrow> bool" where
  "partial_round k start final ss offset len \<longleftrightarrow>
     (k = start \<and> offset mod ucast ss \<noteq> 0) \<or> (k = final \<and> (offset + ucast len) mod ucast ss \<noteq> 0)"

text \<open>Where a partial update starts in its sector, and its length.\<close>

definition update_c_off :: "u64 \<Rightarrow> u32 \<Rightarrow> u64 \<Rightarrow> u32 \<Rightarrow> u32" where
  "update_c_off sector ss offset written =
     (let sec_start_off = sector_to_offset sector ss
      in ucast (offset + ucast written - sec_start_off))"

definition update_cpy_len :: "u64 \<Rightarrow> u32 \<Rightarrow> u64 \<Rightarrow> u32 \<Rightarrow> u32 \<Rightarrow> u32" where
  "update_cpy_len sector ss offset len written =
     (let sec_start_off = sector_to_offset sector ss;
          next_start_off = sector_to_offset (sector + 1) ss;
          c_off = update_c_off sector ss offset written
      in min_u32 (ucast (next_start_off - (sec_start_off + ucast c_off))) (len - written))"

partial_function (option) disk_write_loop ::
  "(u32 \<Rightarrow> u8 list option) \<Rightarrow> 'd disk_ops \<Rightarrow> u32 \<Rightarrow> u64 \<Rightarrow> u32 \<Rightarrow> u64 \<Rightarrow> u64 \<Rightarrow> u8 list \<Rightarrow> u64 \<Rightarrow> 'd \<Rightarrow> u32 \<Rightarrow>
   (u32 \<times> 'd) option" where
  "disk_write_loop kmalloc ops ss offset len start_sector end_sector buf sector disk written =
     (if sector \<le> end_sector then
        (if partial_round sector start_sector end_sector ss offset len then do {
           cur \<leftarrow> kmalloc ss;
           (rd, cur) \<leftarrow> read_sector ops disk sector cur;
           if rd \<noteq> ss then Some (written, disk)
           else do {
             let c_off = update_c_off sector ss offset written;
             let cpy_len = update_cpy_len sector ss offset len written;
             cur \<leftarrow> memcpy_buf cur (unat c_off) buf (unat written) (unat cpy_len);
             (res, disk) \<leftarrow> write_sector ops disk sector cur;
             if res \<noteq> ss then Some (written, disk)
             else disk_write_loop kmalloc ops ss offset len start_sector end_sector buf (sector + 1) disk
                    (written + cpy_len) } }
         else do {
           ASSERT (written < len);
           ASSERT (unat written + unat ss \<le> unat len);
           (res, disk) \<leftarrow> write_sector ops disk sector (drop (unat written) buf);
           if res \<noteq> ss then Some (written + res, disk)
           else disk_write_loop kmalloc ops ss offset len start_sector end_sector buf (sector + 1) disk
                  (written + res) })
      else Some (written, disk))"

definition disk_write ::
  "(u32 \<Rightarrow> u8 list option) \<Rightarrow> 'd disk_ops \<Rightarrow> 'd \<Rightarrow> u64 \<Rightarrow> u8 list \<Rightarrow> u32 \<Rightarrow> (u32 \<times> 'd) option" where
  "disk_write kmalloc ops disk offset buf len =
     (if len = 0 then Some (0, disk)
      else do {
        let ss = sector_size ops disk;
        ASSERT (ss \<noteq> 0);
        let start_sector = offset_to_sector offset ss;
        let end_sector = offset_to_sector (offset + ucast len - 1) ss;
        disk_write_loop kmalloc ops ss offset len start_sector end_sector buf start_sector disk 0 })"

subsection \<open>Memory disks\<close>

text \<open>\<open>struct memdisk_data\<close>; \<open>md_bytes\<close> is the memory at \<open>mapped_addr\<close>.\<close>

record memdisk_data =
  md_bytes :: "u8 list"
  md_size :: u32
  md_read_only :: bool

definition MEMDISK_SEC_SIZE :: u32 where
  "MEMDISK_SEC_SIZE = 512"

definition memdisk_sector_size :: "memdisk_data \<Rightarrow> u32" where
  "memdisk_sector_size disk = MEMDISK_SEC_SIZE"

text \<open>
  \<open>do_update\<close>: the buffer and the disk after the call. The kernel only builds memory disks whose
  memory covers their size; beyond it the copy would overrun, which has no result.
\<close>

definition do_update ::
  "memdisk_data \<Rightarrow> u64 \<Rightarrow> u8 list \<Rightarrow> bool \<Rightarrow> (u32 \<times> u8 list \<times> memdisk_data) option" where
  "do_update data sector_index buf is_read =
     (if \<not> is_read \<and> md_read_only data then Some (0, buf, data)
      else do {
        let sector_sz = MEMDISK_SEC_SIZE;
        let sz = md_size data;
        end_sector \<leftarrow> ceil_x_over_y_u32 sz sector_sz;
        if ucast end_sector \<le> sector_index then Some (0, buf, data)
        else do {
          let offset = (ucast (sector_index * ucast sector_sz) :: u32);
          let len = min_u32 sector_sz (sz - offset);
          buf \<leftarrow> (if len < sector_sz \<and> is_read then memzero_buf buf (unat sector_sz) else Some buf);
          if is_read then do {
            buf \<leftarrow> memcpy_buf buf 0 (md_bytes data) (unat offset) (unat len);
            Some (sector_sz, buf, data) }
          else do {
            bytes \<leftarrow> memcpy_buf (md_bytes data) (unat offset) buf 0 (unat len);
            Some (sector_sz, buf, data\<lparr>md_bytes := bytes\<rparr>) } } })"

definition memdisk_read_sector :: "memdisk_data \<Rightarrow> u64 \<Rightarrow> u8 list \<Rightarrow> (u32 \<times> u8 list) option" where
  "memdisk_read_sector disk sector_index buf =
     map_option (\<lambda>(n, buf, disk). (n, buf)) (do_update disk sector_index buf True)"

definition memdisk_write_sector :: "memdisk_data \<Rightarrow> u64 \<Rightarrow> u8 list \<Rightarrow> (u32 \<times> memdisk_data) option" where
  "memdisk_write_sector disk sector_index buf =
     map_option (\<lambda>(n, buf, disk). (n, disk)) (do_update disk sector_index buf False)"

definition memdisk_ops :: "memdisk_data disk_ops" where
  "memdisk_ops = \<lparr>sector_size = memdisk_sector_size, read_sector = memdisk_read_sector,
                  write_sector = memdisk_write_sector\<rparr>"

text \<open>
  \<open>create_memdisk\<close>: \<open>mem\<close> says whether each of the two allocations succeeds, \<open>live\<close> counts the
  allocations not freed. A size that is not a whole number of sectors is a panic.
\<close>

definition create_memdisk ::
  "bool \<times> bool \<Rightarrow> u8 list \<Rightarrow> u32 \<Rightarrow> bool \<Rightarrow> nat \<Rightarrow> ('b cpu_state_scheme) \<Rightarrow>
   (memdisk_data option \<times> nat \<times> 'b cpu_state_scheme) option" where
  "create_memdisk mem addr sz read_only live s = do {
     ASSERT (sz mod MEMDISK_SEC_SIZE = 0);
     if \<not> fst mem then do {
       s \<leftarrow> set_error ENONE s;
       Some (None, live, s) }
     else do {
       let live = live + 1;
       if \<not> snd mem then do {
         s \<leftarrow> set_error ENONE s;
         Some (None, live - 1, s) }
       else Some (Some \<lparr>md_bytes = addr, md_size = sz, md_read_only = read_only\<rparr>, live + 1, s) } }"

definition delete_memdisk :: "memdisk_data \<Rightarrow> nat \<Rightarrow> nat" where
  "delete_memdisk disk live = live - 1 - 1"

subsection \<open>The contract of a driver\<close>

locale sector_device =
  fixes ops :: "'d disk_ops"
    and valid :: "'d \<Rightarrow> bool"
    and writable :: "'d \<Rightarrow> bool"
    and content :: "'d \<Rightarrow> u8 list"
  assumes size_pos: "valid d \<Longrightarrow> sector_size ops d \<noteq> 0"
    and whole_sectors: "valid d \<Longrightarrow> unat (sector_size ops d) dvd length (content d)"
    and addressable: "valid d \<Longrightarrow> length (content d) < 2 ^ 64"
    and read_ok: "valid d \<Longrightarrow> Suc (unat k) * unat (sector_size ops d) \<le> length (content d) \<Longrightarrow>
      length buf = unat (sector_size ops d) \<Longrightarrow>
      read_sector ops d k buf =
        Some (sector_size ops d, take (unat (sector_size ops d)) (drop (unat k * unat (sector_size ops d)) (content d)))"
    and read_end: "valid d \<Longrightarrow> length (content d) \<le> unat k * unat (sector_size ops d) \<Longrightarrow>
      read_sector ops d k buf = Some (0, buf)"
    and write_ok: "valid d \<Longrightarrow> writable d \<Longrightarrow> Suc (unat k) * unat (sector_size ops d) \<le> length (content d) \<Longrightarrow>
      unat (sector_size ops d) \<le> length buf \<Longrightarrow>
      \<exists>d'. write_sector ops d k buf = Some (sector_size ops d, d') \<and> valid d' \<and> writable d' \<and>
           sector_size ops d' = sector_size ops d \<and>
           content d' = put_bytes (content d) (unat k * unat (sector_size ops d))
             (take (unat (sector_size ops d)) buf)"
    and write_end: "valid d \<Longrightarrow> length (content d) \<le> unat k * unat (sector_size ops d) \<or> \<not> writable d \<Longrightarrow>
      write_sector ops d k buf = Some (0, d)"

text \<open>
  The arithmetic of both loops. Before sector \<open>k\<close> the bytes moved are \<open>min L (k * S - o)\<close>; the
  sector contributes the bytes from \<open>o - k * S\<close> on (differences are cut off at 0).
\<close>

lemma io_advance:
  fixes S L ofs k :: nat
  assumes "W = min L (k * S - ofs)"
    and "ofs < Suc k * S"
  shows "min L (Suc k * S - ofs) = W + min (L - W) (S - (ofs - k * S))"
proof -
  have "min L (S + p - ofs) = w + min (L - w) (S - (ofs - p))"
    if "w = min L (p - ofs)" "ofs < S + p" for p w
    using that by (simp add: min_def split: if_splits) linarith+
  from this [of W "k * S"] show ?thesis using assms by simp
qed

lemma io_position:
  fixes S L ofs k :: nat
  assumes "W = min L (k * S - ofs)" and "W < L"
  shows "k * S + (ofs - k * S) = ofs + W"
  using assms by auto

lemma io_slice:
  assumes "c = 0 \<or> p + so = q" and "so + c \<le> S"
  shows "take c (drop so (take S (drop p F))) = take c (drop q F)"
  using assms by (auto simp: drop_take min_def add.commute)

lemma io_last:
  fixes S L ofs :: nat
  assumes "0 < S" and "0 < L" and "e = (ofs + L - 1) div S"
  shows "ofs + L \<le> Suc e * S" and "e * S < ofs + L"
proof -
  have "e * S \<le> ofs + L - 1" and "ofs + L - 1 < Suc e * S"
    using assms(1) by (simp_all add: assms(3) dividend_less_div_times)
  then show "ofs + L \<le> Suc e * S" and "e * S < ofs + L"
    using assms(2) by linarith+
qed

lemma sector_whole:
  fixes S T k :: nat
  assumes "S dvd T" and "k * S < T"
  shows "Suc k * S \<le> T"
proof -
  obtain q where q: "T = S * q" using assms(1) by (rule dvdE)
  with assms(2) have "k < q" by (simp add: mult.commute)
  then have "Suc k * S \<le> q * S" by (intro mult_le_mono1) simp
  with q show ?thesis by (simp add: mult.commute)
qed

lemma unat_sector_to_offset:
  assumes "unat k * unat ss < 2 ^ 64"
  shows "unat (sector_to_offset k ss) = unat k * unat ss"
  using assms by (simp add: sector_to_offset_def unat_mult_no_overflow)

lemma unat_offset_to_sector: "unat (offset_to_sector off ss) = unat off div unat ss"
  by (simp add: offset_to_sector_def unat_div_distrib)

lemma unat_last_offset:
  fixes off :: u64 and len :: u32
  assumes "unat off + unat len < 2 ^ 64" and "len \<noteq> 0"
  shows "unat (off + ucast len - 1) = unat off + unat len - 1"
proof -
  have "unat (off + ucast len) = unat off + unat len"
    using assms(1) by (simp add: unat_add_no_overflow)
  moreover have "0 < unat len" using assms(2) by (simp add: unat_gt_0)
  ultimately show ?thesis
    by (simp add: unat_sub_no_underflow)
qed

lemma first_sector_of:
  fixes S ofs K :: nat
  assumes "0 < S" and "ofs div S \<le> K"
  shows "ofs < Suc K * S" and "K \<noteq> ofs div S \<Longrightarrow> ofs < K * S"
proof -
  have "ofs < Suc (ofs div S) * S"
    using assms(1) by (simp add: dividend_less_div_times)
  then have lt: "ofs < n * S" if "Suc (ofs div S) \<le> n" for n
    using mult_le_mono1 [OF that, of S] by linarith
  show "ofs < Suc K * S" using assms(2) by (intro lt) simp
  show "ofs < K * S" if "K \<noteq> ofs div S" using assms(2) that by (intro lt) simp
qed

lemma start_offset_in_value:
  assumes "ss \<noteq> 0" and "unat start = unat offset div unat ss" and "start \<le> k"
  obtains so where "start_offset_in k start ss offset = Some so"
    and "unat so = unat offset - unat k * unat ss" and "so < ss"
proof (cases "k = start")
  case True
  have S: "0 < unat ss" using assms(1) by (simp add: unat_gt_0)
  have le: "unat k * unat ss \<le> unat offset"
    using assms(2) True by simp
  have kss: "unat (sector_to_offset k ss) = unat k * unat ss"
    using le unat_u64_bound [of offset] by (intro unat_sector_to_offset) linarith
  have diff: "unat (offset - sector_to_offset k ss) = unat offset - unat k * unat ss"
    using le kss by (simp add: unat_sub_no_underflow)
  have mod: "unat offset - unat k * unat ss = unat offset mod unat ss"
    using assms(2) True by (simp add: minus_div_mult_eq_mod)
  have lt: "unat offset mod unat ss < unat ss" using S by simp
  then have "unat offset mod unat ss < 2 ^ 32"
    using unat_u32_bound [of ss] by linarith
  then have "unat (ucast (offset - sector_to_offset k ss) :: u32) = unat offset mod unat ss"
    using diff mod by (simp add: unat_ucast_bounded)
  with that [of "ucast (offset - sector_to_offset k ss)"] True le kss mod lt show thesis
    by (simp add: start_offset_in_def word_le_nat_alt word_less_nat_alt ASSERT_bind)
next
  case False
  have "unat k \<noteq> unat offset div unat ss"
    using False assms(2) by (metis word_unat_eq_iff)
  then have "unat offset < unat k * unat ss"
    using assms by (intro first_sector_of(2)) (simp_all add: unat_gt_0 word_le_nat_alt)
  with that [of 0] False assms(1) show thesis
    by (simp add: start_offset_in_def word_less_nat_alt unat_gt_0)
qed

context sector_device begin

text \<open>One round of the read loop that finds a sector.\<close>

lemma read_step:
  assumes d: "valid d" "ss = sector_size ops d"
    and k: "start \<le> k" "k \<le> final" "Suc (unat k) * unat ss \<le> length (content d)"
    and st: "unat start = unat offset div unat ss"
    and len: "unat len \<le> length buf0"
    and W: "unat written = min (unat len) (unat k * unat ss - unat offset)"
    and buf: "buf = take (unat written) (drop (unat offset) (content d)) @ drop (unat written) buf0"
    and sd: "length sd = unat ss"
  obtains sd' written' where "length sd' = unat ss"
    and "unat written' = min (unat len) (Suc (unat k) * unat ss - unat offset)"
    and "disk_read_loop ops d ss offset len start final k sd buf written =
      disk_read_loop ops d ss offset len start final (k + 1) sd'
        (take (unat written') (drop (unat offset) (content d)) @ drop (unat written') buf0) written'"
proof -
  let ?F = "content d" and ?o = "unat offset" and ?S = "unat ss" and ?K = "unat k"
  let ?sec = "take ?S (drop (?K * ?S) ?F)"
  have ss: "ss \<noteq> 0" "0 < ?S" using d size_pos by (simp_all add: unat_gt_0)
  obtain so where so: "start_offset_in k start ss offset = Some so" "unat so = ?o - ?K * ?S" "so < ss"
    using ss(1) st k(1) by (rule start_offset_in_value)
  let ?c = "min_u32 (len - written) (ss - so)"
  have wl: "unat written \<le> unat len" using W by simp
  have c: "unat ?c = min (unat len - unat written) (?S - (?o - ?K * ?S))"
    using wl so by (simp add: unat_min_u32 unat_sub_no_underflow word_less_nat_alt)
  have adv: "unat written + unat ?c = min (unat len) (Suc ?K * ?S - ?o)"
    using io_advance [OF W] first_sector_of(1) [OF ss(2), of ?o ?K] k(1) st c
    by (simp add: word_le_nat_alt)
  then have w': "unat (written + ?c) = unat written + unat ?c"
    using unat_u32_bound [of len] by (intro unat_add_no_overflow) (simp add: min_def split: if_splits)
  have lsec: "length ?sec = ?S" using k(3) by simp
  have soc: "unat so + unat ?c \<le> ?S"
  proof -
    have "unat ?c \<le> ?S - unat so" using c so(2) by simp
    moreover have "unat so < ?S" using so(3) by (simp add: word_less_nat_alt)
    ultimately show ?thesis by linarith
  qed
  have slice: "take (unat ?c) (drop (unat so) ?sec) = take (unat ?c) (drop (?o + unat written) ?F)"
  proof (rule io_slice [OF _ soc])
    show "unat ?c = 0 \<or> ?K * ?S + unat so = ?o + unat written"
      using c io_position [OF W] so(2) by (cases "unat written < unat len") auto
  qed
  have wF: "unat written + unat ?c \<le> length ?F - ?o"
    using adv k(3) by (simp add: min_def split: if_splits)
  have wb: "unat written + unat ?c \<le> length buf0" using adv len by simp
  have mem: "memcpy_buf buf (unat written) ?sec (unat so) (unat ?c) =
      Some (take (unat written + unat ?c) (drop ?o ?F) @ drop (unat written + unat ?c) buf0)"
    unfolding buf using wF wb soc lsec slice by (intro memcpy_buf_append) (simp_all add: add.commute)
  have "disk_read_loop ops d ss offset len start final k sd buf written =
      disk_read_loop ops d ss offset len start final (k + 1) ?sec
        (take (unat written + unat ?c) (drop ?o ?F) @ drop (unat written + unat ?c) buf0) (written + ?c)"
    using mem so ss k sd d(2) wl read_ok [OF d(1), of k "replicate ?S 0"]
    by (subst disk_read_loop.simps)
       (simp add: memzero_buf_def ASSERT_bind word_le_nat_alt Let_def)
  with that [of ?sec "written + ?c"] lsec w' adv show thesis by simp
qed

lemma read_loop:
  assumes d: "valid d" "ss = sector_size ops d"
    and len: "unat offset + unat len < 2 ^ 64" "len \<noteq> 0" "unat len \<le> length buf0"
    and st: "unat start = unat offset div unat ss"
    and fin: "unat final = (unat offset + unat len - 1) div unat ss"
    and k: "start \<le> k" "unat k \<le> Suc (unat final)"
      "unat k * unat ss \<le> length (content d) \<or> k = start"
    and W: "unat written = min (unat len) (unat k * unat ss - unat offset)"
    and sd: "length sd = unat ss"
    and R: "R = min (unat len) (length (content d) - unat offset)"
  shows "disk_read_loop ops d ss offset len start final k sd
      (take (unat written) (drop (unat offset) (content d)) @ drop (unat written) buf0) written =
    Some (of_nat R, take R (drop (unat offset) (content d)) @ drop R buf0)"
  using k W sd
proof (induction "Suc (unat final) - unat k" arbitrary: k written sd rule: less_induct)
  case less
  let ?S = "unat ss" and ?o = "unat offset"
  have S: "0 < ?S" using d size_pos by (simp add: unat_gt_0)
  have L: "0 < unat len" using len(2) by (simp add: unat_gt_0)
  have kst: "k = start \<Longrightarrow> unat k * ?S \<le> ?o" using st by simp
  have count: "written = of_nat R" if "unat written = R"
    using that by (metis of_nat_unat ucast_id)
  have before: "?o div ?S \<le> (?o + unat len - 1) div ?S"
    using L by (intro div_le_mono) simp
  consider (out) "\<not> k \<le> final" | (eod) "k \<le> final" "length (content d) \<le> unat k * ?S"
    | (sector) "k \<le> final" "Suc (unat k) * ?S \<le> length (content d)"
    using sector_whole [OF whole_sectors [OF d(1)], of "unat k"] d(2) by fastforce
  then show ?case
  proof cases
    case out
    then have K: "unat k = Suc (unat final)" using less.prems(2) by (simp add: word_le_nat_alt)
    then have "k \<noteq> start" using before st fin by auto
    then have "?o + unat len \<le> unat k * ?S" "unat k * ?S \<le> length (content d)"
      using io_last(1) [OF S L fin] K less.prems(3) by simp_all
    then have "unat written = R" using less.prems(4) R by auto
    with out count show ?thesis by (subst disk_read_loop.simps) simp
  next
    case eod
    then have "unat written = R"
      using less.prems(3,4) R kst by auto
    with eod count less.prems(5) read_end [OF d(1)] d(2) show ?thesis
      by (subst disk_read_loop.simps) (simp add: memzero_buf_def)
  next
    case sector
    have "unat final \<le> ?o + unat len - 1" using fin by simp
    then have "Suc (unat k) < 2 ^ 64"
      using sector(1) len(1) L by (simp add: word_le_nat_alt)
    then have k1: "unat (k + 1) = Suc (unat k)" by (simp add: unat_add_no_overflow)
    obtain sd' written' where step: "length sd' = ?S"
        "unat written' = min (unat len) (Suc (unat k) * ?S - ?o)"
        "disk_read_loop ops d ss offset len start final k sd
           (take (unat written) (drop ?o (content d)) @ drop (unat written) buf0) written =
         disk_read_loop ops d ss offset len start final (k + 1) sd'
           (take (unat written') (drop ?o (content d)) @ drop (unat written') buf0) written'"
      using read_step [OF d less.prems(1) sector st len(3) less.prems(4) refl less.prems(5)] by blast
    show ?thesis
      unfolding step(3) using step(1,2) k1 sector less.prems(1)
      by (intro less.hyps) (simp_all add: word_le_nat_alt)
  qed
qed

lemma disk_read_bytes:
  assumes d: "valid d"
    and mem: "kmalloc (sector_size ops d) = Some sd" "length sd = unat (sector_size ops d)"
    and len: "unat offset + unat len < 2 ^ 64" "unat len \<le> length buf"
    and R: "R = min (unat len) (length (content d) - unat offset)"
  shows "disk_read kmalloc ops d offset buf len =
    Some (of_nat R, take R (drop (unat offset) (content d)) @ drop R buf)"
proof (cases "len = 0")
  case True
  then show ?thesis using R by (simp add: disk_read_def)
next
  case False
  let ?ss = "sector_size ops d"
  let ?start = "offset_to_sector offset ?ss" and ?final = "offset_to_sector (offset + ucast len - 1) ?ss"
  have start: "unat ?start = unat offset div unat ?ss"
    by (rule unat_offset_to_sector)
  have final: "unat ?final = (unat offset + unat len - 1) div unat ?ss"
    using len(1) False by (simp add: unat_offset_to_sector unat_last_offset)
  have le: "unat ?start \<le> unat ?final"
    unfolding start final using False unat_gt_0 [of len] by (intro div_le_mono) simp
  have "disk_read_loop ops d ?ss offset len ?start ?final ?start sd
      (take (unat (0::u32)) (drop (unat offset) (content d)) @ drop (unat (0::u32)) buf) 0 =
    Some (of_nat R, take R (drop (unat offset) (content d)) @ drop R buf)"
    using start le by (intro read_loop [OF d refl len(1) False len(2) start final _ _ _ _ mem(2) R]) simp_all
  then show ?thesis
    using False mem(1) size_pos [OF d] by (simp add: disk_read_def)
qed

end

subsection \<open>Writing\<close>

lemma write_round_position:
  fixes S L ofs k W :: nat
  assumes "0 < S" and "0 < L" and "k \<le> (ofs + L - 1) div S" and "W = min L (k * S - ofs)"
  shows "W < L" and "k * S + (ofs - k * S) = ofs + W"
proof -
  have "k * S \<le> (ofs + L - 1) div S * S" using assms(3) by (rule mult_le_mono1)
  then have "k * S < ofs + L" using io_last(2) [OF assms(1,2) refl, of ofs] by linarith
  then show "W < L" using assms(2,4) by auto
  then show "k * S + (ofs - k * S) = ofs + W" by (rule io_position [OF assms(4)])
qed

lemma write_round_full:
  fixes S L ofs k W :: nat
  assumes S: "0 < S" "0 < L" and k: "ofs div S \<le> k" "k \<le> (ofs + L - 1) div S"
    and W: "W = min L (k * S - ofs)"
    and full: "k = ofs div S \<longrightarrow> ofs mod S = 0" "k = (ofs + L - 1) div S \<longrightarrow> (ofs + L) mod S = 0"
  shows "ofs \<le> k * S" and "W + S \<le> L"
proof -
  show le: "ofs \<le> k * S"
  proof (cases "k = ofs div S")
    case True
    then show ?thesis using full(1) div_mult_mod_eq [of ofs S] by simp
  next
    case False
    then show ?thesis using first_sector_of(2) [OF S(1) k(1)] by simp
  qed
  have "Suc k * S \<le> ofs + L"
  proof (cases "k = (ofs + L - 1) div S")
    case True
    then have "ofs + L = (ofs + L) div S * S" using full(2) div_mult_mod_eq [of "ofs + L" S] by simp
    moreover have "k < (ofs + L) div S"
    proof -
      have "k * S < (ofs + L) div S * S"
        using io_last(2) [OF S True] calculation by simp
      then show ?thesis by simp
    qed
    then have "Suc k * S \<le> (ofs + L) div S * S" by (intro mult_le_mono1) simp
    ultimately show ?thesis by simp
  next
    case False
    then have "Suc k * S \<le> (ofs + L - 1) div S * S" using k(2) by (intro mult_le_mono1) simp
    also have "\<dots> \<le> ofs + L" by (rule le_trans [OF div_times_less_eq_dividend]) simp
    finally show ?thesis .
  qed
  then show "W + S \<le> L" using le W S by simp
qed

text \<open>The offset and the length of the partial update, as the code computes them.\<close>

lemma partial_update_words:
  assumes ss: "ss \<noteq> 0" and len: "unat offset + unat len < 2 ^ 64" "len \<noteq> 0"
    and k: "unat offset div unat ss \<le> unat k" "unat k \<le> (unat offset + unat len - 1) div unat ss"
      "Suc (unat k) * unat ss < 2 ^ 64"
    and W: "unat written = min (unat len) (unat k * unat ss - unat offset)"
    and so: "so = update_c_off k ss offset written"
    and c: "c = update_cpy_len k ss offset len written"
  shows "unat so = unat offset - unat k * unat ss"
    and "unat c = min (unat len - unat written) (unat ss - (unat offset - unat k * unat ss))"
    and "unat so + unat c \<le> unat ss"
proof -
  let ?S = "unat ss" and ?o = "unat offset" and ?K = "unat k"
  have S: "0 < ?S" and L: "0 < unat len" using ss len(2) by (simp_all add: unat_gt_0)
  note pos = write_round_position [OF S L k(2) W]
  have kS: "unat (sector_to_offset k ss) = ?K * ?S"
    using k(3) by (intro unat_sector_to_offset) simp
  have "Suc ?K \<le> Suc ?K * ?S" using S by (cases ?S) simp_all
  then have "unat (k + 1) = Suc ?K"
    using k(3) by (intro trans [OF unat_add_no_overflow]) simp_all
  then have k1S: "unat (sector_to_offset (k + 1) ss) = Suc ?K * ?S"
    using unat_sector_to_offset [of "k + 1" ss] k(3) by (simp only:)
  have diff: "?o - ?K * ?S < ?S"
    using first_sector_of(1) [OF S k(1)] S by simp
  have ow: "unat (offset + ucast written) = ?o + unat written"
    using pos(1) len(1) by (intro trans [OF unat_add_no_overflow]) simp_all
  have "unat (offset + ucast written - sector_to_offset k ss) = ?o - ?K * ?S"
    using pos(2) kS ow by (simp add: unat_sub_no_underflow)
  then show so_eq: "unat so = ?o - ?K * ?S"
    using diff unat_u32_bound [of ss] by (simp add: so update_c_off_def unat_ucast_bounded)
  have mid: "unat (sector_to_offset k ss + ucast so) = ?K * ?S + (?o - ?K * ?S)"
    using kS so_eq diff k(3) by (intro trans [OF unat_add_no_overflow]) simp_all
  have "unat (sector_to_offset (k + 1) ss - (sector_to_offset k ss + ucast so)) = ?S - (?o - ?K * ?S)"
    using mid k1S diff by (subst unat_sub_no_underflow) simp_all
  then have "unat (ucast (sector_to_offset (k + 1) ss - (sector_to_offset k ss + ucast so)) :: u32) = ?S - (?o - ?K * ?S)"
    using unat_u32_bound [of ss] by (simp add: unat_ucast_bounded)
  then show "unat c = min (unat len - unat written) (?S - (?o - ?K * ?S))"
    using pos(1) by (simp add: c update_cpy_len_def so [symmetric] unat_min_u32 unat_sub_no_underflow min.commute)
  then have "unat c \<le> ?S - unat so" using so_eq by simp
  then show "unat so + unat c \<le> ?S" using so_eq diff by linarith
qed

lemma sector_mod_iff:
  fixes offset :: u64
  shows "offset mod ucast ss \<noteq> 0 \<longleftrightarrow> unat offset mod unat (ss :: u32) \<noteq> 0"
  by (simp add: word_unat_eq_iff unat_mod_distrib)

context sector_device begin

text \<open>One round of the write loop inside of the disk.\<close>

lemma write_step:
  assumes d: "valid d" "writable d" "ss = sector_size ops d"
    and mem: "kmalloc ss = Some sd" "length sd = unat ss"
    and len: "unat offset + unat len < 2 ^ 64" "len \<noteq> 0" "unat len \<le> length buf"
    and st: "unat start = unat offset div unat ss" "unat final = (unat offset + unat len - 1) div unat ss"
    and k: "start \<le> k" "k \<le> final" "Suc (unat k) * unat ss \<le> length (content d)"
    and W: "unat written = min (unat len) (unat k * unat ss - unat offset)"
  obtains d' written' where "valid d'" "writable d'" "sector_size ops d' = ss"
    and "unat written' = min (unat len) (Suc (unat k) * unat ss - unat offset)"
    and "content d' = put_bytes (content d) (unat offset + unat written)
           (take (unat written' - unat written) (drop (unat written) buf))"
    and "unat offset + unat written' \<le> length (content d)" and "unat written \<le> unat written'"
    and "disk_write_loop kmalloc ops ss offset len start final buf k d written =
      disk_write_loop kmalloc ops ss offset len start final buf (k + 1) d' written'"
proof -
  let ?S = "unat ss" and ?o = "unat offset" and ?K = "unat k" and ?W = "unat written"
  have ss: "ss \<noteq> 0" "0 < ?S" using d size_pos by (simp_all add: unat_gt_0)
  have L: "0 < unat len" using len(2) by (simp add: unat_gt_0)
  have K: "?o div ?S \<le> ?K" "?K \<le> (?o + unat len - 1) div ?S"
    using k(1,2) st by (simp_all add: word_le_nat_alt)
  have lt: "Suc ?K * ?S < 2 ^ 64" using k(3) addressable [OF d(1)] by linarith
  note pos = write_round_position [OF ss(2) L K(2) W]
  have adv: "min (unat len) (Suc ?K * ?S - ?o) = ?W + min (unat len - ?W) (?S - (?o - ?K * ?S))"
    by (rule io_advance [OF W first_sector_of(1) [OF ss(2) K(1)]])
  have fits: "?o + min (unat len) (Suc ?K * ?S - ?o) \<le> length (content d)"
    using k(3) first_sector_of(1) [OF ss(2) K(1)] min.cobounded2 [of "unat len" "Suc ?K * ?S - ?o"]
    by linarith
  note sec = read_ok [OF d(1), of k sd, unfolded d(3) [symmetric], OF k(3) mem(2)]
  show thesis
  proof (cases "partial_round k start final ss offset len")
    case True
    define so where "so = update_c_off k ss offset written"
    define c where "c = update_cpy_len k ss offset len written"
    note words = partial_update_words [OF ss(1) len(1,2) K lt W so_def c_def]
    define x where "x = take (unat c) (drop ?W buf)"
    have cb: "?W + unat c \<le> unat len"
      using words(2) pos(1) min.cobounded1 [of "unat len - ?W" "?S - (?o - ?K * ?S)"] by linarith
    have lx: "length x = unat c" using cb len(3) by (simp add: x_def)
    have mcpy: "memcpy_buf (take ?S (drop (?K * ?S) (content d))) (unat so) buf ?W (unat c) =
        Some (put_bytes (take ?S (drop (?K * ?S) (content d))) (unat so) x)" (is "_ = Some ?cur")
      using words(3) cb len(3) k(3) unfolding x_def by (intro memcpy_buf_put) simp_all
    have lcur: "length ?cur = ?S" using words(3) lx k(3) by simp
    obtain d' where d': "write_sector ops d k ?cur = Some (ss, d')" "valid d'" "writable d'"
        "sector_size ops d' = ss" "content d' = put_bytes (content d) (?K * ?S) (take ?S ?cur)"
      using write_ok [OF d(1,2), of k ?cur] k(3) lcur d(3) by auto
    have "content d' = put_bytes (content d) (?K * ?S + unat so) x"
      using d'(5) lcur put_bytes_sector [of "?K * ?S" ?S "content d" "unat so" x] words(3) lx k(3) by simp
    then have cont: "content d' = put_bytes (content d) (?o + ?W) x"
      using words(1) pos(2) by simp
    have w': "unat (written + c) = ?W + unat c"
      using cb unat_u32_bound [of len] by (intro unat_add_no_overflow) simp
    have loop: "disk_write_loop kmalloc ops ss offset len start final buf k d written =
        disk_write_loop kmalloc ops ss offset len start final buf (k + 1) d' (written + c)"
      using True k(2) mem(1) sec mcpy d'(1)
      by (subst disk_write_loop.simps) (simp add: Let_def so_def [symmetric] c_def [symmetric])
    have w'': "unat (written + c) = min (unat len) (Suc ?K * ?S - ?o)"
      using w' words(2) adv by (simp only:)
    show thesis
      by (rule that [OF d'(2-4) w'' _ _ _ loop]) (use cont w' w'' fits in \<open>simp_all only: x_def le_add1 diff_add_inverse\<close>)
  next
    case False
    then have full: "?K = ?o div ?S \<longrightarrow> ?o mod ?S = 0" "?K = (?o + unat len - 1) div ?S \<longrightarrow> (?o + unat len) mod ?S = 0"
      using st len(1) unfolding partial_round_def sector_mod_iff
      by (auto simp: unat_add_no_overflow word_unat_eq_iff)
    note fr = write_round_full [OF ss(2) L K W full]
    have lb: "?S \<le> length (drop ?W buf)" using fr(2) len(3) by simp
    obtain d' where d': "write_sector ops d k (drop ?W buf) = Some (ss, d')" "valid d'" "writable d'"
        "sector_size ops d' = ss" "content d' = put_bytes (content d) (?K * ?S) (take ?S (drop ?W buf))"
      using write_ok [OF d(1,2), of k "drop ?W buf", unfolded d(3) [symmetric], OF k(3) lb] by blast
    have w': "unat (written + ss) = ?W + ?S"
      using fr(2) unat_u32_bound [of len] by (intro unat_add_no_overflow) simp
    have loop: "disk_write_loop kmalloc ops ss offset len start final buf k d written =
        disk_write_loop kmalloc ops ss offset len start final buf (k + 1) d' (written + ss)"
      using False k(2) d'(1) fr(2) pos(1)
      by (subst disk_write_loop.simps) (simp add: ASSERT_bind word_less_nat_alt)
    have "min (unat len - ?W) (?S - (?o - ?K * ?S)) = ?S" using fr by simp
    then have w'': "unat (written + ss) = min (unat len) (Suc ?K * ?S - ?o)"
      using w' adv by (simp only:)
    have "?K * ?S = ?o + ?W" using fr(1) pos(2) by simp
    then have cont: "content d' = put_bytes (content d) (?o + ?W) (take ?S (drop ?W buf))"
      using d'(5) by (simp only:)
    show thesis
      by (rule that [OF d'(2-4) w'' _ _ _ loop]) (use cont w' w'' fits in \<open>simp_all only: le_add1 diff_add_inverse\<close>)
  qed
qed

text \<open>A round that fails: past the end of the disk, or on a disk that cannot be written.\<close>

lemma write_fail:
  assumes d: "valid d" "ss = sector_size ops d"
    and mem: "kmalloc ss = Some sd" "length sd = unat ss"
    and len: "unat offset + unat len < 2 ^ 64" "len \<noteq> 0" "unat len \<le> length buf"
    and st: "unat start = unat offset div unat ss" "unat final = (unat offset + unat len - 1) div unat ss"
    and k: "start \<le> k" "k \<le> final"
    and fail: "length (content d) \<le> unat k * unat ss \<or> \<not> writable d"
    and W: "unat written = min (unat len) (unat k * unat ss - unat offset)"
  shows "disk_write_loop kmalloc ops ss offset len start final buf k d written = Some (written, d)"
proof -
  let ?S = "unat ss" and ?o = "unat offset" and ?K = "unat k" and ?W = "unat written"
  have ss: "ss \<noteq> 0" "0 < ?S" using d size_pos by (simp_all add: unat_gt_0)
  have L: "0 < unat len" using len(2) by (simp add: unat_gt_0)
  have K: "?o div ?S \<le> ?K" "?K \<le> (?o + unat len - 1) div ?S"
    using k(1,2) st by (simp_all add: word_le_nat_alt)
  note pos = write_round_position [OF ss(2) L K(2) W]
  have wr: "write_sector ops d k b = Some (0, d)" for b
    using write_end [OF d(1)] fail d(2) by simp
  show ?thesis
  proof (cases "partial_round k start final ss offset len")
    case True
    show ?thesis
    proof (cases "length (content d) \<le> ?K * ?S")
      case eod: True
      with True k(2) mem(1) ss(1) read_end [OF d(1), of k sd] d(2) show ?thesis
        by (subst disk_write_loop.simps) simp
    next
      case False
      then have in_disk: "Suc ?K * ?S \<le> length (content d)"
        using sector_whole [OF whole_sectors [OF d(1)]] d(2) by simp
      then have lt: "Suc ?K * ?S < 2 ^ 64" using addressable [OF d(1)] by linarith
      note words = partial_update_words [OF ss(1) len(1,2) K lt W refl refl]
      note sec = read_ok [OF d(1), of k sd, unfolded d(2) [symmetric], OF in_disk mem(2)]
      have cb: "?W + unat (update_cpy_len k ss offset len written) \<le> length buf"
        using words(2) pos(1) len(3) min.cobounded1 [of "unat len - ?W" "?S - (?o - ?K * ?S)"] by linarith
      have "length (take ?S (drop (?K * ?S) (content d))) = ?S" using in_disk by simp
      with words(3) cb obtain cur where
        "memcpy_buf (take ?S (drop (?K * ?S) (content d))) (unat (update_c_off k ss offset written)) buf ?W
          (unat (update_cpy_len k ss offset len written)) = Some cur"
        by (simp only: memcpy_buf_def) simp
      with True k(2) mem(1) sec ss(1) wr show ?thesis
        by (subst disk_write_loop.simps) simp
    qed
  next
    case False
    then have full: "?K = ?o div ?S \<longrightarrow> ?o mod ?S = 0" "?K = (?o + unat len - 1) div ?S \<longrightarrow> (?o + unat len) mod ?S = 0"
      using st len(1) unfolding partial_round_def sector_mod_iff
      by (auto simp: unat_add_no_overflow word_unat_eq_iff)
    note fr = write_round_full [OF ss(2) L K W full]
    with False k(2) ss(1) wr pos(1) show ?thesis
      by (subst disk_write_loop.simps) (simp add: ASSERT_bind word_less_nat_alt)
  qed
qed

lemma write_loop:
  assumes mem: "kmalloc ss = Some sd" "length sd = unat ss" "ss \<noteq> 0"
    and len: "unat offset + unat len < 2 ^ 64" "len \<noteq> 0" "unat len \<le> length buf"
    and st: "unat start = unat offset div unat ss" "unat final = (unat offset + unat len - 1) div unat ss"
    and R: "R = min (unat len) (length F - unat offset)" "unat ss dvd length F"
    and d: "valid d" "writable d" "sector_size ops d = ss"
    and k: "start \<le> k" "unat k \<le> Suc (unat final)" "unat k * unat ss \<le> length F \<or> k = start"
    and W: "unat written = min (unat len) (unat k * unat ss - unat offset)"
    and F: "content d = put_bytes F (unat offset) (take (unat written) buf)"
      "unat written = 0 \<or> unat offset + unat written \<le> length F"
  shows "\<exists>d'. disk_write_loop kmalloc ops ss offset len start final buf k d written = Some (of_nat R, d') \<and>
    valid d' \<and> content d' = put_bytes F (unat offset) (take R buf)"
  using d k W F
proof (induction "Suc (unat final) - unat k" arbitrary: k d written rule: less_induct)
  case less
  let ?S = "unat ss" and ?o = "unat offset"
  have S: "0 < ?S" using mem(3) by (simp add: unat_gt_0)
  have L: "0 < unat len" using len(2) by (simp add: unat_gt_0)
  have kst: "k = start \<Longrightarrow> unat k * ?S \<le> ?o" using st by simp
  have count: "written = of_nat R" if "unat written = R"
    using that by (metis of_nat_unat ucast_id)
  have before: "?o div ?S \<le> (?o + unat len - 1) div ?S"
    using L by (intro div_le_mono) simp
  have lF: "length (content d) = length F"
    using less.prems(7,8,9) len(3) by auto
  consider (out) "\<not> k \<le> final" | (eod) "k \<le> final" "length F \<le> unat k * ?S"
    | (sector) "k \<le> final" "Suc (unat k) * ?S \<le> length F"
    using sector_whole [OF R(2), of "unat k"] by fastforce
  then show ?case
  proof cases
    case out
    then have K: "unat k = Suc (unat final)" using less.prems(5) by (simp add: word_le_nat_alt)
    then have "k \<noteq> start" using before st by auto
    then have "?o + unat len \<le> unat k * ?S" "unat k * ?S \<le> length F"
      using io_last(1) [OF S L st(2)] K less.prems(6) by simp_all
    then have w: "unat written = R" using less.prems(7) R by auto
    show ?thesis
      using out count [OF w] w less.prems by (subst disk_write_loop.simps) simp
  next
    case eod
    then have w: "unat written = R"
      using less.prems(6,7) R kst by auto
    have "disk_write_loop kmalloc ops ss offset len start final buf k d written = Some (written, d)"
      by (rule write_fail [where kmalloc = kmalloc, OF less.prems(1) less.prems(3) [symmetric] mem(1,2) len st
            less.prems(4) eod(1) _ less.prems(7)]) (simp add: eod(2) lF)
    with w count [OF w] less.prems show ?thesis by simp
  next
    case sector
    have "unat final \<le> ?o + unat len - 1" using st(2) by simp
    then have "Suc (unat k) < 2 ^ 64"
      using sector(1) len(1) L by (simp add: word_le_nat_alt)
    then have k1: "unat (k + 1) = Suc (unat k)" by (simp add: unat_add_no_overflow)
    have in_disk: "Suc (unat k) * ?S \<le> length (content d)" using sector(2) lF by simp
    obtain d' written' where step: "valid d'" "writable d'" "sector_size ops d' = ss"
        "unat written' = min (unat len) (Suc (unat k) * ?S - ?o)"
        "content d' = put_bytes (content d) (?o + unat written)
           (take (unat written' - unat written) (drop (unat written) buf))"
        "?o + unat written' \<le> length (content d)" "unat written \<le> unat written'"
        "disk_write_loop kmalloc ops ss offset len start final buf k d written =
         disk_write_loop kmalloc ops ss offset len start final buf (k + 1) d' written'"
      by (rule write_step [where kmalloc = kmalloc, OF less.prems(1,2) less.prems(3) [symmetric] mem(1,2) len st less.prems(4) sector(1)
            in_disk less.prems(7)])
    have "content d' = put_bytes F ?o (take (unat written') buf)"
      using put_bytes_next [of "unat written" "unat written'" buf ?o F] step(4-7) len(3) lF less.prems(8) by simp
    then show ?thesis
      unfolding step(8) using step(1-4,6) k1 sector less.prems(4) lF
      by (intro less.hyps) (simp_all add: word_le_nat_alt)
  qed
qed

lemma disk_write_bytes:
  assumes d: "valid d"
    and mem: "kmalloc (sector_size ops d) = Some sd" "length sd = unat (sector_size ops d)"
    and len: "unat offset + unat len < 2 ^ 64" "unat len \<le> length buf"
    and R: "R = (if writable d then min (unat len) (length (content d) - unat offset) else 0)"
  shows "\<exists>d'. disk_write kmalloc ops d offset buf len = Some (of_nat R, d') \<and> valid d' \<and>
    content d' = put_bytes (content d) (unat offset) (take R buf)"
proof (cases "len = 0")
  case True
  then show ?thesis using R d by (simp add: disk_write_def)
next
  case False
  let ?ss = "sector_size ops d"
  let ?start = "offset_to_sector offset ?ss" and ?final = "offset_to_sector (offset + ucast len - 1) ?ss"
  have start: "unat ?start = unat offset div unat ?ss"
    by (rule unat_offset_to_sector)
  have final: "unat ?final = (unat offset + unat len - 1) div unat ?ss"
    using len(1) False by (simp add: unat_offset_to_sector unat_last_offset)
  have le: "unat ?start \<le> unat ?final"
    unfolding start final using False unat_gt_0 [of len] by (intro div_le_mono) simp
  have W: "unat (0 :: u32) = min (unat len) (unat ?start * unat ?ss - unat offset)"
    using start by simp
  have "\<exists>d'. disk_write_loop kmalloc ops ?ss offset len ?start ?final buf ?start d 0 = Some (of_nat R, d') \<and>
    valid d' \<and> content d' = put_bytes (content d) (unat offset) (take R buf)"
  proof (cases "writable d")
    case True
    then have "R = min (unat len) (length (content d) - unat offset)" using R by simp
    from write_loop [where kmalloc = kmalloc, OF mem size_pos [OF d] len(1) False len(2) start final this
        whole_sectors [OF d] d True refl order_refl _ _ W]
    show ?thesis using le by simp
  next
    case ro: False
    have "disk_write_loop kmalloc ops ?ss offset len ?start ?final buf ?start d 0 = Some (0, d)"
      by (rule write_fail [where kmalloc = kmalloc, OF d refl mem len(1) False len(2) start final order_refl _ _ W])
        (use le ro in \<open>simp_all add: word_le_nat_alt\<close>)
    with ro R d show ?thesis by simp
  qed
  then show ?thesis
    using False size_pos [OF d] by (simp add: disk_write_def Let_def)
qed

end

subsection \<open>Memory disks are sector devices\<close>

definition memdisk_valid :: "memdisk_data \<Rightarrow> bool" where
  "memdisk_valid disk \<longleftrightarrow> length (md_bytes disk) = unat (md_size disk) \<and> md_size disk mod MEMDISK_SEC_SIZE = 0"

abbreviation memdisk_writable :: "memdisk_data \<Rightarrow> bool" where
  "memdisk_writable disk \<equiv> \<not> md_read_only disk"

lemma create_memdisk_valid:
  assumes "create_memdisk mem addr sz ro live s = Some (Some disk, live', s')" and "length addr = unat sz"
  shows "memdisk_valid disk \<and> md_bytes disk = addr \<and> memdisk_writable disk = (\<not> ro)"
proof -
  have "disk = \<lparr>md_bytes = addr, md_size = sz, md_read_only = ro\<rparr>" "sz mod MEMDISK_SEC_SIZE = 0"
    using assms(1) by (simp_all add: create_memdisk_def ASSERT_bind Let_def split: if_splits bind_splits)
  then show ?thesis using assms(2) by (simp add: memdisk_valid_def)
qed

lemma memdisk_sectors:
  assumes "memdisk_valid disk"
  shows "512 dvd length (md_bytes disk)" and "ceil_x_over_y_u32 (md_size disk) MEMDISK_SEC_SIZE = Some (md_size disk div 512)"
    and "unat (md_size disk div 512) * 512 = length (md_bytes disk)"
proof -
  have mod: "unat (md_size disk) mod 512 = 0"
    using assms by (simp add: memdisk_valid_def MEMDISK_SEC_SIZE_def word_unat_eq_iff unat_mod_distrib)
  then show "512 dvd length (md_bytes disk)"
    using assms by (simp add: memdisk_valid_def mod_0_imp_dvd)
  show "ceil_x_over_y_u32 (md_size disk) MEMDISK_SEC_SIZE = Some (md_size disk div 512)"
    using assms by (simp add: ceil_x_over_y_u32_def memdisk_valid_def MEMDISK_SEC_SIZE_def)
  show "unat (md_size disk div 512) * 512 = length (md_bytes disk)"
    using mod assms by (simp add: unat_div_distrib memdisk_valid_def mod_0_imp_dvd)
qed

text \<open>A sector of the disk: the offset that \<open>do_update\<close> computes does not wrap.\<close>

lemma memdisk_in_range:
  fixes k :: u64
  assumes "memdisk_valid disk" and "Suc (unat k) * 512 \<le> length (md_bytes disk)"
  shows "\<not> ucast (md_size disk div 512) \<le> k" and "unat (ucast (k * 512) :: u32) = unat k * 512"
    and "min_u32 512 (md_size disk - ucast (k * 512)) = 512"
proof -
  have sz: "length (md_bytes disk) = unat (md_size disk)" using assms(1) by (simp add: memdisk_valid_def)
  then have lt: "Suc (unat k) * 512 < 2 ^ 32" using assms(2) unat_u32_bound [of "md_size disk"] by linarith
  have "Suc (unat k) * 512 \<le> unat (md_size disk div 512) * 512"
    using memdisk_sectors(3) [OF assms(1)] assms(2) by simp
  then show "\<not> ucast (md_size disk div 512) \<le> k"
    by (simp add: word_le_nat_alt)
  have "unat (k * 512) = unat k * 512" using lt by (simp add: unat_mult_no_overflow)
  then show off: "unat (ucast (k * 512) :: u32) = unat k * 512"
    using lt by (simp add: unat_ucast_bounded)
  have "unat (md_size disk - ucast (k * 512)) = unat (md_size disk) - unat k * 512"
    using off assms(2) sz by (simp add: unat_sub_no_underflow)
  then have "\<not> 512 > md_size disk - ucast (k * 512)"
    using assms(2) sz by (simp add: word_less_nat_alt)
  then show "min_u32 512 (md_size disk - ucast (k * 512)) = 512"
    by (auto simp: min_u32_def)
qed

lemma memdisk_end:
  fixes k :: u64
  assumes "memdisk_valid disk" and "length (md_bytes disk) \<le> unat k * 512"
  shows "ucast (md_size disk div 512) \<le> k"
  using memdisk_sectors(3) [OF assms(1)] assms(2) by (simp add: word_le_nat_alt)

lemma memdisk_read_in:
  assumes "memdisk_valid disk" and "Suc (unat k) * 512 \<le> length (md_bytes disk)" and "length buf = 512"
  shows "memdisk_read_sector disk k buf = Some (512, take 512 (drop (unat k * 512) (md_bytes disk)))"
  using memdisk_in_range [OF assms(1,2)] memdisk_sectors(2) [OF assms(1)] assms(2,3)
  by (simp add: memdisk_read_sector_def do_update_def MEMDISK_SEC_SIZE_def memcpy_buf_def Let_def)

lemma memdisk_write_in:
  assumes "memdisk_valid disk" and "Suc (unat k) * 512 \<le> length (md_bytes disk)" and "512 \<le> length buf"
    and "memdisk_writable disk"
  shows "memdisk_write_sector disk k buf =
    Some (512, disk\<lparr>md_bytes := put_bytes (md_bytes disk) (unat k * 512) (take 512 buf)\<rparr>)"
  using memdisk_in_range [OF assms(1,2)] memdisk_sectors(2) [OF assms(1)] assms(2,3,4)
  by (simp add: memdisk_write_sector_def do_update_def MEMDISK_SEC_SIZE_def memcpy_buf_put Let_def)

interpretation md: sector_device memdisk_ops memdisk_valid memdisk_writable md_bytes
proof (unfold_locales, goal_cases)
  case (3 d)
  then show ?case using unat_u32_bound [of "md_size d"] by (simp add: memdisk_valid_def)
next
  case (4 d k buf)
  then show ?case
    by (simp add: memdisk_ops_def memdisk_sector_size_def MEMDISK_SEC_SIZE_def memdisk_read_in)
next
  case (5 d k buf)
  then show ?case
    by (simp add: memdisk_ops_def memdisk_sector_size_def MEMDISK_SEC_SIZE_def memdisk_read_sector_def
        do_update_def memdisk_end memdisk_sectors(2) [unfolded MEMDISK_SEC_SIZE_def] Let_def)
next
  case (6 d k buf)
  then show ?case
    by (simp add: memdisk_ops_def memdisk_sector_size_def MEMDISK_SEC_SIZE_def memdisk_write_in memdisk_valid_def)
next
  case (7 d k buf)
  then show ?case
    by (auto simp: memdisk_ops_def memdisk_sector_size_def MEMDISK_SEC_SIZE_def memdisk_write_sector_def
        do_update_def memdisk_end memdisk_sectors(2) [unfolded MEMDISK_SEC_SIZE_def] Let_def)
qed (simp_all add: memdisk_ops_def memdisk_sector_size_def MEMDISK_SEC_SIZE_def memdisk_sectors(1))

subsection \<open>Properties\<close>

text \<open>
  C26: Reading from a memory disk delivers the bytes of the disk from the given offset on, up to the
  requested length or the end of the disk, whatever the alignment of the offset and of the length, and
  leaves the rest of the buffer alone; no assertion of \<open>disk_read\<close> can fail.
\<close>

theorem memdisk_read_flat:
  assumes "memdisk_valid d"
    and "\<And>n. \<exists>b. kmalloc n = Some b \<and> length b = unat n"
    and "unat offset + unat len < 2 ^ 64" and "unat len \<le> length buf"
  shows "disk_read kmalloc memdisk_ops d offset buf len =
    (let n = min (unat len) (length (md_bytes d) - unat offset)
     in Some (of_nat n, take n (drop (unat offset) (md_bytes d)) @ drop n buf))"
proof -
  obtain sd where sd: "kmalloc (sector_size memdisk_ops d) = Some sd" "length sd = unat (sector_size memdisk_ops d)"
    using assms(2) by blast
  show ?thesis
    by (simp add: md.disk_read_bytes [where kmalloc = kmalloc, OF assms(1) sd assms(3,4) refl] Let_def)
qed

text \<open>
  C9: Writing to a memory disk replaces exactly the bytes at the given offset, up to the end of the
  disk, by the first bytes of the buffer, sectors that are only partly covered included, and returns
  how many that were. A read-only disk is left as it is and 0 is returned.
\<close>

theorem memdisk_write_flat:
  assumes "memdisk_valid d"
    and "\<And>n. \<exists>b. kmalloc n = Some b \<and> length b = unat n"
    and "unat offset + unat len < 2 ^ 64" and "unat len \<le> length buf"
  shows "\<exists>d'. disk_write kmalloc memdisk_ops d offset buf len =
      Some (if md_read_only d then 0 else of_nat (min (unat len) (length (md_bytes d) - unat offset)), d') \<and>
    memdisk_valid d' \<and>
    md_bytes d' = (if md_read_only d then md_bytes d
      else put_bytes (md_bytes d) (unat offset) (take (min (unat len) (length (md_bytes d) - unat offset)) buf))"
proof -
  obtain sd where sd: "kmalloc (sector_size memdisk_ops d) = Some sd" "length sd = unat (sector_size memdisk_ops d)"
    using assms(2) by blast
  show ?thesis
    using md.disk_write_bytes [where kmalloc = kmalloc, OF assms(1) sd assms(3,4) refl] by (cases "md_read_only d") simp_all
qed

definition memdisk_example :: memdisk_data where
  "memdisk_example = \<lparr>md_bytes = replicate 1024 7, md_size = 1024, md_read_only = False\<rparr>"

lemma memdisk_example_valid: "memdisk_valid memdisk_example"
  by (simp add: memdisk_valid_def memdisk_example_def MEMDISK_SEC_SIZE_def)

lemma replicate_two_four: "replicate 2 x = [x, x]" "replicate 4 x = [x, x, x, x]"
  by (simp_all add: numeral_eq_Suc)

theorem memdisk_read_flat_witness:
  "disk_read (\<lambda>n. Some (replicate (unat n) 0)) memdisk_ops memdisk_example 1022 [1, 2, 3, 4] 4 =
    Some (2, [7, 7, 3, 4])"
  using memdisk_read_flat [OF memdisk_example_valid, of "\<lambda>n. Some (replicate (unat n) 0)" 1022 4 "[1, 2, 3, 4]"]
  by (simp add: memdisk_example_def replicate_two_four Let_def)

theorem memdisk_write_flat_witness:
  "\<exists>d'. disk_write (\<lambda>n. Some (replicate (unat n) 0)) memdisk_ops memdisk_example 510 [1, 2, 3, 4] 4 = Some (4, d') \<and>
    md_bytes d' = replicate 510 7 @ [1, 2, 3, 4] @ replicate 510 7"
  using memdisk_write_flat [OF memdisk_example_valid, of "\<lambda>n. Some (replicate (unat n) 0)" 510 4 "[1, 2, 3, 4]"]
  by (auto simp: memdisk_example_def put_bytes_def)

text \<open>
  C27: Round trip. What is written to a memory disk that can be written, inside of its bounds, is read
  back from the same offset, and every byte outside of the written range keeps its value.
\<close>

theorem memdisk_write_read:
  assumes "memdisk_valid d" and "\<not> md_read_only d"
    and "\<And>n. \<exists>b. kmalloc n = Some b \<and> length b = unat n"
    and "unat offset + length buf \<le> length (md_bytes d)" and "length buf = unat len"
  shows "\<exists>d'. disk_write kmalloc memdisk_ops d offset buf len = Some (len, d') \<and>
    disk_read kmalloc memdisk_ops d' offset (replicate (unat len) 0) len = Some (len, buf) \<and>
    length (md_bytes d') = length (md_bytes d) \<and>
    (\<forall>i. i < unat offset \<or> unat offset + unat len \<le> i \<longrightarrow> md_bytes d' ! i = md_bytes d ! i)"
proof -
  obtain sd where sd: "kmalloc (sector_size memdisk_ops x) = Some sd" "length sd = unat (sector_size memdisk_ops x)" for x
    using assms(3) [of MEMDISK_SEC_SIZE] by (auto simp: memdisk_ops_def memdisk_sector_size_def)
  have lt: "unat offset + unat len < 2 ^ 64"
    using assms(1,4,5) unat_u32_bound [of "md_size d"] by (simp add: memdisk_valid_def)
  obtain d' where d': "disk_write kmalloc memdisk_ops d offset buf len = Some (len, d')" "memdisk_valid d'"
      "md_bytes d' = put_bytes (md_bytes d) (unat offset) buf"
    using md.disk_write_bytes [where kmalloc = kmalloc, OF assms(1) sd lt _ refl, of buf] assms(2,4,5) by auto
  have "disk_read kmalloc memdisk_ops d' offset (replicate (unat len) 0) len = Some (len, buf)"
    using md.disk_read_bytes [where kmalloc = kmalloc, OF d'(2) sd lt _ refl, of "replicate (unat len) 0"] d'(3) assms(4,5)
    by (simp add: put_bytes_def)
  moreover have "md_bytes d' ! i = md_bytes d ! i" if "i < unat offset \<or> unat offset + unat len \<le> i" for i
    using that assms(4,5) unfolding d'(3) put_bytes_def by (auto simp: nth_append)
  ultimately show ?thesis
    using d' assms(4) by auto
qed

theorem memdisk_write_read_witness:
  "\<exists>d'. disk_write (\<lambda>n. Some (replicate (unat n) 0)) memdisk_ops memdisk_example 510 [1, 2, 3, 4] 4 = Some (4, d') \<and>
    disk_read (\<lambda>n. Some (replicate (unat n) 0)) memdisk_ops d' 510 [0, 0, 0, 0] 4 = Some (4, [1, 2, 3, 4])"
  using memdisk_write_read [OF memdisk_example_valid, of "\<lambda>n. Some (replicate (unat n) 0)" 510 "[1, 2, 3, 4]" 4]
  by (auto simp: memdisk_example_def replicate_two_four)

end
