(* ===== verification/Ustar.thy ===== *)
theory Ustar
  imports Disk_Io
begin

text \<open>
  The read-only archive file system of \<open>ustar.c\<close> on any disk. A header is the 512 bytes read from
  the disk, with its fields at the offsets of \<open>struct ustar_header\<close>; \<open>kmalloc\<close> is a parameter that
  returns a zeroed buffer, as the allocator of the kernel does. \<open>find_file\<close> walks the headers and
  may do so forever on a bad archive, so its loop is a partial function.

  An archive is described by its list of entries (header and padded data); on a disk that holds such
  a list \<open>find_file\<close> finds the first entry of the given name, and reading the opened file delivers
  the data of that entry.
\<close>

subsection \<open>Headers\<close>

definition USTAR_SEC_SIZE :: u32 where
  "USTAR_SEC_SIZE = 512"

text \<open>
  The fields of the packed \<open>struct ustar_header\<close> that the kernel uses, from their offset to the end
  of the header: a string that fills its field runs on into the next one.
\<close>

definition hdr_filename :: "u8 list \<Rightarrow> u8 list" where
  "hdr_filename hdr = hdr"

definition hdr_filesize :: "u8 list \<Rightarrow> u8 list" where
  "hdr_filesize hdr = drop 124 hdr"

definition hdr_type :: "u8 list \<Rightarrow> u8" where
  "hdr_type hdr = hdr ! 156"

definition hdr_indicator :: "u8 list \<Rightarrow> u8 list" where
  "hdr_indicator hdr = drop 257 hdr"

definition hdr_filename_prefix :: "u8 list \<Rightarrow> u8 list" where
  "hdr_filename_prefix hdr = drop 345 hdr"

definition is_dir :: "u8 list \<Rightarrow> bool" where
  "is_dir hdr \<longleftrightarrow> hdr_type hdr = 0x35"

definition is_file :: "u8 list \<Rightarrow> bool" where
  "is_file hdr \<longleftrightarrow> hdr_type hdr = 0x30 \<or> hdr_type hdr = 0"

text \<open>The counter of the loop is a \<open>uint8_t\<close>.\<close>

partial_function (option) octal_loop :: "u8 list \<Rightarrow> u8 \<Rightarrow> u64 \<Rightarrow> u64 option" where
  "octal_loop str i res = do {
     len \<leftarrow> strlen_buf str;
     if unat i < len then do {
       let cdigit = str ! unat i;
       ASSERT (0x30 \<le> cdigit \<and> cdigit \<le> 0x38);
       octal_loop str (i + 1) (res * 8 + ucast (cdigit - 0x30)) }
     else Some res }"

definition octal_string_to_u64 :: "u8 list \<Rightarrow> u64 option" where
  "octal_string_to_u64 str = octal_loop str 0 0"

definition read_header ::
  "(u32 \<Rightarrow> u8 list option) \<Rightarrow> 'd disk_ops \<Rightarrow> 'd \<Rightarrow> u64 \<Rightarrow> u8 list \<Rightarrow> (bool \<times> u8 list) option" where
  "read_header kmalloc ops disk offset hdr = do {
     ASSERT (offset mod ucast USTAR_SEC_SIZE = 0);
     (n, hdr) \<leftarrow> disk_read kmalloc ops disk offset hdr 512;
     Some (n = USTAR_SEC_SIZE, hdr) }"

subsection \<open>Finding a file\<close>

text \<open>The full name of an entry: prefix, a slash if there is a prefix, file name.\<close>

definition full_name :: "(u32 \<Rightarrow> u8 list option) \<Rightarrow> u8 list \<Rightarrow> u8 list option" where
  "full_name kmalloc hdr = do {
     let prefix = hdr_filename_prefix hdr;
     prefix_len \<leftarrow> strlen_buf prefix;
     let filename = hdr_filename hdr;
     filename_len \<leftarrow> strlen_buf filename;
     let full_filename_len = prefix_len + filename_len;
     fullname \<leftarrow> kmalloc (of_nat (full_filename_len + 2));
     (fullname, prefix_len) \<leftarrow>
       (if prefix_len \<noteq> 0 then do {
          fullname \<leftarrow> memcpy_buf fullname 0 prefix 0 prefix_len;
          ASSERT (prefix_len < length fullname);
          Some (fullname[prefix_len := 0x2F], prefix_len + 1) }
        else Some (fullname, prefix_len));
     memcpy_buf fullname prefix_len filename 0 filename_len }"

definition next_header :: "u8 list \<Rightarrow> u32 \<Rightarrow> u32 option" where
  "next_header hdr offset = do {
     let offset = offset + 512;
     if is_file hdr then do {
       sz \<leftarrow> octal_string_to_u64 (hdr_filesize hdr);
       sectors \<leftarrow> ceil_x_over_y_u32 (ucast sz) 512;
       Some (offset + sectors * 512) }
     else Some offset }"

partial_function (option) find_file_loop ::
  "(u32 \<Rightarrow> u8 list option) \<Rightarrow> 'd disk_ops \<Rightarrow> 'd \<Rightarrow> u8 list \<Rightarrow> u8 list \<Rightarrow> u32 \<Rightarrow> u32 option option" where
  "find_file_loop kmalloc ops disk filepath hdr offset = do {
     (ok, hdr) \<leftarrow> read_header kmalloc ops disk (ucast offset) hdr;
     if ok then do {
       fullname \<leftarrow> full_name kmalloc hdr;
       found \<leftarrow> streq_buf fullname filepath;
       if found then Some (Some offset)
       else do {
         offset \<leftarrow> next_header hdr offset;
         find_file_loop kmalloc ops disk filepath hdr offset } }
     else Some None }"

text \<open>\<open>find_file\<close> returns the offset of the header if there is such a file.\<close>

definition find_file ::
  "(u32 \<Rightarrow> u8 list option) \<Rightarrow> 'd disk_ops \<Rightarrow> 'd \<Rightarrow> u8 list \<Rightarrow> u32 option option" where
  "find_file kmalloc ops disk filepath = do {
     hdr \<leftarrow> kmalloc 512;
     find_file_loop kmalloc ops disk filepath hdr 0 }"

subsection \<open>Opened files\<close>

record ustar_file_private_data =
  header_offset :: u64
  header :: "u8 list"

text \<open>
  \<open>ustar_do_file_update\<close> on the private data of a file: the number of bytes, the buffer and the
  disk. The warning it logs on a short transfer is left out.
\<close>

definition ustar_do_file_update ::
  "(u32 \<Rightarrow> u8 list option) \<Rightarrow> 'd disk_ops \<Rightarrow> 'd \<Rightarrow> ustar_file_private_data \<Rightarrow> u64 \<Rightarrow> u8 list \<Rightarrow> u32 \<Rightarrow> bool \<Rightarrow>
   (u32 \<times> u8 list \<times> 'd) option" where
  "ustar_do_file_update kmalloc ops disk data offset buf len is_read = do {
     file_len \<leftarrow> octal_string_to_u64 (hdr_filesize (header data));
     if file_len \<le> offset then Some (0, buf, disk)
     else do {
       let data_off = header_offset data + 512;
       let update_off = data_off + offset;
       let update_len = min_u32 (ucast (file_len - offset)) len;
       if is_read then do {
         (res, buf) \<leftarrow> disk_read kmalloc ops disk update_off buf update_len;
         Some (res, buf, disk) }
       else do {
         (res, disk) \<leftarrow> disk_write kmalloc ops disk update_off buf update_len;
         Some (res, buf, disk) } } }"

definition ustar_read ::
  "(u32 \<Rightarrow> u8 list option) \<Rightarrow> 'd disk_ops \<Rightarrow> 'd \<Rightarrow> ustar_file_private_data \<Rightarrow> u64 \<Rightarrow> u8 list \<Rightarrow> u32 \<Rightarrow>
   (u32 \<times> u8 list \<times> 'd) option" where
  "ustar_read kmalloc ops disk data offset buf len = ustar_do_file_update kmalloc ops disk data offset buf len True"

definition ustar_write ::
  "(u32 \<Rightarrow> u8 list option) \<Rightarrow> 'd disk_ops \<Rightarrow> 'd \<Rightarrow> ustar_file_private_data \<Rightarrow> u64 \<Rightarrow> u8 list \<Rightarrow> u32 \<Rightarrow>
   (u32 \<times> u8 list \<times> 'd) option" where
  "ustar_write kmalloc ops disk data offset buf len = ustar_do_file_update kmalloc ops disk data offset buf len False"

text \<open>The header on the stack of \<open>ustar_detect_fs\<close> is overwritten by the read; \<open>stack\<close> is what it held.\<close>

definition ustar_detect_fs ::
  "(u32 \<Rightarrow> u8 list option) \<Rightarrow> 'd disk_ops \<Rightarrow> u8 list \<Rightarrow> 'd \<Rightarrow> bool option" where
  "ustar_detect_fs kmalloc ops stack disk = do {
     (ok, hdr) \<leftarrow> read_header kmalloc ops disk 0 stack;
     if \<not> ok then Some False
     else strneq_buf (hdr_indicator hdr) [0x75, 0x73, 0x74, 0x61, 0x72, 0] 5 }"

text \<open>\<open>enum fs_op_res\<close>.\<close>

datatype fs_op_res = FS_SUCCESS | FS_NOT_IMPL | FS_NOT_FOUND

definition ustar_create_file :: "'d \<Rightarrow> u8 list \<Rightarrow> fs_op_res" where
  "ustar_create_file disk path = FS_NOT_IMPL"

definition ustar_delete_file :: "'d \<Rightarrow> u8 list \<Rightarrow> 'd" where
  "ustar_delete_file disk path = disk"

text \<open>
  \<open>ustar_open_file\<close>: the result and, on success, the private data of the opened file. The zeroed
  allocation of \<open>struct ustar_file_private_data\<close> provides the buffer the header is read into.
\<close>

definition ustar_open_file ::
  "(u32 \<Rightarrow> u8 list option) \<Rightarrow> 'd disk_ops \<Rightarrow> 'd \<Rightarrow> u8 list \<Rightarrow>
   (fs_op_res \<times> ustar_file_private_data option) option" where
  "ustar_open_file kmalloc ops disk path = do {
     found \<leftarrow> find_file kmalloc ops disk path;
     case found of
       None \<Rightarrow> Some (FS_NOT_FOUND, None)
     | Some file_offset \<Rightarrow> do {
         data \<leftarrow> kmalloc 520;
         (success, hdr) \<leftarrow> read_header kmalloc ops disk (ucast file_offset) (drop 8 data);
         ASSERT success;
         Some (FS_SUCCESS, Some \<lparr>header_offset = ucast file_offset, header = hdr\<rparr>) } }"

subsection \<open>Octal sizes\<close>

definition octal_value :: "u8 list \<Rightarrow> nat" where
  "octal_value ds = foldl (\<lambda>r c. 8 * r + (unat c - 48)) 0 ds"

lemma octal_loop_digits:
  assumes "holds_string str ds" and "\<forall>c \<in> set ds. 0x30 \<le> c \<and> c \<le> 0x38" and "length ds < 256"
    and "unat i = length (take k ds)" and "k \<le> length ds" and "res = of_nat (octal_value (take k ds))"
  shows "octal_loop str i res = Some (of_nat (octal_value ds))"
  using assms(4-6)
proof (induction "length ds - k" arbitrary: i k res)
  case 0
  then show ?case using strlen_buf_holds [OF assms(1)] by (simp add: octal_loop.simps)
next
  case (Suc n)
  then have k: "k < length ds" "unat i = k" by simp_all
  then have c: "str ! k = ds ! k"
    using assms(1) by (auto simp: holds_string_def nth_append)
  have digit: "0x30 \<le> ds ! k" "ds ! k \<le> 0x38" using assms(2) k by auto
  have i1: "unat (i + 1) = Suc k"
    using k assms(3) by (simp add: unat_add_no_overflow)
  have val: "octal_value (take (Suc k) ds) = 8 * octal_value (take k ds) + (unat (ds ! k) - 48)"
    using k by (simp add: octal_value_def take_Suc_conv_app_nth)
  have d: "(ucast (ds ! k - 0x30) :: u64) = of_nat (unat (ds ! k) - 48)"
  proof -
    have "unat (ds ! k - 0x30) = unat (ds ! k) - 48"
      using digit by (simp add: unat_sub_no_underflow word_le_nat_alt)
    then show ?thesis by (metis of_nat_unat)
  qed
  have "octal_loop str (i + 1) (res * 8 + ucast (ds ! k - 0x30)) = Some (of_nat (octal_value ds))"
    using Suc.hyps(2) k i1 val d Suc.prems(3)
    by (intro Suc.hyps(1) [of "Suc k"]) (simp_all add: mult.commute)
  then show ?case
    using k c digit strlen_buf_holds [OF assms(1)] by (subst octal_loop.simps) (simp add: ASSERT_bind)
qed

lemma octal_string_value:
  assumes "holds_string str ds" and "\<forall>c \<in> set ds. 0x30 \<le> c \<and> c \<le> 0x38" and "length ds < 256"
  shows "octal_string_to_u64 str = Some (of_nat (octal_value ds))"
  using octal_loop_digits [OF assms, of 0 0] by (simp add: octal_string_to_u64_def octal_value_def)

subsection \<open>Archives\<close>

text \<open>The string in a field, the name and the size of an entry.\<close>

definition field_string :: "u8 list \<Rightarrow> u8 list" where
  "field_string buf = takeWhile (\<lambda>c. c \<noteq> 0) buf"

definition entry_name :: "u8 list \<Rightarrow> u8 list" where
  "entry_name hdr =
     (let prefix = field_string (hdr_filename_prefix hdr)
      in (if prefix = [] then [] else prefix @ [0x2F]) @ field_string (hdr_filename hdr))"

definition entry_size :: "u8 list \<Rightarrow> nat" where
  "entry_size hdr = (if is_file hdr then octal_value (field_string (hdr_filesize hdr)) else 0)"

text \<open>An entry is its header and its data, padded to whole sectors.\<close>

definition entry_ok :: "u8 list \<times> u8 list \<Rightarrow> bool" where
  "entry_ok e \<longleftrightarrow> (case e of (hdr, data) \<Rightarrow>
     length hdr = 512 \<and> 0 \<in> set (hdr_filename_prefix hdr) \<and>
     (is_file hdr \<longrightarrow> length (field_string (hdr_filesize hdr)) < 12 \<and> (\<forall>c \<in> set (field_string (hdr_filesize hdr)). 0x30 \<le> c \<and> c \<le> 0x37)) \<and>
     length data = ceil_div (entry_size hdr) 512 * 512)"

definition archive_bytes :: "(u8 list \<times> u8 list) list \<Rightarrow> u8 list" where
  "archive_bytes es = concat (map (\<lambda>(hdr, data). hdr @ data) es)"

fun find_entry :: "(u8 list \<times> u8 list) list \<Rightarrow> u8 list \<Rightarrow> nat \<Rightarrow> nat option" where
  "find_entry [] path off = None"
| "find_entry ((hdr, data) # es) path off =
     (if entry_name hdr = path then Some off else find_entry es path (off + 512 + length data))"

lemma field_string_holds:
  assumes "0 \<in> set buf"
  shows "holds_string buf (field_string buf)"
proof -
  have "\<exists>ys. buf = takeWhile (\<lambda>c. c \<noteq> 0) buf @ 0 # ys"
    using assms by (induction buf) auto
  moreover have "0 \<notin> set (takeWhile (\<lambda>c. c \<noteq> 0) buf)" using set_takeWhileD [of 0 "\<lambda>c. c \<noteq> 0" buf] by auto
  ultimately show ?thesis by (auto simp: holds_string_def field_string_def)
qed

lemma field_string_length: "0 \<in> set buf \<Longrightarrow> length (field_string buf) < length buf"
  using field_string_holds [of buf] unfolding holds_string_def by (metis length_append less_add_same_cancel1 length_Cons zero_less_Suc)

lemma entry_ok_fields:
  assumes "entry_ok (hdr, data)"
  shows "holds_string (hdr_filename_prefix hdr) (field_string (hdr_filename_prefix hdr))"
    and "holds_string (hdr_filename hdr) (field_string (hdr_filename hdr))"
    and "holds_string (hdr_filesize hdr) (field_string (hdr_filesize hdr))"
    and "length (field_string (hdr_filename_prefix hdr)) < 512"
    and "length (field_string (hdr_filename hdr)) < 512"
proof -
  have len: "length hdr = 512" and z: "0 \<in> set (drop 345 hdr)"
    using assms by (simp_all add: entry_ok_def hdr_filename_prefix_def)
  have z1: "0 \<in> set hdr" using z by (rule in_set_dropD)
  have z2: "0 \<in> set (drop 124 hdr)" using z in_set_dropD [of 0 221 "drop 124 hdr"] by simp
  show "holds_string (hdr_filename_prefix hdr) (field_string (hdr_filename_prefix hdr))"
    "holds_string (hdr_filename hdr) (field_string (hdr_filename hdr))"
    "holds_string (hdr_filesize hdr) (field_string (hdr_filesize hdr))"
    "length (field_string (hdr_filename_prefix hdr)) < 512"
    "length (field_string (hdr_filename hdr)) < 512"
    using z z1 z2 len field_string_length [OF z] field_string_length [OF z1]
    by (simp_all add: hdr_filename_prefix_def hdr_filename_def hdr_filesize_def field_string_holds)
qed

lemma full_name_entry:
  assumes "entry_ok (hdr, data)" and "\<And>n. kmalloc n = Some (replicate (unat n) 0)"
  obtains buf where "full_name kmalloc hdr = Some buf" and "holds_string buf (entry_name hdr)"
proof -
  define p where "p = field_string (hdr_filename_prefix hdr)"
  define f where "f = field_string (hdr_filename hdr)"
  note fs = entry_ok_fields [OF assms(1), folded p_def f_def]
  have nz: "0 \<notin> set p" "0 \<notin> set f" using fs(1,2) by (simp_all add: holds_string_def)
  obtain pr where pr: "hdr_filename_prefix hdr = p @ 0 # pr" using fs(1) by (auto simp: holds_string_def)
  obtain fr where fr: "hdr_filename hdr = f @ 0 # fr" using fs(2) by (auto simp: holds_string_def)
  have n: "unat (of_nat (length p + length f + 2) :: u32) = length p + length f + 2"
    using fs(4,5) by (intro unat_of_nat_bounded) simp
  show thesis
  proof (cases "p = []")
    case True
    have "memcpy_buf (replicate (length f + 2) 0) 0 (f @ 0 # fr) 0 (length f) = Some (f @ [0, 0])"
      by (simp add: memcpy_buf_def replicate_two_four del: add_2_eq_Suc add_2_eq_Suc')
    then have "full_name kmalloc hdr = Some (f @ [0, 0])"
      using n assms(2) strlen_buf_holds [OF fs(1)] strlen_buf_holds [OF fs(2)] True fr
      by (simp add: full_name_def del: of_nat_add)
    moreover have "holds_string (f @ [0, 0]) (entry_name hdr)"
      using True nz by (auto simp: entry_name_def holds_string_def p_def [symmetric] f_def [symmetric] Let_def)
    ultimately show thesis by (rule that)
  next
    case False
    have "memcpy_buf (replicate (length p + length f + 2) 0) 0 (p @ 0 # pr) 0 (length p) =
        Some (p @ replicate (length f + 2) 0)"
      by (simp add: memcpy_buf_def del: add_2_eq_Suc add_2_eq_Suc')
    moreover have "(p @ replicate (length f + 2) (0 :: u8))[length p := 0x2F] = (p @ [0x2F]) @ replicate (length f + 1) 0"
      by (simp add: list_update_append)
    moreover have "memcpy_buf ((p @ [0x2F]) @ replicate (length f + 1) 0) (length p + 1) (f @ 0 # fr) 0 (length f) =
        Some ((p @ [0x2F]) @ f @ [0])"
      unfolding replicate_add by (simp add: memcpy_buf_def)
    ultimately have "full_name kmalloc hdr = Some ((p @ [0x2F]) @ f @ [0])"
      using n assms(2) strlen_buf_holds [OF fs(1)] strlen_buf_holds [OF fs(2)] False fr pr
      by (simp add: full_name_def ASSERT_bind del: of_nat_add)
    moreover have "holds_string ((p @ [0x2F]) @ f @ [0]) (entry_name hdr)"
      using False nz by (auto simp: entry_name_def holds_string_def p_def [symmetric] f_def [symmetric] Let_def)
    ultimately show thesis by (rule that)
  qed
qed

lemma octal_entry:
  assumes "entry_ok (hdr, data)" and "is_file hdr"
  shows "octal_string_to_u64 (hdr_filesize hdr) = Some (of_nat (entry_size hdr))"
  using assms
  by (subst octal_string_value [OF entry_ok_fields(3) [OF assms(1)]])
     (force simp: entry_ok_def entry_size_def word_le_nat_alt)+

lemma next_header_entry:
  assumes "entry_ok (hdr, data)" and "unat offset + 512 + length data < 2 ^ 32"
  shows "\<exists>off. next_header hdr offset = Some off \<and> unat off = unat offset + 512 + length data"
proof (cases "is_file hdr")
  case True
  let ?n = "entry_size hdr"
  have sz: "octal_string_to_u64 (hdr_filesize hdr) = Some (of_nat ?n)"
    using assms(1) True by (rule octal_entry)
  have len: "length data = ceil_div ?n 512 * 512" using assms(1) by (simp add: entry_ok_def)
  have le: "?n \<le> length data" using ceil_div_mult_ge [of 512 ?n] len by simp
  have "unat (of_nat ?n :: u64) = ?n" using le assms(2) by (intro unat_of_nat_bounded) simp
  then have un: "unat (ucast (of_nat ?n :: u64) :: u32) = ?n"
    using le assms(2) by (intro trans [OF unat_ucast_bounded]) simp_all
  obtain r where r: "ceil_x_over_y_u32 (ucast (of_nat ?n :: u64)) 512 = Some r" "unat r = ceil_div ?n 512"
    by (rule ceil_x_over_y_u32_value [of 512 "ucast (of_nat ?n :: u64)"]) (simp_all add: un)
  have "unat (r * 512) = length data"
    using r(2) len assms(2) by (subst unat_mult_no_overflow) simp_all
  moreover have "unat (offset + 512) = unat offset + 512"
    using assms(2) by (subst unat_add_no_overflow) simp_all
  ultimately have "unat (offset + 512 + r * 512) = unat offset + 512 + length data"
    using assms(2) by (subst unat_add_no_overflow) simp_all
  then show ?thesis using True sz r(1) by (simp add: next_header_def)
next
  case False
  then have "length data = 0" using assms(1) by (simp add: entry_ok_def entry_size_def ceil_div_def)
  moreover have "unat (offset + 512) = unat offset + 512"
    using assms(2) by (subst unat_add_no_overflow) simp_all
  ultimately show ?thesis using False by (simp add: next_header_def)
qed

lemma archive_bytes_simps [simp]:
  "archive_bytes [] = []"
  "archive_bytes ((hdr, data) # es) = hdr @ data @ archive_bytes es"
  "archive_bytes (xs @ ys) = archive_bytes xs @ archive_bytes ys"
  by (simp_all add: archive_bytes_def)

lemma archive_bytes_sectors: "\<forall>e \<in> set es. entry_ok e \<Longrightarrow> 512 dvd length (archive_bytes es)"
  by (induction es) (auto simp: entry_ok_def split: prod.splits)

lemma find_entry_shift: "find_entry es path (a + k) = map_option (\<lambda>r. r + k) (find_entry es path a)"
  by (induction es path a rule: find_entry.induct) (simp_all add: ac_simps)

lemma find_entry_first:
  assumes "entry_name h = path" and "\<forall>e \<in> set pre. entry_name (fst e) \<noteq> path" and "\<forall>e \<in> set pre. entry_ok e"
  shows "find_entry (pre @ (h, data) # post) path 0 = Some (length (archive_bytes pre))"
  using assms(2,3)
proof (induction pre)
  case Nil
  then show ?case using assms(1) by simp
next
  case (Cons e pre)
  obtain h' data' where e: "e = (h', data')" by (cases e)
  have "find_entry (pre @ (h, data) # post) path (0 + (512 + length data')) =
      Some (length (archive_bytes pre) + (512 + length data'))"
    using Cons by (subst find_entry_shift) simp
  with Cons.prems e show ?case by (simp add: entry_ok_def ac_simps)
qed

lemma find_entry_none:
  "\<forall>e \<in> set es. entry_name (fst e) \<noteq> path \<Longrightarrow> find_entry es path off = None"
  by (induction es path off rule: find_entry.induct) simp_all

abbreviation zeroing :: "(u32 \<Rightarrow> u8 list option) \<Rightarrow> bool" where
  "zeroing kmalloc \<equiv> \<forall>n. kmalloc n = Some (replicate (unat n) 0)"

context sector_device begin

lemma read_header_bytes:
  assumes d: "valid d" and km: "zeroing kmalloc"
    and off: "512 dvd unat offset" "unat offset + 512 < 2 ^ 64" and hdr: "length hdr = 512"
  shows "unat offset + 512 \<le> length (content d) \<Longrightarrow>
      read_header kmalloc ops d offset hdr = Some (True, take 512 (drop (unat offset) (content d)))"
    and "length (content d) \<le> unat offset \<Longrightarrow> read_header kmalloc ops d offset hdr = Some (False, hdr)"
proof -
  have "offset mod 512 = 0"
    using off(1) by (simp add: word_unat_eq_iff unat_mod_distrib)
  moreover have "disk_read kmalloc ops d offset hdr 512 =
      Some (of_nat (min 512 (length (content d) - unat offset)),
        take (min 512 (length (content d) - unat offset)) (drop (unat offset) (content d)) @
        drop (min 512 (length (content d) - unat offset)) hdr)"
    using disk_read_bytes [where kmalloc = kmalloc and offset = offset and len = 512 and buf = hdr, OF d _ _ _ _ refl]
      km off(2) hdr by simp
  ultimately show "unat offset + 512 \<le> length (content d) \<Longrightarrow>
      read_header kmalloc ops d offset hdr = Some (True, take 512 (drop (unat offset) (content d)))"
    and "length (content d) \<le> unat offset \<Longrightarrow> read_header kmalloc ops d offset hdr = Some (False, hdr)"
    using hdr by (simp_all add: read_header_def USTAR_SEC_SIZE_def)
qed

lemma find_file_loop_entries:
  assumes d: "valid d" and km: "zeroing kmalloc" and path: "holds_string filepath path"
    and F: "content d = archive_bytes (pre @ es)" "length (content d) < 2 ^ 32" "\<forall>e \<in> set (pre @ es). entry_ok e"
    and off: "unat offset = length (archive_bytes pre)" and hdr: "length hdr = 512"
  shows "find_file_loop kmalloc ops d filepath hdr offset = Some (map_option of_nat (find_entry es path (unat offset)))"
  using F off hdr
proof (induction es arbitrary: pre offset hdr)
  case Nil
  have off: "512 dvd unat (ucast offset :: u64)" "unat (ucast offset :: u64) + 512 < 2 ^ 64"
    using archive_bytes_sectors Nil.prems unat_u32_bound [of offset] by simp_all
  show ?case
    using read_header_bytes(2) [OF d km off Nil.prems(5)] Nil.prems by (subst find_file_loop.simps) simp
next
  case (Cons e es)
  obtain h data where e: "e = (h, data)" by (cases e)
  have off: "512 dvd unat (ucast offset :: u64)" "unat (ucast offset :: u64) + 512 < 2 ^ 64"
    using archive_bytes_sectors [of pre] Cons.prems unat_u32_bound [of offset] by simp_all
  have ok: "entry_ok (h, data)" and h: "length h = 512" using Cons.prems(3) e by (simp_all add: entry_ok_def)
  have T: "length (content d) = unat offset + 512 + length data + length (archive_bytes es)"
    using Cons.prems e h by simp
  have rd: "read_header kmalloc ops d (ucast offset) hdr = Some (True, h)"
    using read_header_bytes(1) [OF d km off Cons.prems(5)] Cons.prems e h by simp
  obtain buf where fn: "full_name kmalloc h = Some buf" "holds_string buf (entry_name h)"
    using full_name_entry [OF ok] km by blast
  obtain off' where nx: "next_header h offset = Some off'" "unat off' = unat offset + 512 + length data"
    using next_header_entry [OF ok, of offset] T Cons.prems(2) by auto
  have "find_file_loop kmalloc ops d filepath h off' = Some (map_option of_nat (find_entry es path (unat off')))"
    using Cons.prems e h nx by (intro Cons.IH [of "pre @ [e]"]) simp_all
  then show ?case
    using rd fn nx streq_buf_holds [OF fn(2) path] e
    by (subst find_file_loop.simps) (simp add: unsigned_of_nat ucast_id)
qed

lemma find_file_entries:
  assumes "valid d" and "zeroing kmalloc" and "holds_string filepath path"
    and "content d = archive_bytes es" and "length (content d) < 2 ^ 32" and "\<forall>e \<in> set es. entry_ok e"
  shows "find_file kmalloc ops d filepath = Some (map_option of_nat (find_entry es path 0))"
  using find_file_loop_entries [where kmalloc = kmalloc, OF assms(1-3), of "[]" es 0 "replicate 512 0"] assms
  by (simp add: find_file_def)

lemma open_entry:
  assumes d: "valid d" and km: "zeroing kmalloc" and path: "holds_string filepath path"
    and F: "content d = archive_bytes (pre @ (h, data) # post)" "length (content d) < 2 ^ 32"
      "\<forall>e \<in> set (pre @ (h, data) # post). entry_ok e"
    and first: "entry_name h = path" "\<forall>e \<in> set pre. entry_name (fst e) \<noteq> path"
  shows "ustar_open_file kmalloc ops d filepath =
    Some (FS_SUCCESS, Some \<lparr>header_offset = of_nat (length (archive_bytes pre)), header = h\<rparr>)"
proof -
  let ?off = "length (archive_bytes pre)"
  have h: "length h = 512" using F(3) by (simp add: entry_ok_def)
  have lt: "?off + 512 < 2 ^ 32" using F(1,2) h by simp
  have "find_file kmalloc ops d filepath = Some (Some (of_nat ?off))"
    using find_file_entries [where kmalloc = kmalloc, OF d km path F] find_entry_first [OF first] F(3) by simp
  moreover have un: "unat (of_nat ?off :: u32) = ?off" using lt by (intro unat_of_nat_bounded) simp
  then have off: "(ucast (of_nat ?off :: u32) :: u64) = of_nat ?off" by (metis of_nat_unat)
  moreover have "read_header kmalloc ops d (ucast (of_nat ?off :: u32)) (replicate 512 0) = Some (True, h)"
    using read_header_bytes(1) [where kmalloc = kmalloc and offset = "ucast (of_nat ?off :: u32)" and hdr = "replicate 512 0",
        OF d km] archive_bytes_sectors [of pre] lt h F(1,3) un by simp
  ultimately show ?thesis using km by (simp add: ustar_open_file_def)
qed

lemma read_entry:
  assumes d: "valid d" and km: "zeroing kmalloc"
    and F: "content d = archive_bytes (pre @ (h, data) # post)" "length (content d) < 2 ^ 32"
      "\<forall>e \<in> set (pre @ (h, data) # post). entry_ok e"
    and isf: "is_file h" and len: "unat len \<le> length buf"
    and n: "n = min (entry_size h - unat offset) (unat len)"
  shows "ustar_read kmalloc ops d \<lparr>header_offset = of_nat (length (archive_bytes pre)), header = h\<rparr> offset buf len =
    Some (of_nat n, take n (drop (unat offset) data) @ drop n buf, d)"
proof -
  let ?off = "length (archive_bytes pre)"
  have ok: "entry_ok (h, data)" and h: "length h = 512" using F(3) by (simp_all add: entry_ok_def)
  have T: "?off + 512 + length data \<le> length (content d)" using F(1) h by simp
  have sd: "entry_size h \<le> length data"
    using ok ceil_div_mult_ge [of 512 "entry_size h"] by (simp add: entry_ok_def)
  have oct: "octal_string_to_u64 (hdr_filesize h) = Some (of_nat (entry_size h))"
    using ok isf by (rule octal_entry)
  have un: "unat (of_nat (entry_size h) :: u64) = entry_size h"
    using sd T F(2) by (intro unat_of_nat_bounded) simp
  show ?thesis
  proof (cases "entry_size h \<le> unat offset")
    case True
    with n oct un show ?thesis
      by (simp add: ustar_read_def ustar_do_file_update_def word_le_nat_alt)
  next
    case False
    let ?len = "min_u32 (ucast (of_nat (entry_size h) - offset)) len"
    have "unat (of_nat (entry_size h) - offset) = entry_size h - unat offset"
      using False un by (subst unat_sub_no_underflow) simp_all
    then have ulen: "unat ?len = n"
      using sd T F(2) n by (simp add: unat_min_u32 unat_ucast_bounded)
    have base: "unat (of_nat ?off + 512 :: u64) = ?off + 512"
      using T F(2) by (subst unat_add_no_overflow) (simp_all add: unat_of_nat_bounded)
    then have uoff: "unat (of_nat ?off + 512 + offset) = ?off + 512 + unat offset"
      using False sd T F(2) by (subst unat_add_no_overflow) simp_all
    have R: "n = min (unat ?len) (length (content d) - unat (of_nat ?off + 512 + offset))"
      unfolding ulen uoff using n T sd by simp
    have bytes: "take n (drop (?off + 512 + unat offset) (content d)) = take n (drop (unat offset) data)"
      using F(1) h n sd by simp
    have lt: "unat (of_nat ?off + 512 + offset) + unat ?len < 2 ^ 64"
      unfolding ulen uoff using n sd T F(2) False by simp
    have "disk_read kmalloc ops d (of_nat ?off + 512 + offset) buf ?len =
        Some (of_nat n, take n (drop (unat offset) data) @ drop n buf)"
      using disk_read_bytes [where kmalloc = kmalloc, OF d _ _ lt _ R, of "replicate (unat (sector_size ops d)) 0" buf]
        km len n ulen uoff bytes by simp
    with False oct un show ?thesis
      by (simp add: ustar_read_def ustar_do_file_update_def word_le_nat_alt)
  qed
qed

text \<open>A header whose size makes the offset wrap back to itself is found again and again.\<close>

lemma find_file_loop_diverges:
  assumes d: "valid d" and km: "zeroing kmalloc" and path: "holds_string filepath path"
    and off: "512 dvd unat offset" "unat offset + 512 \<le> length (content d)"
    and e: "take 512 (drop (unat offset) (content d)) = h" "entry_ok (h, data)" "entry_name h \<noteq> path"
    and self: "next_header h offset = Some offset"
    and hdr: "length hdr = 512"
  shows "find_file_loop kmalloc ops d filepath hdr offset = None"
proof (rule ccontr)
  assume "find_file_loop kmalloc ops d filepath hdr offset \<noteq> None"
  then obtain y where "find_file_loop kmalloc ops d filepath hdr offset = Some y" by blast
  then have "\<not> (kmalloc = kmalloc \<and> ops = ops \<and> d = d \<and> filepath = filepath \<and> length hdr = 512 \<and> offset = offset)"
  proof (rule find_file_loop.raw_induct [of "\<lambda>k' ops' d' fp' hdr' off' y.
        \<not> (k' = kmalloc \<and> ops' = ops \<and> d' = d \<and> fp' = filepath \<and> length hdr' = 512 \<and> off' = offset)", rotated])
    fix find k' ops' d' fp' hdr' off' y
    assume IH: "\<And>k' ops' d' fp' hdr' off' y. find k' ops' d' fp' hdr' off' = Some y \<Longrightarrow>
        \<not> (k' = kmalloc \<and> ops' = ops \<and> d' = d \<and> fp' = filepath \<and> length hdr' = 512 \<and> off' = offset)"
      and body: "do {
          (ok, hdr) \<leftarrow> read_header k' ops' d' (ucast off') hdr';
          if ok then do {
            fullname \<leftarrow> full_name k' hdr;
            found \<leftarrow> streq_buf fullname fp';
            if found then Some (Some off')
            else do {
              offset \<leftarrow> next_header hdr off';
              find k' ops' d' fp' hdr offset } }
          else Some None } = Some y"
    show "\<not> (k' = kmalloc \<and> ops' = ops \<and> d' = d \<and> fp' = filepath \<and> length hdr' = 512 \<and> off' = offset)"
    proof
      assume same: "k' = kmalloc \<and> ops' = ops \<and> d' = d \<and> fp' = filepath \<and> length hdr' = 512 \<and> off' = offset"
      then have hdr': "length hdr' = 512" by blast
      have rd: "read_header kmalloc ops d (ucast offset) hdr' = Some (True, h)"
        using read_header_bytes(1) [where kmalloc = kmalloc and offset = "ucast offset", OF d km _ _ hdr']
          off e(1) unat_u32_bound [of offset] by simp
      obtain buf where fn: "full_name kmalloc h = Some buf" "holds_string buf (entry_name h)"
        using full_name_entry [OF e(2)] km by blast
      have lh: "length h = 512" using e(2) by (simp add: entry_ok_def)
      have "find kmalloc ops d filepath h offset = Some y"
        using body same rd fn(1) streq_buf_holds [OF fn(2) path] e(3) self by simp
      from IH [OF this] lh show False by simp
    qed
  qed
  with hdr show False by simp
qed

end

subsection \<open>Properties\<close>

text \<open>
  C28: On a disk that holds an archive, \<open>find_file\<close> returns the offset of the header of the first entry
  whose full name (prefix, slash, name) is the given path, and reports that there is none exactly when no
  entry has that name; it always returns.
\<close>

theorem ustar_find_file_first:
  assumes "memdisk_valid d" and "zeroing kmalloc" and "holds_string filepath path"
    and "md_bytes d = archive_bytes es" and "\<forall>e \<in> set es. entry_ok e"
  shows "find_file kmalloc memdisk_ops d filepath = Some (map_option of_nat (find_entry es path 0))"
  using md.find_file_entries [where kmalloc = kmalloc, OF assms(1-4) _ assms(5)]
    assms(1) unat_u32_bound [of "md_size d"] by (simp add: memdisk_valid_def)

text \<open>
  C29: Opening the path of a file of the archive succeeds, and reading from the opened file at any
  offset delivers exactly the bytes of the data of that entry, up to the size its header gives, and
  not the padding behind them nor the next entry.
\<close>

theorem ustar_open_read:
  assumes "memdisk_valid d" and "zeroing kmalloc" and "holds_string filepath path"
    and "md_bytes d = archive_bytes (pre @ (h, data) # post)"
    and "\<forall>e \<in> set (pre @ (h, data) # post). entry_ok e"
    and "entry_name h = path" and "\<forall>e \<in> set pre. entry_name (fst e) \<noteq> path"
    and "is_file h" and "unat len \<le> length buf"
  shows "\<exists>f. ustar_open_file kmalloc memdisk_ops d filepath = Some (FS_SUCCESS, Some f) \<and>
    (\<forall>offset. ustar_read kmalloc memdisk_ops d f offset buf len =
      (let n = min (entry_size h - unat offset) (unat len)
       in Some (of_nat n, take n (drop (unat offset) data) @ drop n buf, d)))"
proof -
  have lt: "length (md_bytes d) < 2 ^ 32"
    using assms(1) unat_u32_bound [of "md_size d"] by (simp add: memdisk_valid_def)
  show ?thesis
    using md.open_entry [where kmalloc = kmalloc, OF assms(1-4) lt assms(5-7)]
      md.read_entry [where kmalloc = kmalloc, OF assms(1,2,4) lt assms(5,8,9) refl]
    by (simp add: Let_def)
qed

definition header_example :: "u8 list" where
  "header_example = [97] @ replicate 123 0 @ [0x33] @ replicate 31 0 @ [0x30] @ replicate 100 0 @
     [0x75, 0x73, 0x74, 0x61, 0x72] @ replicate 250 0"

lemma field_string_zeros: "0 \<notin> set s \<Longrightarrow> 0 < n \<Longrightarrow> field_string (s @ replicate n 0 @ rest) = s"
  by (cases n) (simp_all add: field_string_def takeWhile_append)

lemma header_example_fields:
  "length header_example = 512" "field_string (hdr_filename header_example) = [97]"
  "field_string (hdr_filesize header_example) = [0x33]" "is_file header_example"
  "hdr_filename_prefix header_example = replicate 167 0"
proof -
  show "field_string (hdr_filename header_example) = [97]"
    unfolding header_example_def hdr_filename_def by (rule field_string_zeros) simp_all
  have "hdr_filesize header_example = [0x33] @ replicate 31 0 @ [0x30] @ replicate 100 0 @
      [0x75, 0x73, 0x74, 0x61, 0x72] @ replicate 250 0"
    by (simp add: header_example_def hdr_filesize_def)
  then show "field_string (hdr_filesize header_example) = [0x33]"
    by (simp add: field_string_zeros [of "[0x33]" 31, simplified])
qed (simp_all add: header_example_def is_file_def hdr_type_def hdr_filename_prefix_def nth_append)

lemma header_example_entry:
  "entry_name header_example = [97]" "entry_size header_example = 3"
  "entry_ok (header_example, [1, 2, 3] @ replicate 509 0)"
  using header_example_fields
  by (simp_all add: entry_name_def entry_size_def entry_ok_def octal_value_def ceil_div_def
      field_string_zeros [of "[]" _ "[]", simplified])

definition archive_example :: memdisk_data where
  "archive_example = \<lparr>md_bytes = archive_bytes [(header_example, [1, 2, 3] @ replicate 509 0)],
    md_size = 1024, md_read_only = True\<rparr>"

lemma archive_example_valid: "memdisk_valid archive_example"
  using header_example_fields(1) by (simp add: archive_example_def memdisk_valid_def MEMDISK_SEC_SIZE_def)

lemma archive_example_bytes:
  "md_bytes archive_example = archive_bytes [(header_example, [1, 2, 3] @ replicate 509 0)]"
  by (simp add: archive_example_def)

theorem ustar_find_file_first_witness:
  "find_file (\<lambda>n. Some (replicate (unat n) 0)) memdisk_ops archive_example [97, 0] = Some (Some 0) \<and>
   find_file (\<lambda>n. Some (replicate (unat n) 0)) memdisk_ops archive_example [98, 0] = Some None"
  using ustar_find_file_first [OF archive_example_valid _ _ archive_example_bytes, of
      "\<lambda>n. Some (replicate (unat n) 0)" "[97, 0]" "[97]"]
    ustar_find_file_first [OF archive_example_valid _ _ archive_example_bytes, of
      "\<lambda>n. Some (replicate (unat n) 0)" "[98, 0]" "[98]"]
    header_example_entry
  by (simp add: holds_string_def)

theorem ustar_open_read_witness:
  "\<exists>f. ustar_open_file (\<lambda>n. Some (replicate (unat n) 0)) memdisk_ops archive_example [97, 0] = Some (FS_SUCCESS, Some f) \<and>
    ustar_read (\<lambda>n. Some (replicate (unat n) 0)) memdisk_ops archive_example f 1 [9, 9, 9, 9] 4 =
      Some (2, [2, 3, 9, 9], archive_example)"
proof -
  have "\<exists>f. ustar_open_file (\<lambda>n. Some (replicate (unat n) 0)) memdisk_ops archive_example [97, 0] = Some (FS_SUCCESS, Some f) \<and>
    (\<forall>offset. ustar_read (\<lambda>n. Some (replicate (unat n) 0)) memdisk_ops archive_example f offset [9, 9, 9, 9] 4 =
      (let n = min (entry_size header_example - unat offset) (unat (4 :: u32))
       in Some (of_nat n, take n (drop (unat offset) ([1, 2, 3] @ replicate 509 0)) @ drop n [9, 9, 9, 9], archive_example)))"
    using header_example_entry header_example_fields
    by (intro ustar_open_read [OF archive_example_valid, where pre = "[]" and post = "[]" and path = "[97]"])
       (simp_all add: archive_example_bytes holds_string_def)
  then show ?thesis
    using header_example_entry(2) by (auto simp: Let_def dest!: spec [of _ "1 :: u64"])
qed

text \<open>
  C30: The offset in \<open>find_file\<close> is 32 bits wide. A first header that gives a file size of
  \<open>2\<^sup>3\<^sup>2 - 512\<close> bytes makes it wrap to where it was: looking up any other name then never returns.
\<close>

theorem ustar_find_file_wraps:
  assumes "memdisk_valid d" and "zeroing kmalloc" and "holds_string filepath path"
    and "take 512 (md_bytes d) = h" and "entry_ok (h, data)" and "is_file h"
    and "entry_size h = 2 ^ 32 - 512" and "entry_name h \<noteq> path"
  shows "find_file kmalloc memdisk_ops d filepath = None"
proof -
  have sz: "octal_string_to_u64 (hdr_filesize h) = Some 4294966784"
    using octal_entry [OF assms(5,6)] assms(7) by simp
  have "next_header h 0 = Some 0"
    using sz assms(6) by (simp add: next_header_def ceil_x_over_y_u32_def)
  moreover have "512 \<le> length (md_bytes d)"
  proof -
    have "length (take 512 (md_bytes d)) = 512" using assms(4,5) by (simp add: entry_ok_def)
    then show ?thesis by simp
  qed
  ultimately have "find_file_loop kmalloc memdisk_ops d filepath (replicate 512 0) 0 = None"
    using assms(4) by (intro md.find_file_loop_diverges [OF assms(1-3) _ _ _ assms(5,8)]) simp_all
  then show ?thesis using assms(2) by (simp add: find_file_def)
qed

definition wrap_header_example :: "u8 list" where
  "wrap_header_example = [97] @ replicate 123 0 @
     [0x33, 0x37, 0x37, 0x37, 0x37, 0x37, 0x37, 0x37, 0x30, 0x30, 0x30] @ replicate 21 0 @ [0x30] @ replicate 355 0"

definition wrap_example :: memdisk_data where
  "wrap_example = \<lparr>md_bytes = wrap_header_example, md_size = 512, md_read_only = True\<rparr>"

lemma wrap_header_fields:
  "length wrap_header_example = 512" "field_string (hdr_filename wrap_header_example) = [97]"
  "field_string (hdr_filesize wrap_header_example) =
     [0x33, 0x37, 0x37, 0x37, 0x37, 0x37, 0x37, 0x37, 0x30, 0x30, 0x30]"
  "is_file wrap_header_example" "hdr_filename_prefix wrap_header_example = replicate 167 0"
proof -
  show "field_string (hdr_filename wrap_header_example) = [97]"
    unfolding wrap_header_example_def hdr_filename_def by (rule field_string_zeros) simp_all
  have "hdr_filesize wrap_header_example =
      [0x33, 0x37, 0x37, 0x37, 0x37, 0x37, 0x37, 0x37, 0x30, 0x30, 0x30] @ replicate 21 0 @ [0x30] @ replicate 355 0"
    by (simp add: wrap_header_example_def hdr_filesize_def)
  then show "field_string (hdr_filesize wrap_header_example) =
      [0x33, 0x37, 0x37, 0x37, 0x37, 0x37, 0x37, 0x37, 0x30, 0x30, 0x30]"
    by (simp only:) (rule field_string_zeros; simp)
qed (simp_all add: wrap_header_example_def is_file_def hdr_type_def hdr_filename_prefix_def nth_append)

theorem ustar_find_file_wraps_witness:
  "find_file (\<lambda>n. Some (replicate (unat n) 0)) memdisk_ops wrap_example [98, 0] = None"
proof (rule ustar_find_file_wraps [of _ _ _ "[98]" wrap_header_example "replicate 4294966784 0"])
  show "entry_size wrap_header_example = 2 ^ 32 - 512"
    using wrap_header_fields by (simp add: entry_size_def octal_value_def)
  then show "entry_ok (wrap_header_example, replicate 4294966784 0)"
    using wrap_header_fields by (simp add: entry_ok_def ceil_div_def)
qed (use wrap_header_fields in \<open>simp_all add: wrap_example_def memdisk_valid_def MEMDISK_SEC_SIZE_def
    holds_string_def entry_name_def field_string_zeros [of "[]" _ "[]", simplified]\<close>)

text \<open>The digit \<open>8\<close> passes the check on octal digits.\<close>

lemma octal_accepts_eight: "octal_string_to_u64 [0x31, 0x38, 0] = Some 16"
  using octal_string_value [of "[0x31, 0x38, 0]" "[0x31, 0x38]"]
  by (simp add: holds_string_def octal_value_def)

end
