(* ===== verification/Sched.thy ===== *)
theory Sched
  imports Heap_Client
begin

text \<open>
  The scheduler: \<open>sched_core.c\<close>, the trivial scheduler \<open>ts.c\<close> with its run queue shared by all cpus, and
  the context switch of \<open>proc.c\<close> and \<open>proc_asm.S\<close>. \<open>percpu\<close> holds the per-cpu variables of every cpu;
  the cpu running the code is \<open>cpu_id\<close>. The run queue is the sequence of its processes
  (\<open>Kernel_List\<close>). Linking a process that is in the queue already would corrupt it and has no result.

  \<open>schedule\<close> is told from the cpu: it ends with the chosen process coming back from its own call of
  \<open>schedule\<close>. \<open>preempt_enable\<close> may call \<open>schedule\<close>, which calls functions that call \<open>preempt_enable\<close>; the
  functions below take the \<open>schedule\<close> to be called as an argument, and \<open>schedule\<close> itself runs on fuel.
  One unit is enough, as \<open>schedule_fuel\<close> shows. Stack pointers, address spaces and the TSS are left out
  of the context switch.
\<close>

subsection \<open>State\<close>

definition NO_PROC :: addr where
  "NO_PROC = - 1"

definition PROC_RUNNABLE :: u32 where
  "PROC_RUNNABLE = 0"

definition PROC_WAITING_EIP :: u32 where
  "PROC_WAITING_EIP = 1"

definition PROC_DEAD :: u32 where
  "PROC_DEAD = 2"

record percpu_vars =
  sched_running :: bool
  resched_flag :: bool
  context_switches :: u64
  preempt_count :: u32
  idle_proc :: addr
  curr_proc :: addr

record proc_info =
  state_flags :: u32
  proc_cpu :: u8
  exit_code :: u8
  pid :: u32
  file_table :: "addr list"

record sched_state = heap_state +
  SCHEDULER :: bool
  percpu :: "u8 \<Rightarrow> percpu_vars"
  procs :: "addr \<Rightarrow> proc_info"
  RUNQUEUE :: "addr list"
  RUNQUEUE_LOCK :: spinlock

definition proc_is_runnable :: "proc_info \<Rightarrow> bool" where
  "proc_is_runnable p \<longleftrightarrow> state_flags p = PROC_RUNNABLE"

definition proc_is_dead :: "proc_info \<Rightarrow> bool" where
  "proc_is_dead p \<longleftrightarrow> (state_flags p) AND PROC_DEAD \<noteq> 0"

subsection \<open>Preemption\<close>

definition preemptible :: "'a sched_state_scheme \<Rightarrow> bool" where
  "preemptible s \<longleftrightarrow> preempt_count (percpu s (cpu_id s)) = 0 \<and> int_flag s"

text \<open>\<open>this_cpu_var\<close> panics in preemptible code; \<open>set_this_cpu\<close> is the write access.\<close>

definition this_cpu :: "'a sched_state_scheme \<Rightarrow> percpu_vars option" where
  "this_cpu s = do {
     ASSERT (\<not> preemptible s);
     Some (percpu s (cpu_id s)) }"

definition set_this_cpu ::
  "(percpu_vars \<Rightarrow> percpu_vars) \<Rightarrow> 'a sched_state_scheme \<Rightarrow> 'a sched_state_scheme option" where
  "set_this_cpu f s = do {
     v \<leftarrow> this_cpu s;
     Some (s\<lparr>percpu := (percpu s)(cpu_id s := f v)\<rparr>) }"

definition preempt_disable :: "'a sched_state_scheme \<Rightarrow> 'a sched_state_scheme option" where
  "preempt_disable s = do {
     let flag = int_flag s;
     let s = cpu_set_interrupt_flag False s;
     s \<leftarrow> set_this_cpu (\<lambda>v. v\<lparr>preempt_count := preempt_count v + 1\<rparr>) s;
     Some (cpu_set_interrupt_flag flag s) }"

definition do_preempt_enable ::
  "('a sched_state_scheme \<Rightarrow> 'a sched_state_scheme option) \<Rightarrow> bool \<Rightarrow>
   'a sched_state_scheme \<Rightarrow> 'a sched_state_scheme option" where
  "do_preempt_enable sch resched s = do {
     let flag = int_flag s;
     let s = cpu_set_interrupt_flag False s;
     v \<leftarrow> this_cpu s;
     ASSERT (preempt_count v \<noteq> 0);
     s \<leftarrow> set_this_cpu (\<lambda>v. v\<lparr>preempt_count := preempt_count v - 1\<rparr>) s;
     v \<leftarrow> this_cpu s;
     let s = cpu_set_interrupt_flag flag s;
     if resched \<and> preempt_count v = 0 \<and> sched_running v then sch s else Some s }"

definition preempt_enable ::
  "('a sched_state_scheme \<Rightarrow> 'a sched_state_scheme option) \<Rightarrow> 'a sched_state_scheme \<Rightarrow> 'a sched_state_scheme option" where
  "preempt_enable sch s = do_preempt_enable sch True s"

definition preempt_enable_no_resched ::
  "('a sched_state_scheme \<Rightarrow> 'a sched_state_scheme option) \<Rightarrow> 'a sched_state_scheme \<Rightarrow> 'a sched_state_scheme option" where
  "preempt_enable_no_resched sch s = do_preempt_enable sch False s"

definition preempt_reset :: "'a sched_state_scheme \<Rightarrow> 'a sched_state_scheme" where
  "preempt_reset s = s\<lparr>percpu := (percpu s)(cpu_id s := (percpu s (cpu_id s))\<lparr>preempt_count := 0\<rparr>)\<rparr>"

definition get_curr_proc ::
  "('a sched_state_scheme \<Rightarrow> 'a sched_state_scheme option) \<Rightarrow> 'a sched_state_scheme \<Rightarrow>
   (addr \<times> 'a sched_state_scheme) option" where
  "get_curr_proc sch s = do {
     s \<leftarrow> preempt_disable s;
     v \<leftarrow> this_cpu s;
     s \<leftarrow> preempt_enable sch s;
     Some (curr_proc v, s) }"

definition set_curr_proc ::
  "('a sched_state_scheme \<Rightarrow> 'a sched_state_scheme option) \<Rightarrow> addr \<Rightarrow> 'a sched_state_scheme \<Rightarrow>
   'a sched_state_scheme option" where
  "set_curr_proc sch proc s = do {
     s \<leftarrow> preempt_disable s;
     s \<leftarrow> set_this_cpu (\<lambda>v. v\<lparr>curr_proc := proc\<rparr>) s;
     preempt_enable sch s }"

definition sched_resched ::
  "('a sched_state_scheme \<Rightarrow> 'a sched_state_scheme option) \<Rightarrow> 'a sched_state_scheme \<Rightarrow> 'a sched_state_scheme option" where
  "sched_resched sch s = do {
     s \<leftarrow> preempt_disable s;
     s \<leftarrow> set_this_cpu (\<lambda>v. v\<lparr>resched_flag := True\<rparr>) s;
     preempt_enable sch s }"

definition sched_running_on_cpu :: "'a sched_state_scheme \<Rightarrow> bool option" where
  "sched_running_on_cpu s = map_option sched_running (this_cpu s)"

definition cpu_is_idle :: "u8 \<Rightarrow> 'a sched_state_scheme \<Rightarrow> bool" where
  "cpu_is_idle cpu s \<longleftrightarrow> curr_proc (percpu s cpu) = idle_proc (percpu s cpu)"

subsection \<open>The trivial scheduler\<close>

definition lock_runqueue :: "'a sched_state_scheme \<Rightarrow> 'a sched_state_scheme option" where
  "lock_runqueue s = do {
     (l, s) \<leftarrow> spinlock_lock (RUNQUEUE_LOCK s) s;
     Some (s\<lparr>RUNQUEUE_LOCK := l\<rparr>) }"

definition unlock_runqueue :: "'a sched_state_scheme \<Rightarrow> 'a sched_state_scheme option" where
  "unlock_runqueue s = do {
     (l, s) \<leftarrow> spinlock_unlock (RUNQUEUE_LOCK s) s;
     Some (s\<lparr>RUNQUEUE_LOCK := l\<rparr>) }"

definition get_runqueue_and_lock :: "'a sched_state_scheme \<Rightarrow> (addr list \<times> 'a sched_state_scheme) option" where
  "get_runqueue_and_lock s = do {
     s \<leftarrow> lock_runqueue s;
     Some (RUNQUEUE s, s) }"

definition ts_sched_init :: "'a sched_state_scheme \<Rightarrow> 'a sched_state_scheme" where
  "ts_sched_init s = s\<lparr>RUNQUEUE := [], RUNQUEUE_LOCK := spinlock_init (RUNQUEUE_LOCK s)\<rparr>"

definition ts_enqueue_proc :: "addr \<Rightarrow> 'a sched_state_scheme \<Rightarrow> 'a sched_state_scheme option" where
  "ts_enqueue_proc proc s = do {
     (runqueue, s) \<leftarrow> get_runqueue_and_lock s;
     ASSERT (proc \<notin> set runqueue);
     unlock_runqueue (s\<lparr>RUNQUEUE := runqueue @ [proc]\<rparr>) }"

definition in_runqueue :: "addr \<Rightarrow> 'a sched_state_scheme \<Rightarrow> bool" where
  "in_runqueue proc s \<longleftrightarrow> proc \<in> set (RUNQUEUE s)"

definition ts_dequeue_proc :: "addr \<Rightarrow> 'a sched_state_scheme \<Rightarrow> 'a sched_state_scheme option" where
  "ts_dequeue_proc proc s = do {
     (runqueue, s) \<leftarrow> get_runqueue_and_lock s;
     ASSERT (in_runqueue proc s);
     unlock_runqueue (s\<lparr>RUNQUEUE := remove1 proc runqueue\<rparr>) }"

definition ts_update_curr :: "'a sched_state_scheme \<Rightarrow> 'a sched_state_scheme" where
  "ts_update_curr s = s"

definition ts_tick ::
  "('a sched_state_scheme \<Rightarrow> 'a sched_state_scheme option) \<Rightarrow> 'a sched_state_scheme \<Rightarrow> 'a sched_state_scheme option" where
  "ts_tick sch s = sched_resched sch s"

definition ts_pick_next_proc :: "'a sched_state_scheme \<Rightarrow> (addr \<times> 'a sched_state_scheme) option" where
  "ts_pick_next_proc s = do {
     (runqueue, s) \<leftarrow> get_runqueue_and_lock s;
     let (next, s) = (if runqueue = [] then (NO_PROC, s) else (hd runqueue, s\<lparr>RUNQUEUE := tl runqueue\<rparr>));
     s \<leftarrow> unlock_runqueue s;
     Some (next, s) }"

text \<open>Putting back the previous process is enqueuing it.\<close>

abbreviation ts_put_prev_proc :: "addr \<Rightarrow> 'a sched_state_scheme \<Rightarrow> 'a sched_state_scheme option" where
  "ts_put_prev_proc \<equiv> ts_enqueue_proc"

subsection \<open>Scheduling\<close>

definition sched_tick ::
  "('a sched_state_scheme \<Rightarrow> 'a sched_state_scheme option) \<Rightarrow> 'a sched_state_scheme \<Rightarrow> 'a sched_state_scheme option" where
  "sched_tick sch s = do {
     ASSERT (SCHEDULER s);
     s \<leftarrow> preempt_disable s;
     s \<leftarrow> ts_tick sch s;
     preempt_enable sch s }"

definition sched_enqueue_proc ::
  "('a sched_state_scheme \<Rightarrow> 'a sched_state_scheme option) \<Rightarrow> addr \<Rightarrow> 'a sched_state_scheme \<Rightarrow>
   'a sched_state_scheme option" where
  "sched_enqueue_proc sch proc s = do {
     ASSERT (SCHEDULER s);
     ASSERT (proc_is_runnable (procs s proc));
     s \<leftarrow> preempt_disable s;
     s \<leftarrow> ts_enqueue_proc proc s;
     preempt_enable sch s }"

definition sched_dequeue_proc ::
  "('a sched_state_scheme \<Rightarrow> 'a sched_state_scheme option) \<Rightarrow> addr \<Rightarrow> 'a sched_state_scheme \<Rightarrow>
   'a sched_state_scheme option" where
  "sched_dequeue_proc sch proc s = do {
     ASSERT (SCHEDULER s);
     s \<leftarrow> preempt_disable s;
     s \<leftarrow> ts_dequeue_proc proc s;
     preempt_enable sch s }"

definition sched_update_curr ::
  "('a sched_state_scheme \<Rightarrow> 'a sched_state_scheme option) \<Rightarrow> 'a sched_state_scheme \<Rightarrow> 'a sched_state_scheme option" where
  "sched_update_curr sch s = do {
     ASSERT (SCHEDULER s);
     let int_enabled = int_flag s;
     let s = cpu_set_interrupt_flag False s;
     (curr, s) \<leftarrow> get_curr_proc sch s;
     s \<leftarrow> (if \<not> proc_is_runnable (procs s curr) then sched_resched sch s else Some (ts_update_curr s));
     Some (cpu_set_interrupt_flag int_enabled s) }"

definition curr_cpu_need_resched ::
  "('a sched_state_scheme \<Rightarrow> 'a sched_state_scheme option) \<Rightarrow> 'a sched_state_scheme \<Rightarrow>
   (bool \<times> 'a sched_state_scheme) option" where
  "curr_cpu_need_resched sch s = do {
     (curr, s) \<leftarrow> get_curr_proc sch s;
     if curr = 0 \<or> cpu_is_idle (cpu_id s) s then Some (True, s)
     else do {
       v \<leftarrow> this_cpu s;
       Some (resched_flag v \<or> \<not> proc_is_runnable (procs s curr), s) } }"

definition sched_put_prev_proc ::
  "('a sched_state_scheme \<Rightarrow> 'a sched_state_scheme option) \<Rightarrow> addr \<Rightarrow> 'a sched_state_scheme \<Rightarrow>
   'a sched_state_scheme option" where
  "sched_put_prev_proc sch prev s = do {
     s \<leftarrow> preempt_disable s;
     v \<leftarrow> this_cpu s;
     s \<leftarrow> (if SCHEDULER s \<and> prev \<noteq> 0 \<and> prev \<noteq> idle_proc v \<and> proc_is_runnable (procs s prev)
          then ts_put_prev_proc prev s else Some s);
     preempt_enable sch s }"

text \<open>\<open>do_context_switch\<close> of \<open>proc_asm.S\<close>, from the stack switch on.\<close>

definition do_context_switch ::
  "('a sched_state_scheme \<Rightarrow> 'a sched_state_scheme option) \<Rightarrow> addr \<Rightarrow> addr \<Rightarrow> bool \<Rightarrow>
   'a sched_state_scheme \<Rightarrow> 'a sched_state_scheme option" where
  "do_context_switch sch prev next_proc irqs s = do {
     s \<leftarrow> (if prev \<noteq> 0 then sched_put_prev_proc sch prev s else Some s);
     s \<leftarrow> preempt_enable_no_resched sch s;
     Some (if irqs then s\<lparr>int_flag := True\<rparr> else s) }"

definition switch_to_proc ::
  "('a sched_state_scheme \<Rightarrow> 'a sched_state_scheme option) \<Rightarrow> addr \<Rightarrow> 'a sched_state_scheme \<Rightarrow>
   'a sched_state_scheme option" where
  "switch_to_proc sch proc s = do {
     ASSERT (\<not> preemptible s);
     let irqs = int_flag s;
     let s = cpu_set_interrupt_flag False s;
     (curr, s) \<leftarrow> get_curr_proc sch s;
     let s = s\<lparr>procs := (procs s)(proc := (procs s proc)\<lparr>proc_cpu := cpu_id s\<rparr>)\<rparr>;
     s \<leftarrow> set_curr_proc sch proc s;
     do_context_switch sch curr proc irqs s }"

definition schedule_body ::
  "('a sched_state_scheme \<Rightarrow> 'a sched_state_scheme option) \<Rightarrow> 'a sched_state_scheme \<Rightarrow> 'a sched_state_scheme option" where
  "schedule_body sch s = do {
     ASSERT (SCHEDULER s);
     if \<not> preemptible s then Some s
     else do {
       ASSERT (int_flag s);
       s \<leftarrow> preempt_disable s;
       (need, s) \<leftarrow> curr_cpu_need_resched sch s;
       s \<leftarrow> (if need then do {
             (curr, s) \<leftarrow> get_curr_proc sch s;
             v \<leftarrow> this_cpu s;
             let idle = idle_proc v;
             (nxt, s) \<leftarrow> ts_pick_next_proc s;
             let nxt = (if nxt = NO_PROC then idle else nxt);
             ASSERT (proc_is_runnable (procs s nxt));
             s \<leftarrow> set_this_cpu (\<lambda>v. v\<lparr>resched_flag := False\<rparr>) s;
             if nxt \<noteq> curr then do {
               s \<leftarrow> set_this_cpu (\<lambda>v. v\<lparr>context_switches := context_switches v + 1\<rparr>) s;
               switch_to_proc sch nxt s }
             else preempt_enable_no_resched sch s }
           else preempt_enable_no_resched sch s);
       ASSERT (int_flag s);
       ASSERT (preemptible s);
       Some s } }"

fun schedule :: "nat \<Rightarrow> 'a sched_state_scheme \<Rightarrow> 'a sched_state_scheme option" where
  "schedule 0 s = None"
| "schedule (Suc fuel) s = schedule_body (schedule fuel) s"

text \<open>
  \<open>sched_init\<close>: \<open>create_kproc\<close> gives the idle process of each cpu, or 0 when it fails.
\<close>

fun sched_init_cpus ::
  "(u8 \<Rightarrow> addr) \<Rightarrow> u8 list \<Rightarrow> 'a sched_state_scheme \<Rightarrow> 'a sched_state_scheme option" where
  "sched_init_cpus create_kproc [] s = Some s"
| "sched_init_cpus create_kproc (cpu # cpus) s = do {
     let idle = create_kproc cpu;
     ASSERT (idle \<noteq> 0);
     let v = (percpu s cpu)\<lparr>idle_proc := idle, curr_proc := 0, resched_flag := False, sched_running := False,
       context_switches := 0, preempt_count := 0\<rparr>;
     sched_init_cpus create_kproc cpus (s\<lparr>percpu := (percpu s)(cpu := v)\<rparr>) }"

definition sched_init ::
  "(u8 \<Rightarrow> addr) \<Rightarrow> u8 \<Rightarrow> 'a sched_state_scheme \<Rightarrow> 'a sched_state_scheme option" where
  "sched_init create_kproc ncpus s = do {
     s \<leftarrow> sched_init_cpus create_kproc (map of_nat [0..<unat ncpus]) s;
     Some (if SCHEDULER s then ts_sched_init s else s) }"

text \<open>\<open>sched_start\<close>; starting the timer of the local APIC has no effect on this state.\<close>

definition sched_start :: "nat \<Rightarrow> 'a sched_state_scheme \<Rightarrow> 'a sched_state_scheme option" where
  "sched_start fuel s = do {
     s \<leftarrow> set_this_cpu (\<lambda>v. v\<lparr>sched_running := True\<rparr>) s;
     s \<leftarrow> set_this_cpu (\<lambda>v. v\<lparr>preempt_count := 0\<rparr>) s;
     let s = cpu_set_interrupt_flag True s;
     schedule fuel s }"

text \<open>\<open>do_exit\<close> of \<open>syscalls.c\<close>, the way a process stops to be runnable.\<close>

definition do_exit ::
  "('a sched_state_scheme \<Rightarrow> 'a sched_state_scheme option) \<Rightarrow> u8 \<Rightarrow> 'a sched_state_scheme \<Rightarrow>
   'a sched_state_scheme option" where
  "do_exit sch code s = do {
     (curr, s) \<leftarrow> get_curr_proc sch s;
     let p = (procs s curr)\<lparr>exit_code := code\<rparr>;
     Some (s\<lparr>procs := (procs s)(curr := p\<lparr>state_flags := (state_flags p) OR PROC_DEAD\<rparr>)\<rparr>) }"

subsection \<open>Nested critical sections\<close>

abbreviation self :: "'a sched_state_scheme \<Rightarrow> percpu_vars" where
  "self s \<equiv> percpu s (cpu_id s)"

text \<open>
  Inside of a critical section (a count that is not 0 and does not overflow) disabling and enabling
  preemption is balanced and never schedules.
\<close>

definition in_section :: "'a sched_state_scheme \<Rightarrow> bool" where
  "in_section s \<longleftrightarrow> preempt_count (self s) \<noteq> 0 \<and> preempt_count (self s) + 1 \<noteq> 0"

lemma preempt_disable_eq [simp]:
  "preempt_disable s = Some (s\<lparr>percpu := (percpu s)(cpu_id s := (self s)\<lparr>preempt_count := preempt_count (self s) + 1\<rparr>)\<rparr>)"
  by (simp add: preempt_disable_def set_this_cpu_def this_cpu_def preemptible_def cpu_set_interrupt_flag_def)

lemma do_preempt_enable_eq:
  "preempt_count (self s) \<noteq> 0 \<Longrightarrow> do_preempt_enable sch r s =
    (let s' = s\<lparr>percpu := (percpu s)(cpu_id s := (self s)\<lparr>preempt_count := preempt_count (self s) - 1\<rparr>)\<rparr>
     in if r \<and> preempt_count (self s) = 1 \<and> sched_running (self s) then sch s' else Some s')"
  by (simp add: do_preempt_enable_def set_this_cpu_def this_cpu_def preemptible_def cpu_set_interrupt_flag_def
      ASSERT_bind Let_def)

lemma get_curr_proc_section:
  assumes "in_section s"
  shows "get_curr_proc sch s = Some (curr_proc (self s), s)"
  using assms
  by (simp add: get_curr_proc_def preempt_enable_def do_preempt_enable_eq in_section_def this_cpu_def preemptible_def
      ASSERT_bind Let_def)

lemma set_curr_proc_section:
  assumes "in_section s"
  shows "set_curr_proc sch p s = Some (s\<lparr>percpu := (percpu s)(cpu_id s := (self s)\<lparr>curr_proc := p\<rparr>)\<rparr>)"
  using assms
  by (simp add: set_curr_proc_def preempt_enable_def do_preempt_enable_eq in_section_def set_this_cpu_def this_cpu_def
      preemptible_def ASSERT_bind Let_def)

lemma set_this_cpu_section:
  assumes "in_section s"
  shows "set_this_cpu f s = Some (s\<lparr>percpu := (percpu s)(cpu_id s := f (self s))\<rparr>)"
  using assms by (simp add: set_this_cpu_def this_cpu_def in_section_def preemptible_def ASSERT_bind)

lemma this_cpu_section: "in_section s \<Longrightarrow> this_cpu s = Some (self s)"
  by (simp add: this_cpu_def in_section_def preemptible_def ASSERT_bind)

lemma ts_pick_next_proc_eq:
  assumes "lock_free (RUNQUEUE_LOCK s)"
  shows "ts_pick_next_proc s = Some (if RUNQUEUE s = [] then NO_PROC else hd (RUNQUEUE s),
    s\<lparr>RUNQUEUE := tl (RUNQUEUE s), RUNQUEUE_LOCK := released (int_flag s)\<rparr>)"
  using assms by (cases "RUNQUEUE s")
    (simp_all add: ts_pick_next_proc_def get_runqueue_and_lock_def lock_runqueue_def unlock_runqueue_def)

lemma ts_enqueue_proc_eq:
  assumes "lock_free (RUNQUEUE_LOCK s)" and "p \<notin> set (RUNQUEUE s)"
  shows "ts_enqueue_proc p s = Some (s\<lparr>RUNQUEUE := RUNQUEUE s @ [p], RUNQUEUE_LOCK := released (int_flag s)\<rparr>)"
  using assms by (simp add: ts_enqueue_proc_def get_runqueue_and_lock_def lock_runqueue_def unlock_runqueue_def ASSERT_bind)

lemma sched_put_prev_proc_section:
  assumes sec: "in_section s" and rq: "lock_free (RUNQUEUE_LOCK s)" "SCHEDULER s" "p \<notin> set (RUNQUEUE s)"
  shows "sched_put_prev_proc sch p s =
    Some (if p \<noteq> 0 \<and> p \<noteq> idle_proc (self s) \<and> proc_is_runnable (procs s p)
      then s\<lparr>RUNQUEUE := RUNQUEUE s @ [p], RUNQUEUE_LOCK := released (int_flag s)\<rparr> else s)"
proof -
  let ?s = "s\<lparr>percpu := (percpu s)(cpu_id s := (self s)\<lparr>preempt_count := preempt_count (self s) + 1\<rparr>)\<rparr>"
  have "ts_enqueue_proc p ?s = Some (?s\<lparr>RUNQUEUE := RUNQUEUE s @ [p], RUNQUEUE_LOCK := released (int_flag s)\<rparr>)"
    using ts_enqueue_proc_eq [of ?s p] rq by simp
  then show ?thesis
    using sec rq
    by (simp add: sched_put_prev_proc_def preempt_enable_def do_preempt_enable_eq in_section_def this_cpu_def
        preemptible_def ASSERT_bind Let_def)
qed

text \<open>What the switch away from \<open>curr\<close> leaves in the run queue.\<close>

definition put_back :: "'a sched_state_scheme \<Rightarrow> addr list" where
  "put_back s = (let curr = curr_proc (self s)
     in if curr \<noteq> 0 \<and> curr \<noteq> idle_proc (self s) \<and> proc_is_runnable (procs s curr) then [curr] else [])"

definition put_back_lock :: "'a sched_state_scheme \<Rightarrow> spinlock" where
  "put_back_lock s = (if put_back s = [] then RUNQUEUE_LOCK s else released False)"

lemma switch_to_proc_eq:
  assumes cnt: "preempt_count (self s) = 1" "int_flag s"
    and rq: "lock_free (RUNQUEUE_LOCK s)" "SCHEDULER s" "curr_proc (self s) \<notin> set (RUNQUEUE s)" "p \<noteq> curr_proc (self s)"
  shows "switch_to_proc sch p s = Some (s\<lparr>
      percpu := (percpu s)(cpu_id s := (self s)\<lparr>curr_proc := p, preempt_count := 0\<rparr>),
      procs := (procs s)(p := (procs s p)\<lparr>proc_cpu := cpu_id s\<rparr>),
      RUNQUEUE := RUNQUEUE s @ put_back s, RUNQUEUE_LOCK := put_back_lock s\<rparr>)"
proof -
  let ?curr = "curr_proc (self s)"
  let ?s0 = "s\<lparr>int_flag := False\<rparr>"
  let ?s1 = "?s0\<lparr>procs := (procs s)(p := (procs s p)\<lparr>proc_cpu := cpu_id s\<rparr>)\<rparr>"
  let ?s2 = "?s1\<lparr>percpu := (percpu s)(cpu_id s := (self s)\<lparr>curr_proc := p\<rparr>)\<rparr>"
  have sec: "in_section ?s0" "in_section ?s1" "in_section ?s2" using cnt by (simp_all add: in_section_def)
  have enter: "switch_to_proc sch p s = do_context_switch sch ?curr p True ?s2"
    using get_curr_proc_section [OF sec(1), of sch] set_curr_proc_section [OF sec(2), of sch p] cnt
    by (simp add: switch_to_proc_def preemptible_def cpu_set_interrupt_flag_def ASSERT_bind Let_def)
  let ?s3 = "?s2\<lparr>RUNQUEUE := RUNQUEUE s @ put_back s, RUNQUEUE_LOCK := put_back_lock s\<rparr>"
  have "proc_is_runnable (procs ?s2 ?curr) = proc_is_runnable (procs s ?curr)" using rq(4) by simp
  moreover have "s\<lparr>RUNQUEUE := RUNQUEUE s, RUNQUEUE_LOCK := RUNQUEUE_LOCK s\<rparr> = s" by simp
  ultimately have "(if ?curr \<noteq> 0 then sched_put_prev_proc sch ?curr ?s2 else Some ?s2) = Some ?s3"
    using sched_put_prev_proc_section [OF sec(3), of ?curr sch] rq
    by (simp add: put_back_def put_back_lock_def Let_def)
  then have "do_context_switch sch ?curr p True ?s2 = Some (?s3\<lparr>int_flag := True,
      percpu := (percpu s)(cpu_id s := (self s)\<lparr>curr_proc := p, preempt_count := 0\<rparr>)\<rparr>)"
    using cnt by (simp add: do_context_switch_def preempt_enable_no_resched_def do_preempt_enable_eq Let_def)
  then show ?thesis using enter cnt by simp
qed

subsection \<open>One call of schedule\<close>

definition needs_resched :: "'a sched_state_scheme \<Rightarrow> bool" where
  "needs_resched s \<longleftrightarrow> curr_proc (self s) = 0 \<or> curr_proc (self s) = idle_proc (self s) \<or> resched_flag (self s) \<or>
     \<not> proc_is_runnable (procs s (curr_proc (self s)))"

definition next_proc :: "'a sched_state_scheme \<Rightarrow> addr" where
  "next_proc s = (if RUNQUEUE s = [] then idle_proc (self s) else hd (RUNQUEUE s))"

text \<open>
  The queues of a scheduler at work on \<open>N\<close> cpus: the queue lock is free, every process in the queue is
  runnable and in it once, the idle processes are runnable and never queued, and what a cpu runs is not
  queued.
\<close>

definition queues_ok :: "u8 \<Rightarrow> 'a sched_state_scheme \<Rightarrow> bool" where
  "queues_ok N s \<longleftrightarrow> SCHEDULER s \<and> lock_free (RUNQUEUE_LOCK s) \<and> distinct (RUNQUEUE s) \<and>
     0 \<notin> set (RUNQUEUE s) \<and> NO_PROC \<notin> set (RUNQUEUE s) \<and>
     (\<forall>p \<in> set (RUNQUEUE s). proc_is_runnable (procs s p)) \<and>
     (\<forall>c < N. idle_proc (percpu s c) \<noteq> 0 \<and> proc_is_runnable (procs s (idle_proc (percpu s c))) \<and>
          idle_proc (percpu s c) \<notin> set (RUNQUEUE s) \<and> curr_proc (percpu s c) \<notin> set (RUNQUEUE s) \<and>
          idle_proc (percpu s c) \<noteq> NO_PROC \<and> curr_proc (percpu s c) \<noteq> NO_PROC)"

lemma queues_ok_self:
  assumes "queues_ok N s" and "cpu_id s < N"
  shows "SCHEDULER s" "lock_free (RUNQUEUE_LOCK s)" "NO_PROC \<notin> set (RUNQUEUE s)"
    "curr_proc (self s) \<notin> set (RUNQUEUE s)" "proc_is_runnable (procs s (next_proc s))"
  using assms by (auto simp: queues_ok_def next_proc_def)

text \<open>
  What \<open>schedule\<close> does to a preemptible cpu that needs it: the next process is the first of the queue,
  the idle process when it is empty, and the old one joins the end of the queue.
\<close>

definition reschedule :: "'a sched_state_scheme \<Rightarrow> 'a sched_state_scheme" where
  "reschedule s = (let curr = curr_proc (self s); nxt = next_proc s; same = (nxt = curr)
     in s\<lparr>percpu := (percpu s)(cpu_id s := (self s)\<lparr>resched_flag := False, curr_proc := nxt,
            context_switches := context_switches (self s) + (if same then 0 else 1)\<rparr>),
          procs := (if same then procs s else (procs s)(nxt := (procs s nxt)\<lparr>proc_cpu := cpu_id s\<rparr>)),
          RUNQUEUE := tl (RUNQUEUE s) @ (if same then [] else put_back s),
          RUNQUEUE_LOCK := released (same \<or> put_back s = [])\<rparr>)"

lemma count_unchanged:
  "preempt_count (self s) = n \<Longrightarrow> (self s)\<lparr>preempt_count := n\<rparr> = self s"
  by (cases "self s") auto

lemma schedule_idles:
  assumes "queues_ok N s" "cpu_id s < N" and "preemptible s" and "\<not> needs_resched s"
  shows "schedule_body sch s = Some s"
proof -
  let ?s1 = "s\<lparr>percpu := (percpu s)(cpu_id s := (self s)\<lparr>preempt_count := 1\<rparr>)\<rparr>"
  have p: "preempt_count (self s) = 0" "int_flag s" using assms(3) by (simp_all add: preemptible_def)
  have sec: "in_section ?s1" by (simp add: in_section_def)
  have "curr_cpu_need_resched sch ?s1 = Some (False, ?s1)"
    using get_curr_proc_section [OF sec, of sch] this_cpu_section [OF sec] assms(4)
    by (auto simp: curr_cpu_need_resched_def needs_resched_def cpu_is_idle_def)
  moreover have "preempt_enable_no_resched sch ?s1 = Some s"
    using count_unchanged [OF p(1)] by (simp add: preempt_enable_no_resched_def do_preempt_enable_eq Let_def)
  ultimately show ?thesis
    using queues_ok_self(1) [OF assms(1,2)] assms(3) p by (simp add: schedule_body_def)
qed

lemma schedule_switches:
  assumes ok: "queues_ok N s" "cpu_id s < N" and p: "preemptible s" and need: "needs_resched s"
  shows "schedule_body sch s = Some (reschedule s)"
proof -
  let ?c = "cpu_id s" and ?curr = "curr_proc (self s)" and ?nxt = "next_proc s"
  let ?s1 = "s\<lparr>percpu := (percpu s)(?c := (self s)\<lparr>preempt_count := 1\<rparr>)\<rparr>"
  let ?s2 = "?s1\<lparr>RUNQUEUE := tl (RUNQUEUE s), RUNQUEUE_LOCK := released True\<rparr>"
  let ?s3 = "?s2\<lparr>percpu := (percpu s)(?c := (self s)\<lparr>preempt_count := 1, resched_flag := False\<rparr>)\<rparr>"
  let ?s4 = "?s3\<lparr>percpu := (percpu s)(?c := (self s)\<lparr>preempt_count := 1, resched_flag := False,
      context_switches := context_switches (self s) + 1\<rparr>)\<rparr>"
  note q = queues_ok_self [OF ok]
  have pc: "preempt_count (self s) = 0" "int_flag s" using p by (simp_all add: preemptible_def)
  have sec: "in_section ?s1" "in_section ?s2" "in_section ?s3" by (simp_all add: in_section_def)
  have nr: "curr_cpu_need_resched sch ?s1 = Some (True, ?s1)"
    using get_curr_proc_section [OF sec(1), of sch] this_cpu_section [OF sec(1)] need
    by (auto simp: curr_cpu_need_resched_def needs_resched_def cpu_is_idle_def)
  obtain n where pick: "ts_pick_next_proc ?s1 = Some (n, ?s2)"
    and nxt: "(if n = NO_PROC then idle_proc (self s) else n) = ?nxt"
    using ts_pick_next_proc_eq [of ?s1] q(2,3) pc(2) by (cases "RUNQUEUE s") (auto simp: next_proc_def)
  have body: "schedule_body sch s = do {
      s' \<leftarrow> (if ?nxt \<noteq> ?curr then switch_to_proc sch ?nxt ?s4 else preempt_enable_no_resched sch ?s3);
      ASSERT (int_flag s');
      ASSERT (preemptible s');
      Some s' }"
    using nr pick nxt q(1,5) p pc get_curr_proc_section [OF sec(1), of sch] this_cpu_section [OF sec(1)]
      set_this_cpu_section [OF sec(2)] set_this_cpu_section [OF sec(3)]
    by (cases "n = NO_PROC") (simp_all add: schedule_body_def ASSERT_bind Let_def)
  show ?thesis
  proof (cases "?nxt = ?curr")
    case True
    then have "RUNQUEUE s = []" using q(4) by (cases "RUNQUEUE s") (auto simp: next_proc_def)
    moreover have "preempt_enable_no_resched sch ?s3 =
        Some (?s3\<lparr>percpu := (percpu s)(?c := (self s)\<lparr>resched_flag := False, preempt_count := 0\<rparr>)\<rparr>)"
      by (simp add: preempt_enable_no_resched_def do_preempt_enable_eq Let_def)
    moreover have "(self s)\<lparr>resched_flag := False, preempt_count := 0\<rparr> = (self s)\<lparr>resched_flag := False\<rparr>"
      "(self s)\<lparr>resched_flag := False, curr_proc := ?curr, context_switches := context_switches (self s)\<rparr> =
       (self s)\<lparr>resched_flag := False\<rparr>"
      using pc by (auto intro: percpu_vars.equality)
    ultimately show ?thesis
      using body True pc by (simp add: reschedule_def Let_def preemptible_def ASSERT_bind)
  next
    case False
    have nin: "?curr \<notin> set (tl (RUNQUEUE s))" using q(4) by (cases "RUNQUEUE s") auto
    have "put_back ?s4 = put_back s" by (simp add: put_back_def)
    then have "switch_to_proc sch ?nxt ?s4 = Some (?s4\<lparr>
        percpu := (percpu s)(?c := (self s)\<lparr>resched_flag := False,
          context_switches := context_switches (self s) + 1, curr_proc := ?nxt, preempt_count := 0\<rparr>),
        procs := (procs s)(?nxt := (procs s ?nxt)\<lparr>proc_cpu := ?c\<rparr>),
        RUNQUEUE := tl (RUNQUEUE s) @ put_back s, RUNQUEUE_LOCK := released (put_back s = [])\<rparr>)"
      using switch_to_proc_eq [of ?s4 ?nxt sch] pc(2) q(1) nin False by (auto simp: put_back_lock_def)
    moreover have "(self s)\<lparr>resched_flag := False, context_switches := context_switches (self s) + 1,
        curr_proc := ?nxt, preempt_count := 0\<rparr> =
      (self s)\<lparr>resched_flag := False, curr_proc := ?nxt, context_switches := context_switches (self s) + 1\<rparr>"
      using pc by (auto intro: percpu_vars.equality)
    ultimately show ?thesis
      using body False pc by (simp add: reschedule_def Let_def preemptible_def ASSERT_bind)
  qed
qed

definition scheduled :: "'a sched_state_scheme \<Rightarrow> 'a sched_state_scheme" where
  "scheduled s = (if preemptible s \<and> needs_resched s then reschedule s else s)"

lemma schedule_fuel:
  assumes "queues_ok N s" and "cpu_id s < N"
  shows "schedule (Suc fuel) s = Some (scheduled s)"
proof (cases "preemptible s")
  case True
  then show ?thesis
    using schedule_switches [OF assms True] schedule_idles [OF assms True]
    by (cases "needs_resched s") (simp_all add: scheduled_def)
next
  case False
  then show ?thesis
    using assms by (simp add: schedule_body_def scheduled_def queues_ok_def ASSERT_bind)
qed

subsection \<open>All cpus\<close>

text \<open>The state as cpu \<open>c\<close> sees it, with its interrupts on or off.\<close>

definition on_cpu :: "u8 \<Rightarrow> bool \<Rightarrow> 'a sched_state_scheme \<Rightarrow> 'a sched_state_scheme" where
  "on_cpu c irqs s = s\<lparr>cpu_id := c, int_flag := irqs\<rparr>"

lemma on_cpu_simps [simp]:
  "cpu_id (on_cpu c irqs s) = c" "int_flag (on_cpu c irqs s) = irqs" "SCHEDULER (on_cpu c irqs s) = SCHEDULER s"
  "percpu (on_cpu c irqs s) = percpu s" "procs (on_cpu c irqs s) = procs s"
  "RUNQUEUE (on_cpu c irqs s) = RUNQUEUE s" "RUNQUEUE_LOCK (on_cpu c irqs s) = RUNQUEUE_LOCK s"
  by (simp_all add: on_cpu_def)

text \<open>
  What a cpu may do, with its interrupts on or off: take a tick of the timer, call \<open>schedule\<close>, make a new
  process runnable, end the process it runs, start its scheduler. A process that is preempted inside of
  \<open>do_exit\<close>, before it is marked dead, is a call of \<open>schedule\<close> followed by the exit.
\<close>

inductive sched_step :: "u8 \<Rightarrow> sched_state \<Rightarrow> sched_state \<Rightarrow> bool" for N :: u8 where
  ticks: "c < N \<Longrightarrow> sched_tick (schedule 1) (on_cpu c irqs s) = Some s' \<Longrightarrow> sched_step N s s'"
| schedules: "c < N \<Longrightarrow> schedule 1 (on_cpu c irqs s) = Some s' \<Longrightarrow> sched_step N s s'"
| spawns: "c < N \<Longrightarrow> p \<noteq> 0 \<Longrightarrow> p \<noteq> NO_PROC \<Longrightarrow> p \<notin> set (RUNQUEUE s) \<Longrightarrow>
    (\<forall>d < N. p \<noteq> curr_proc (percpu s d) \<and> p \<noteq> idle_proc (percpu s d)) \<Longrightarrow>
    sched_enqueue_proc (schedule 1) p (on_cpu c irqs s) = Some s' \<Longrightarrow> sched_step N s s'"
| exits: "c < N \<Longrightarrow> curr_proc (percpu s c) \<noteq> 0 \<Longrightarrow> curr_proc (percpu s c) \<noteq> idle_proc (percpu s c) \<Longrightarrow>
    \<not> needs_resched (on_cpu c irqs s) \<Longrightarrow> do_exit (schedule 1) code (on_cpu c irqs s) = Some s' \<Longrightarrow> sched_step N s s'"
| starts: "c < N \<Longrightarrow> curr_proc (percpu s c) = 0 \<Longrightarrow> sched_start 1 (on_cpu c False s) = Some s' \<Longrightarrow> sched_step N s s'"

definition one_cpu_each :: "u8 \<Rightarrow> 'a sched_state_scheme \<Rightarrow> bool" where
  "one_cpu_each N s \<longleftrightarrow> (\<forall>c < N. \<forall>d < N. c \<noteq> d \<longrightarrow>
     idle_proc (percpu s c) \<noteq> idle_proc (percpu s d) \<and> curr_proc (percpu s c) \<noteq> idle_proc (percpu s d) \<and>
     (curr_proc (percpu s c) \<noteq> curr_proc (percpu s d) \<or> curr_proc (percpu s c) = 0))"

definition sched_ok :: "u8 \<Rightarrow> 'a sched_state_scheme \<Rightarrow> bool" where
  "sched_ok N s \<longleftrightarrow> queues_ok N s \<and> one_cpu_each N s \<and> (\<forall>c < N. preempt_count (percpu s c) = 0)"

lemma sched_ok_on_cpu [simp]: "sched_ok N (on_cpu c irqs s) = sched_ok N s" "queues_ok N (on_cpu c irqs s) = queues_ok N s"
  by (simp_all add: sched_ok_def queues_ok_def one_cpu_each_def)

text \<open>The invariant reads the queue, the flags of the processes and what the cpus run.\<close>

lemma sched_ok_cong:
  assumes "sched_ok N s" and "lock_free (RUNQUEUE_LOCK s')" "SCHEDULER s' = SCHEDULER s" "RUNQUEUE s' = RUNQUEUE s"
    "\<And>p. state_flags (procs s' p) = state_flags (procs s p)"
    "\<And>c. c < N \<Longrightarrow> idle_proc (percpu s' c) = idle_proc (percpu s c) \<and> curr_proc (percpu s' c) = curr_proc (percpu s c) \<and>
      preempt_count (percpu s' c) = preempt_count (percpu s c)"
  shows "sched_ok N s'"
  using assms by (simp add: sched_ok_def queues_ok_def one_cpu_each_def proc_is_runnable_def)

lemma queues_ok_cpu:
  assumes "queues_ok N s" and "d < N"
  shows "idle_proc (percpu s d) \<noteq> 0" "proc_is_runnable (procs s (idle_proc (percpu s d)))"
    "idle_proc (percpu s d) \<notin> set (RUNQUEUE s)" "curr_proc (percpu s d) \<notin> set (RUNQUEUE s)"
    "idle_proc (percpu s d) \<noteq> NO_PROC" "curr_proc (percpu s d) \<noteq> NO_PROC"
  using assms by (auto simp: queues_ok_def)

lemma one_cpu_eachD:
  assumes "one_cpu_each N s" and "c < N" "d < N" "c \<noteq> d"
  shows "idle_proc (percpu s c) \<noteq> idle_proc (percpu s d)" "curr_proc (percpu s c) \<noteq> idle_proc (percpu s d)"
    "curr_proc (percpu s c) = curr_proc (percpu s d) \<Longrightarrow> curr_proc (percpu s c) = 0"
  using assms by (auto simp: one_cpu_each_def)

lemma reschedule_ok:
  assumes ok: "sched_ok N s" and c: "cpu_id s < N"
  shows "sched_ok N (reschedule s)"
proof -
  have q: "queues_ok N s" and one: "one_cpu_each N s" and cnt: "\<forall>c < N. preempt_count (percpu s c) = 0"
    using ok by (simp_all add: sched_ok_def)
  let ?nxt = "next_proc s" and ?rq = "RUNQUEUE (reschedule s)"
  have pc: "idle_proc (percpu (reschedule s) d) = idle_proc (percpu s d)"
    "preempt_count (percpu (reschedule s) d) = preempt_count (percpu s d)"
    "curr_proc (percpu (reschedule s) d) = (if d = cpu_id s then ?nxt else curr_proc (percpu s d))" for d
    by (simp_all add: reschedule_def Let_def)
  have run: "proc_is_runnable (procs (reschedule s) p) = proc_is_runnable (procs s p)" for p
    by (simp add: reschedule_def Let_def proc_is_runnable_def)
  have sub: "p \<in> set ?rq \<Longrightarrow> p \<in> set (RUNQUEUE s) \<or> (p = curr_proc (self s) \<and> p \<noteq> 0 \<and> p \<noteq> idle_proc (self s) \<and>
      p \<noteq> ?nxt \<and> proc_is_runnable (procs s p))" for p
    by (cases "RUNQUEUE s") (auto simp: reschedule_def Let_def put_back_def split: if_splits)
  have nxt: "?nxt \<in> set (RUNQUEUE s) \<or> ?nxt = idle_proc (self s)" by (simp add: next_proc_def)
  have out: "?nxt \<notin> set ?rq"
  proof (cases "RUNQUEUE s")
    case Nil
    then show ?thesis using sub [of ?nxt] by auto
  next
    case (Cons p ps)
    then show ?thesis
      using q c by (auto simp: queues_ok_def next_proc_def reschedule_def Let_def put_back_def)
  qed
  have dist: "distinct ?rq"
    using q c by (cases "RUNQUEUE s") (auto simp: queues_ok_def reschedule_def Let_def put_back_def)
  have idle: "idle_proc (percpu s d) \<notin> set ?rq" if d: "d < N" for d
    using sub [of "idle_proc (percpu s d)"] queues_ok_cpu(3) [OF q d] one_cpu_eachD(2) [OF one c d]
    by (cases "d = cpu_id s") auto
  have curr: "curr_proc (percpu s d) \<notin> set ?rq" if d: "d < N" "d \<noteq> cpu_id s" for d
    using sub [of "curr_proc (percpu s d)"] queues_ok_cpu(4) [OF q d(1)] one_cpu_eachD(3) [OF one c d(1)] d(2) by auto
  have base: "SCHEDULER (reschedule s) = SCHEDULER s" "lock_free (RUNQUEUE_LOCK (reschedule s))"
    by (simp_all add: reschedule_def Let_def)
  have mem: "0 \<notin> set ?rq" "NO_PROC \<notin> set ?rq" "\<forall>p \<in> set ?rq. proc_is_runnable (procs s p)"
    using sub [of 0] sub [of NO_PROC] sub q queues_ok_cpu(6) [OF q c] unfolding queues_ok_def by auto
  have q': "queues_ok N (reschedule s)"
    using q out dist idle curr nxt base mem queues_ok_cpu [OF q]
    by (auto simp: queues_ok_def pc run)
  have fresh: "?nxt \<noteq> idle_proc (percpu s d)" "?nxt \<noteq> curr_proc (percpu s d)" if d: "d < N" "d \<noteq> cpu_id s" for d
    using nxt queues_ok_cpu [OF q d(1)] one_cpu_eachD [OF one c d(1)] one_cpu_eachD(2) [OF one d(1) c] d(2) by auto
  have "one_cpu_each N (reschedule s)"
    unfolding one_cpu_each_def pc using fresh fresh [symmetric] one_cpu_eachD [OF one] by auto
  then show ?thesis using q' cnt by (simp add: sched_ok_def pc)
qed

lemma scheduled_ok: "sched_ok N s \<Longrightarrow> cpu_id s < N \<Longrightarrow> sched_ok N (scheduled s)"
  by (simp add: scheduled_def reschedule_ok)

lemma schedule_sched_ok: "sched_ok N s \<Longrightarrow> cpu_id s < N \<Longrightarrow> schedule 1 s = Some (scheduled s)"
  using schedule_fuel [of N s 0] by (simp add: sched_ok_def)

definition ticked :: "'a sched_state_scheme \<Rightarrow> 'a sched_state_scheme" where
  "ticked s = s\<lparr>percpu := (percpu s)(cpu_id s := (self s)\<lparr>resched_flag := True\<rparr>)\<rparr>"

lemma ticked_ok:
  assumes "sched_ok N s"
  shows "sched_ok N (ticked s)"
  using assms by (rule sched_ok_cong) (use assms in \<open>auto simp: ticked_def sched_ok_def queues_ok_def\<close>)

text \<open>A tick marks the cpu, and schedules at once where the tick interrupts preemptible code.\<close>

lemma sched_tick_eq:
  assumes ok: "sched_ok N s" and c: "cpu_id s < N"
  shows "sched_tick (schedule 1) s = Some (if sched_running (self s) then scheduled (ticked s) else ticked s)"
proof -
  have sch: "schedule 1 (ticked s) = Some (scheduled (ticked s))"
    using schedule_sched_ok [OF ticked_ok [OF ok]] c by (simp add: ticked_def)
  have cnt: "preempt_count (self s) = 0" "SCHEDULER s"
    using assms by (simp_all add: sched_ok_def queues_ok_def)
  then have restored: "(self s)\<lparr>resched_flag := True, preempt_count := 0\<rparr> = (self s)\<lparr>resched_flag := True\<rparr>"
    by (auto intro: percpu_vars.equality)
  show ?thesis
    using cnt sch
    by (simp add: sched_tick_def ts_tick_def sched_resched_def preempt_enable_def do_preempt_enable_eq set_this_cpu_section
        in_section_def ASSERT_bind Let_def restored ticked_def)
qed

text \<open>A new process joins the end of the queue; a preemptible cpu that runs the scheduler then schedules.\<close>

definition enqueued :: "addr \<Rightarrow> 'a sched_state_scheme \<Rightarrow> 'a sched_state_scheme" where
  "enqueued p s = s\<lparr>RUNQUEUE := RUNQUEUE s @ [p], RUNQUEUE_LOCK := released (int_flag s)\<rparr>"

lemma enqueued_ok:
  assumes ok: "sched_ok N s" and p: "p \<noteq> 0" "p \<noteq> NO_PROC" "p \<notin> set (RUNQUEUE s)" "proc_is_runnable (procs s p)"
    "\<forall>d < N. p \<noteq> curr_proc (percpu s d) \<and> p \<noteq> idle_proc (percpu s d)"
  shows "sched_ok N (enqueued p s)"
  using assms by (auto simp: sched_ok_def queues_ok_def one_cpu_each_def enqueued_def)

lemma sched_enqueue_proc_eq:
  assumes ok: "sched_ok N s" and c: "cpu_id s < N"
    and p: "p \<noteq> 0" "p \<noteq> NO_PROC" "p \<notin> set (RUNQUEUE s)"
    "\<forall>d < N. p \<noteq> curr_proc (percpu s d) \<and> p \<noteq> idle_proc (percpu s d)"
  shows "sched_enqueue_proc (schedule 1) p s = (if proc_is_runnable (procs s p)
    then Some (if sched_running (self s) then scheduled (enqueued p s) else enqueued p s) else None)"
proof (cases "proc_is_runnable (procs s p)")
  case True
  let ?s1 = "s\<lparr>percpu := (percpu s)(cpu_id s := (self s)\<lparr>preempt_count := 1\<rparr>)\<rparr>"
  have cnt: "preempt_count (self s) = 0" and q: "SCHEDULER s" "lock_free (RUNQUEUE_LOCK s)"
    using ok c by (simp_all add: sched_ok_def queues_ok_def)
  have "schedule 1 (enqueued p s) = Some (scheduled (enqueued p s))"
    using schedule_fuel [of N "enqueued p s" 0] enqueued_ok [OF ok p(1-3) True p(4)] c
    by (simp add: sched_ok_def) (simp add: enqueued_def)
  moreover have "ts_enqueue_proc p ?s1 = Some (?s1\<lparr>RUNQUEUE := RUNQUEUE s @ [p], RUNQUEUE_LOCK := released (int_flag s)\<rparr>)"
    using ts_enqueue_proc_eq [of ?s1 p] q p(3) by simp
  ultimately show ?thesis
    using True cnt q
    by (simp add: sched_enqueue_proc_def preempt_enable_def do_preempt_enable_eq ASSERT_bind Let_def enqueued_def
        count_unchanged [OF cnt])
next
  case False
  then show ?thesis by (simp add: sched_enqueue_proc_def ASSERT_bind)
qed

text \<open>Code that has no reason to be rescheduled finds its own process, whether it can be preempted or not.\<close>

definition calm :: "u8 \<Rightarrow> 'a sched_state_scheme \<Rightarrow> bool" where
  "calm N s \<longleftrightarrow> sched_ok N s \<and> cpu_id s < N \<and> \<not> needs_resched s"

lemma get_curr_proc_calm:
  assumes "calm N s"
  shows "get_curr_proc (schedule 1) s = Some (curr_proc (self s), s)"
proof -
  have cnt: "preempt_count (self s) = 0" using assms by (simp add: calm_def sched_ok_def)
  have "schedule 1 s = Some s"
    using schedule_sched_ok [of N s] assms by (simp add: calm_def scheduled_def)
  then show ?thesis
    using cnt
    by (simp add: get_curr_proc_def preempt_enable_def do_preempt_enable_eq this_cpu_section in_section_def
        ASSERT_bind Let_def count_unchanged [OF cnt])
qed

lemma do_exit_ok:
  assumes ok: "sched_ok N s" and c: "cpu_id s < N"
    and no: "\<not> needs_resched s" and curr: "curr_proc (self s) \<noteq> idle_proc (self s)"
  shows "\<exists>s'. do_exit (schedule 1) code s = Some s' \<and> sched_ok N s' \<and> \<not> proc_is_runnable (procs s' (curr_proc (self s)))
    \<and> curr_proc (self s') = curr_proc (self s)"
proof -
  let ?p = "curr_proc (self s)"
  let ?s' = "s\<lparr>procs := (procs s)(?p := (procs s ?p)\<lparr>exit_code := code,
    state_flags := (state_flags (procs s ?p)) OR PROC_DEAD\<rparr>)\<rparr>"
  have q: "queues_ok N s" and one: "one_cpu_each N s" using ok by (simp_all add: sched_ok_def)
  have "do_exit (schedule 1) code s = Some ?s'"
    using get_curr_proc_calm [of N s] ok c no by (simp add: do_exit_def calm_def Let_def)
  moreover have "idle_proc (percpu s d) \<noteq> ?p" if "d < N" for d
    using curr one_cpu_eachD(2) [OF one c that] by (cases "d = cpu_id s") auto
  then have "sched_ok N ?s'"
    using ok queues_ok_cpu(4) [OF q c] by (auto simp: sched_ok_def queues_ok_def one_cpu_each_def)
  ultimately show ?thesis by (auto simp: proc_is_runnable_def PROC_DEAD_def PROC_RUNNABLE_def or_eq_0_iff)
qed

definition started :: "'a sched_state_scheme \<Rightarrow> 'a sched_state_scheme" where
  "started s = s\<lparr>percpu := (percpu s)(cpu_id s := (self s)\<lparr>sched_running := True\<rparr>), int_flag := True\<rparr>"

lemma sched_start_eq:
  assumes ok: "sched_ok N s" and c: "cpu_id s < N" and irq: "\<not> int_flag s"
  shows "sched_start (Suc fuel) s = Some (scheduled (started s))" "sched_ok N (scheduled (started s))"
proof -
  have ok': "sched_ok N (started s)"
    using ok by (rule sched_ok_cong) (use ok in \<open>auto simp: started_def sched_ok_def queues_ok_def\<close>)
  have c': "cpu_id (started s) < N" using c by (simp add: started_def)
  have cnt: "preempt_count (self s) = 0" using ok c by (simp add: sched_ok_def)
  then have same: "(self s)\<lparr>sched_running := True, preempt_count := 0\<rparr> = (self s)\<lparr>sched_running := True\<rparr>"
    by (auto intro: percpu_vars.equality)
  have "sched_start (Suc fuel) s = schedule (Suc fuel) (started s)"
    using irq by (simp add: sched_start_def set_this_cpu_def this_cpu_def preemptible_def cpu_set_interrupt_flag_def
        ASSERT_bind Let_def started_def same del: schedule.simps)
  then show "sched_start (Suc fuel) s = Some (scheduled (started s))"
    using schedule_fuel [of N "started s" fuel] ok' c' by (simp add: sched_ok_def)
  show "sched_ok N (scheduled (started s))" using scheduled_ok [OF ok' c'] .
qed

lemma sched_step_ok:
  assumes "sched_step N s s'" and "sched_ok N s"
  shows "sched_ok N s'"
  using assms
proof (induction rule: sched_step.induct)
  case (ticks c irqs s s')
  then show ?case
    using sched_tick_eq [of N "on_cpu c irqs s"] ticked_ok [of N "on_cpu c irqs s"] scheduled_ok [of N "ticked (on_cpu c irqs s)"]
    by (auto simp: ticked_def split: if_splits)
next
  case (schedules c irqs s s')
  then show ?case
    using schedule_sched_ok [of N "on_cpu c irqs s"] scheduled_ok [of N "on_cpu c irqs s"] by simp
next
  case (spawns c p s irqs s')
  let ?s = "on_cpu c irqs s"
  have "sched_ok N ?s" using spawns by simp
  with spawns have "proc_is_runnable (procs s p)" "s' = (if sched_running (self ?s) then scheduled (enqueued p ?s) else enqueued p ?s)"
    using sched_enqueue_proc_eq [of N ?s p] by (auto split: if_splits)
  then show ?case using enqueued_ok [of N ?s p] scheduled_ok [of N "enqueued p ?s"] spawns by (simp add: enqueued_def)
next
  case (exits c s irqs code s')
  then show ?case using do_exit_ok [where N = N and s = "on_cpu c irqs s" and code = code] by auto
next
  case (starts c s s')
  then show ?case using sched_start_eq(1) [of N "on_cpu c False s" 0] sched_start_eq(2) [of N "on_cpu c False s"] by auto
qed

lemma sched_steps_ok: "(sched_step N)\<^sup>*\<^sup>* s s' \<Longrightarrow> sched_ok N s \<Longrightarrow> sched_ok N s'"
  by (induction rule: rtranclp_induct) (auto intro: sched_step_ok)

subsection \<open>Initialisation\<close>

lemma sched_init_cpus_eq:
  "\<forall>c \<in> set cpus. create_kproc c \<noteq> 0 \<Longrightarrow> sched_init_cpus create_kproc cpus s = Some (s\<lparr>percpu := (\<lambda>c.
     if c \<in> set cpus then (percpu s c)\<lparr>idle_proc := create_kproc c, curr_proc := 0, resched_flag := False,
       sched_running := False, context_switches := 0, preempt_count := 0\<rparr> else percpu s c)\<rparr>)"
proof (induction cpus arbitrary: s)
  case (Cons c cpus)
  then show ?case by (auto simp: ASSERT_bind Let_def intro!: ext sched_state.equality)
qed simp

lemma cpus_below: "set (map of_nat [0..<unat N]) = {c. c < (N :: u8)}"
proof -
  have "c \<in> of_nat ` {0..<unat N}" if "c < N" for c :: u8
    using that by (intro image_eqI [of _ _ "unat c"]) (simp_all add: word_less_nat_alt)
  moreover have "of_nat n < N" if "n < unat N" for n
    using that unsigned_less [of N] by (simp add: word_less_nat_alt unat_of_nat)
  ultimately show ?thesis by auto
qed

lemma sched_init_ok:
  assumes create: "\<forall>c < N. create_kproc c \<noteq> 0 \<and> create_kproc c \<noteq> NO_PROC \<and> proc_is_runnable (procs s (create_kproc c))"
    "\<forall>c < N. \<forall>d < N. create_kproc c = create_kproc d \<longrightarrow> c = d" and sch: "SCHEDULER s"
  shows "\<exists>s'. sched_init create_kproc N s = Some s' \<and> sched_ok N s' \<and> RUNQUEUE s' = [] \<and>
    (\<forall>c < N. idle_proc (percpu s' c) = create_kproc c \<and> curr_proc (percpu s' c) = 0)"
proof -
  have "\<forall>c \<in> set (map of_nat [0..<unat N]). create_kproc c \<noteq> 0" using create(1) unfolding cpus_below by simp
  note init = sched_init_cpus_eq [OF this, of s, unfolded cpus_below]
  have "NO_PROC \<noteq> 0" by (simp add: NO_PROC_def)
  then show ?thesis
    using init create sch
    by (auto simp: sched_init_def ts_sched_init_def sched_ok_def queues_ok_def one_cpu_each_def spinlock_init_def)
qed

subsection \<open>Dispatch order\<close>

text \<open>A time slice ends on cpu \<open>c\<close>: the timer ticks while it runs preemptible code.\<close>

definition end_slice :: "u8 \<Rightarrow> sched_state \<Rightarrow> sched_state option" where
  "end_slice c s = sched_tick (schedule 1) (on_cpu c True s)"

fun end_slices :: "u8 list \<Rightarrow> sched_state \<Rightarrow> sched_state option" where
  "end_slices [] s = Some s"
| "end_slices (c # cs) s = do {
     s \<leftarrow> end_slice c s;
     end_slices cs s }"

lemma end_slice_eq:
  assumes ok: "sched_ok N s" and c: "c < N" "sched_running (percpu s c)" and rq: "RUNQUEUE s = p # ps"
  shows "\<exists>s' l. end_slice c s = Some s' \<and> sched_ok N s' \<and> RUNQUEUE s' = ps @ l \<and> curr_proc (percpu s' c) = p \<and>
    (\<forall>d. sched_running (percpu s' d) = sched_running (percpu s d))"
proof -
  let ?s = "ticked (on_cpu c True s)"
  have ok': "sched_ok N ?s" "cpu_id ?s < N" using ticked_ok [of N "on_cpu c True s"] ok c by (simp_all add: ticked_def)
  have "preempt_count (percpu s c) = 0" using ok c by (simp add: sched_ok_def)
  then have "scheduled ?s = reschedule ?s"
    by (simp add: scheduled_def preemptible_def needs_resched_def ticked_def)
  then have "end_slice c s = Some (reschedule ?s)"
    using sched_tick_eq [of N "on_cpu c True s"] ok c by (simp add: end_slice_def)
  moreover have "sched_ok N (reschedule ?s)" using reschedule_ok [OF ok'] .
  moreover have "\<exists>l. RUNQUEUE (reschedule ?s) = ps @ l" "curr_proc (percpu (reschedule ?s) c) = p"
    "\<forall>d. sched_running (percpu (reschedule ?s) d) = sched_running (percpu s d)"
    using rq by (auto simp: reschedule_def Let_def next_proc_def ticked_def)
  ultimately show ?thesis by blast
qed

lemma end_slices_order:
  assumes "sched_ok N s" "\<forall>c \<in> set cs. c < N \<and> sched_running (percpu s c)" "i < length (RUNQUEUE s)" "i < length cs"
  shows "\<exists>s'. end_slices (take (Suc i) cs) s = Some s' \<and> curr_proc (percpu s' (cs ! i)) = RUNQUEUE s ! i"
  using assms
proof (induction i arbitrary: cs s)
  case 0
  then obtain c cs' p ps where "cs = c # cs'" "RUNQUEUE s = p # ps" by (cases cs; cases "RUNQUEUE s") auto
  then show ?case using end_slice_eq [of N s c p ps] 0 by auto
next
  case (Suc i)
  then obtain c cs' p ps where cs: "cs = c # cs'" and rq: "RUNQUEUE s = p # ps" by (cases cs; cases "RUNQUEUE s") auto
  then obtain s1 l where s1: "end_slice c s = Some s1" "sched_ok N s1" "RUNQUEUE s1 = ps @ l"
      "\<forall>d. sched_running (percpu s1 d) = sched_running (percpu s d)"
    using end_slice_eq [of N s c p ps] Suc.prems by auto
  moreover have "(ps @ l) ! i = ps ! i" using Suc.prems(3) rq by (simp add: nth_append)
  ultimately show ?case using Suc.IH [of s1 cs'] Suc.prems cs rq by auto
qed

subsection \<open>Properties\<close>


definition two_idle :: "u8 \<Rightarrow> addr" where
  "two_idle c = (if c = 0 then 0x1000 else 0x2000)"

definition boot_state :: sched_state where
  "boot_state = \<lparr>cpu_id = 0, int_flag = False, error_list = [], error_descs = [], kmalloc_answers = [], kmalloc_live = {}, SCHEDULER = True,
     percpu = (\<lambda>_. \<lparr>sched_running = False, resched_flag = False, context_switches = 0, preempt_count = 1,
       idle_proc = 0, curr_proc = 0\<rparr>),
     procs = (\<lambda>_. \<lparr>state_flags = PROC_RUNNABLE, proc_cpu = 0, exit_code = 0, pid = 0, file_table = []\<rparr>),
     RUNQUEUE = [], RUNQUEUE_LOCK = INIT_SPINLOCK\<rparr>"

lemma two_idle_boot:
  "\<forall>c < 2. two_idle c \<noteq> 0 \<and> two_idle c \<noteq> NO_PROC \<and> proc_is_runnable (procs boot_state (two_idle c))"
  "\<forall>c < 2. \<forall>d < 2. two_idle c = two_idle d \<longrightarrow> c = d" "SCHEDULER boot_state"
proof -
  have small: "c = 0 \<or> c = 1" if "c < 2" for c :: u8
  proof -
    have "unat c < 2" using that by (simp add: word_less_nat_alt)
    then have "unat c = 0 \<or> unat c = 1" by linarith
    then show ?thesis by (simp add: word_unat_eq_iff)
  qed
  show "\<forall>c < 2. \<forall>d < 2. two_idle c = two_idle d \<longrightarrow> c = d" by (auto simp: two_idle_def dest!: small)
qed (auto simp: two_idle_def NO_PROC_def boot_state_def proc_is_runnable_def)


text \<open>
  C7: processes are dispatched in the order of the run queue by all cpus together. Whichever cpu ends a
  time slice next, the process at position \<open>i\<close> of the queue runs after \<open>i + 1\<close> of them, on the cpu of the
  last: no process of the queue starves, and no call of \<open>schedule\<close> fails to return.
\<close>

theorem dispatch_in_queue_order:
  assumes "sched_ok N s" "\<forall>c \<in> set cs. c < N \<and> sched_running (percpu s c)" "i < length (RUNQUEUE s)" "i < length cs"
  shows "\<exists>s'. end_slices (take (Suc i) cs) s = Some s' \<and> curr_proc (percpu s' (cs ! i)) = RUNQUEUE s ! i"
  using end_slices_order [OF assms] .

definition queue_state :: sched_state where
  "queue_state = \<lparr>cpu_id = 0, int_flag = True, error_list = [], error_descs = [], kmalloc_answers = [], kmalloc_live = {}, SCHEDULER = True,
     percpu = (\<lambda>c. \<lparr>sched_running = True, resched_flag = False, context_switches = 0, preempt_count = 0,
       idle_proc = two_idle c, curr_proc = two_idle c\<rparr>),
     procs = (\<lambda>_. \<lparr>state_flags = PROC_RUNNABLE, proc_cpu = 0, exit_code = 0, pid = 0, file_table = []\<rparr>),
     RUNQUEUE = [0x3000, 0x4000, 0x5000], RUNQUEUE_LOCK = INIT_SPINLOCK\<rparr>"

lemma queue_state_ok: "sched_ok 2 queue_state"
proof -
  have idle: "two_idle c \<noteq> 0" "two_idle c \<noteq> NO_PROC" "two_idle c \<notin> set [0x3000, 0x4000, 0x5000]" for c
    by (simp_all add: two_idle_def NO_PROC_def)
  have rq: "distinct (RUNQUEUE queue_state)" "0 \<notin> set (RUNQUEUE queue_state)" "NO_PROC \<notin> set (RUNQUEUE queue_state)"
    by (simp_all add: queue_state_def NO_PROC_def)
  have "queues_ok 2 queue_state"
    unfolding queues_ok_def using rq idle by (simp add: queue_state_def proc_is_runnable_def)
  moreover have "one_cpu_each 2 queue_state"
    using two_idle_boot(2) by (auto simp: one_cpu_each_def queue_state_def)
  ultimately show ?thesis by (simp add: sched_ok_def queue_state_def)
qed

theorem dispatch_in_queue_order_witness:
  "\<exists>s'. end_slices [1, 0, 1] queue_state = Some s' \<and> curr_proc (percpu s' 1) = 0x5000"
  using dispatch_in_queue_order [OF queue_state_ok, of "[1, 0, 1]" 2] by (simp add: queue_state_def numeral_2_eq_2)

end
