(* ===== verification/Vfs.thy ===== *)
theory Vfs
  imports Ustar Sched
begin

text \<open>
  The virtual file system of \<open>vfs.c\<close>: mounting disks, and opening, sharing, reading, writing and
  closing files. A path is the string a \<open>pathname_t\<close> points to, without its terminator. The two linked
  lists are the sequences of their entries, first to last, which is what \<open>Kernel_List\<close> shows the list
  routines to maintain. Structures are objects at addresses; using an address that holds no object has
  no result. The allocator is the one of \<open>Heap_Client\<close>.
\<close>

subsection \<open>File systems, mounts and files\<close>

type_synonym path = "u8 list"

text \<open>\<open>struct file_ops\<close>; the file is given by its disk and its private data.\<close>

record ('d, 'p) file_ops =
  fo_read :: "'d \<Rightarrow> 'p \<Rightarrow> u64 \<Rightarrow> u8 list \<Rightarrow> u32 \<Rightarrow> (u32 \<times> u8 list \<times> 'd) option"
  fo_write :: "'d \<Rightarrow> 'p \<Rightarrow> u64 \<Rightarrow> u8 list \<Rightarrow> u32 \<Rightarrow> (u32 \<times> u8 list \<times> 'd) option"

text \<open>
  \<open>struct fs\<close> with its \<open>struct fs_ops\<close>. \<open>fs_open\<close> returns what it stores into the fields of the file
  that belong to the file system.
\<close>

record ('d, 'p) fs =
  fs_detect :: "'d \<Rightarrow> bool option"
  fs_create :: "'d \<Rightarrow> path \<Rightarrow> fs_op_res option"
  fs_open :: "'d \<Rightarrow> path \<Rightarrow> (fs_op_res \<times> (('d, 'p) file_ops \<times> 'p) option) option"
  fs_close :: "'p option \<Rightarrow> unit option"
  fs_delete :: "'d \<Rightarrow> path \<Rightarrow> 'd option"

record ('d, 'p) mount =
  mount_point :: path
  mount_disk :: addr
  mount_fs :: "('d, 'p) fs"

record ('d, 'p) vfs_file =
  abs_path :: path
  abs_path_ptr :: addr
  fs_relative_path :: path
  file_disk :: addr
  file_lock :: rwlock
  file_fops :: "('d, 'p) file_ops option"
  fs_private :: "'p option"
  open_ref_count :: atomic

record ('d, 'p) vfs_state = sched_state +
  disks :: "addr \<Rightarrow> 'd"
  MOUNTS :: "addr list"
  mount_at :: "addr \<rightharpoonup> ('d, 'p) mount"
  MOUNTS_LOCK :: spinlock
  OPENED_FILES :: "addr list"
  file_at :: "addr \<rightharpoonup> ('d, 'p) vfs_file"
  OPENED_FILES_LOCK :: spinlock

definition init_vfs :: "('d, 'p, 'b) vfs_state_scheme \<Rightarrow> ('d, 'p, 'b) vfs_state_scheme" where
  "init_vfs s = s\<lparr>MOUNTS := [], OPENED_FILES := []\<rparr>"

definition lock_mounts :: "('d, 'p, 'b) vfs_state_scheme \<Rightarrow> ('d, 'p, 'b) vfs_state_scheme option" where
  "lock_mounts s = do {
     (l, s) \<leftarrow> spinlock_lock (MOUNTS_LOCK s) s;
     Some (s\<lparr>MOUNTS_LOCK := l\<rparr>) }"

definition unlock_mounts :: "('d, 'p, 'b) vfs_state_scheme \<Rightarrow> ('d, 'p, 'b) vfs_state_scheme option" where
  "unlock_mounts s = do {
     (l, s) \<leftarrow> spinlock_unlock (MOUNTS_LOCK s) s;
     Some (s\<lparr>MOUNTS_LOCK := l\<rparr>) }"

definition lock_files :: "('d, 'p, 'b) vfs_state_scheme \<Rightarrow> ('d, 'p, 'b) vfs_state_scheme option" where
  "lock_files s = do {
     (l, s) \<leftarrow> spinlock_lock (OPENED_FILES_LOCK s) s;
     Some (s\<lparr>OPENED_FILES_LOCK := l\<rparr>) }"

definition unlock_files :: "('d, 'p, 'b) vfs_state_scheme \<Rightarrow> ('d, 'p, 'b) vfs_state_scheme option" where
  "unlock_files s = do {
     (l, s) \<leftarrow> spinlock_unlock (OPENED_FILES_LOCK s) s;
     Some (s\<lparr>OPENED_FILES_LOCK := l\<rparr>) }"

subsection \<open>Mounting\<close>

fun get_fs_for_disk :: "('d, 'p) fs list \<Rightarrow> 'd \<Rightarrow> ('d, 'p) fs option option" where
  "get_fs_for_disk [] disk = Some None"
| "get_fs_for_disk (f # fs) disk = do {
     found \<leftarrow> fs_detect f disk;
     if found then Some (Some f) else get_fs_for_disk fs disk }"

definition mount_target_is_valid :: "path \<Rightarrow> bool" where
  "mount_target_is_valid pathname \<longleftrightarrow>
     (let len = length pathname
      in len \<noteq> 0 \<and> pathname ! 0 = 0x2F \<and> pathname ! (len - 1) = 0x2F)"

text \<open>\<open>list_for_each_entry\<close> over the mounts with a \<open>break\<close> at a mount point.\<close>

fun find_mount_point :: "(addr \<rightharpoonup> ('d, 'p) mount) \<Rightarrow> addr list \<Rightarrow> path \<Rightarrow> addr option option" where
  "find_mount_point ma [] target = Some None"
| "find_mount_point ma (m # ms) target = do {
     it \<leftarrow> ma m;
     if mount_point it = target then Some (Some m) else find_mount_point ma ms target }"

definition kfree_mount :: "addr \<Rightarrow> ('d, 'p, 'b) vfs_state_scheme \<Rightarrow> ('d, 'p, 'b) vfs_state_scheme option" where
  "kfree_mount m s = do {
     s \<leftarrow> kfree m s;
     Some (s\<lparr>mount_at := (mount_at s)(m := None)\<rparr>) }"

definition vfs_mount ::
  "('d, 'p) fs list \<Rightarrow> addr \<Rightarrow> path \<Rightarrow> ('d, 'p, 'b) vfs_state_scheme \<Rightarrow>
   (bool \<times> ('d, 'p, 'b) vfs_state_scheme) option" where
  "vfs_mount SUPPORTED_FS disk target s = do {
     ASSERT (mount_target_is_valid target);
     let (mount, s) = kmalloc s;
     if mount = 0 then do {
       s \<leftarrow> set_error ENONE s;
       Some (False, s) }
     else do {
       fs \<leftarrow> get_fs_for_disk SUPPORTED_FS (disks s disk);
       case fs of
         None \<Rightarrow> do {
           s \<leftarrow> set_error ENOFSIMPL s;
           s \<leftarrow> kfree_mount mount s;
           Some (False, s) }
       | Some f \<Rightarrow> do {
           let s = s\<lparr>mount_at := (mount_at s)(mount \<mapsto>
             \<lparr>mount_point = target, mount_disk = disk, mount_fs = f\<rparr>)\<rparr>;
           s \<leftarrow> lock_mounts s;
           it \<leftarrow> find_mount_point (mount_at s) (MOUNTS s) target;
           case it of
             Some other \<Rightarrow> do {
               s \<leftarrow> unlock_mounts s;
               s \<leftarrow> set_error EMOUNTED s;
               s \<leftarrow> kfree_mount mount s;
               Some (False, s) }
           | None \<Rightarrow> do {
               let s = s\<lparr>MOUNTS := MOUNTS s @ [mount]\<rparr>;
               s \<leftarrow> unlock_mounts s;
               Some (True, s) } } } }"

text \<open>
  \<open>list_del\<close> of an entry. Of the entry that contains the list head itself it leaves an empty list behind
  (\<open>dlist_del_head\<close> of \<open>Kernel_List\<close>).
\<close>

definition list_del_entry :: "addr \<Rightarrow> addr list \<Rightarrow> addr list" where
  "list_del_entry x xs = (if x \<in> set xs then remove1 x xs else [])"

text \<open>
  \<open>vfs_unmount\<close>. \<open>head\<close> is the address of \<open>MOUNTS\<close>: when no mount matches, the loop leaves \<open>mount\<close> at the
  entry computed from the list head, 12 bytes below it.
\<close>

definition vfs_unmount ::
  "addr \<Rightarrow> path \<Rightarrow> ('d, 'p, 'b) vfs_state_scheme \<Rightarrow> (bool \<times> ('d, 'p, 'b) vfs_state_scheme) option" where
  "vfs_unmount head pathname s = do {
     s \<leftarrow> lock_mounts s;
     it \<leftarrow> find_mount_point (mount_at s) (MOUNTS s) pathname;
     let mount = (case it of Some m \<Rightarrow> m | None \<Rightarrow> head - 12);
     if MOUNTS s = [] \<or> mount = 0 then do {
       s \<leftarrow> unlock_mounts s;
       s \<leftarrow> set_error ENOTMOUNTPOINT s;
       Some (False, s) }
     else do {
       let s = s\<lparr>MOUNTS := list_del_entry mount (MOUNTS s)\<rparr>;
       s \<leftarrow> unlock_mounts s;
       s \<leftarrow> kfree_mount mount s;
       Some (True, s) } }"

text \<open>\<open>is_under_mount\<close>: the loop over the characters of the mount point.\<close>

fun under_loop :: "path \<Rightarrow> path \<Rightarrow> bool" where
  "under_loop [] filename = True"
| "under_loop (c # cs) [] = False"
| "under_loop (c # cs) (d # ds) = (if c \<noteq> d then False else under_loop cs ds)"

definition is_under_mount :: "('d, 'p) mount \<Rightarrow> path \<Rightarrow> nat" where
  "is_under_mount mount filename =
     (let mount_len = length (mount_point mount);
          filename_len = length filename
      in if filename_len < mount_len then 0
         else if under_loop (mount_point mount) filename then mount_len else 0)"

fun best_mount_loop ::
  "(addr \<rightharpoonup> ('d, 'p) mount) \<Rightarrow> path \<Rightarrow> addr list \<Rightarrow> addr option \<Rightarrow> nat \<Rightarrow> addr option option" where
  "best_mount_loop ma filename [] best longest = Some best"
| "best_mount_loop ma filename (m # ms) best longest = do {
     mount \<leftarrow> ma m;
     let common = is_under_mount mount filename;
     if longest < common then best_mount_loop ma filename ms (Some m) common
     else best_mount_loop ma filename ms best longest }"

definition find_mount_for_file ::
  "path \<Rightarrow> ('d, 'p, 'b) vfs_state_scheme \<Rightarrow> (addr option \<times> ('d, 'p, 'b) vfs_state_scheme) option" where
  "find_mount_for_file filename s = do {
     s \<leftarrow> lock_mounts s;
     best_mount \<leftarrow> best_mount_loop (mount_at s) filename (MOUNTS s) None 0;
     s \<leftarrow> unlock_mounts s;
     Some (best_mount, s) }"

subsection \<open>Opening and closing\<close>

definition kfree_file :: "addr \<Rightarrow> ('d, 'p, 'b) vfs_state_scheme \<Rightarrow> ('d, 'p, 'b) vfs_state_scheme option" where
  "kfree_file f s = do {
     s \<leftarrow> kfree f s;
     Some (s\<lparr>file_at := (file_at s)(f := None)\<rparr>) }"

text \<open>
  The second half of \<open>open_file\<close>: the new \<open>struct file\<close> is initialised, and the file system fills in
  its fields under the lock of the file.
\<close>

definition finish_open ::
  "path \<Rightarrow> addr \<Rightarrow> addr \<Rightarrow> ('d, 'p) mount \<Rightarrow> ('d, 'p, 'b) vfs_state_scheme \<Rightarrow>
   (addr \<times> ('d, 'p, 'b) vfs_state_scheme) option" where
  "finish_open filename filename_cpy f mount s = do {
     let rel_path = drop (length (mount_point mount)) filename;
     (lock, s) \<leftarrow> rwlock_write_lock INIT_RW_LOCK s;
     (res, fields) \<leftarrow> fs_open (mount_fs mount) (disks s (mount_disk mount)) rel_path;
     (lock, s) \<leftarrow> rwlock_write_unlock lock s;
     let s = s\<lparr>file_at := (file_at s)(f \<mapsto>
       \<lparr>abs_path = filename, abs_path_ptr = filename_cpy, fs_relative_path = rel_path,
        file_disk = mount_disk mount, file_lock = lock, file_fops = map_option fst fields,
        fs_private = map_option snd fields, open_ref_count = atomic_init 1\<rparr>)\<rparr>;
     if res = FS_SUCCESS then Some (f, s)
     else do {
       s \<leftarrow> kfree filename_cpy s;
       s \<leftarrow> kfree_file f s;
       s \<leftarrow> set_error ENOTFOUND s;
       Some (0, s) } }"

text \<open>\<open>open_file\<close>; the address 0 stands for the \<open>NULL\<close> it returns on failure.\<close>

definition open_file ::
  "path \<Rightarrow> ('d, 'p, 'b) vfs_state_scheme \<Rightarrow> (addr \<times> ('d, 'p, 'b) vfs_state_scheme) option" where
  "open_file filename s = do {
     ASSERT (spinlock_is_held (OPENED_FILES_LOCK s) s);
     (mnt, s) \<leftarrow> find_mount_for_file filename s;
     case mnt of
       None \<Rightarrow> do {
         s \<leftarrow> set_error ENOTFOUND s;
         Some (0, s) }
     | Some m \<Rightarrow> do {
         mount \<leftarrow> mount_at s m;
         let (filename_cpy, s) = kmalloc s;
         if filename_cpy = 0 then do {
           s \<leftarrow> set_error ENONE s;
           Some (0, s) }
         else do {
           let (f, s) = kmalloc s;
           if f = 0 then do {
             s \<leftarrow> set_error ENONE s;
             s \<leftarrow> kfree filename_cpy s;
             Some (0, s) }
           else finish_open filename filename_cpy f mount s } } }"

fun find_opened :: "(addr \<rightharpoonup> ('d, 'p) vfs_file) \<Rightarrow> addr list \<Rightarrow> path \<Rightarrow> addr option option" where
  "find_opened fa [] filename = Some None"
| "find_opened fa (f # fs) filename = do {
     it \<leftarrow> fa f;
     if abs_path it = filename then Some (Some f) else find_opened fa fs filename }"

definition lookup_file :: "path \<Rightarrow> ('d, 'p, 'b) vfs_state_scheme \<Rightarrow> addr option option" where
  "lookup_file filename s = do {
     ASSERT (spinlock_is_held (OPENED_FILES_LOCK s) s);
     find_opened (file_at s) (OPENED_FILES s) filename }"

definition lookup_file_or_open ::
  "path \<Rightarrow> ('d, 'p, 'b) vfs_state_scheme \<Rightarrow> (addr \<times> ('d, 'p, 'b) vfs_state_scheme) option" where
  "lookup_file_or_open filename s = do {
     s \<leftarrow> lock_files s;
     found \<leftarrow> lookup_file filename s;
     case found of
       Some f \<Rightarrow> do {
         it \<leftarrow> file_at s f;
         let s = s\<lparr>file_at := (file_at s)(f \<mapsto> it\<lparr>open_ref_count := atomic_inc (open_ref_count it)\<rparr>)\<rparr>;
         s \<leftarrow> unlock_files s;
         Some (f, s) }
     | None \<Rightarrow> do {
         (f, s) \<leftarrow> open_file filename s;
         if f = 0 then do {
           s \<leftarrow> unlock_files s;
           Some (0, s) }
         else do {
           let s = s\<lparr>OPENED_FILES := f # OPENED_FILES s\<rparr>;
           s \<leftarrow> unlock_files s;
           Some (f, s) } } }"

definition vfs_open ::
  "path \<Rightarrow> ('d, 'p, 'b) vfs_state_scheme \<Rightarrow> (addr \<times> ('d, 'p, 'b) vfs_state_scheme) option" where
  "vfs_open filename s = lookup_file_or_open filename s"

definition close_file :: "addr \<Rightarrow> ('d, 'p, 'b) vfs_state_scheme \<Rightarrow> ('d, 'p, 'b) vfs_state_scheme option" where
  "close_file f s = do {
     ASSERT (spinlock_is_held (OPENED_FILES_LOCK s) s);
     it \<leftarrow> file_at s f;
     other \<leftarrow> lookup_file (abs_path it) s;
     ASSERT (other = None);
     (mnt, s) \<leftarrow> find_mount_for_file (abs_path it) s;
     m \<leftarrow> mnt;
     mount \<leftarrow> mount_at s m;
     (lock, s) \<leftarrow> rwlock_write_lock (file_lock it) s;
     fs_close (mount_fs mount) (fs_private it);
     (lock, s) \<leftarrow> rwlock_write_unlock lock s;
     s \<leftarrow> kfree (abs_path_ptr it) s;
     kfree_file f s }"

definition vfs_close :: "addr \<Rightarrow> ('d, 'p, 'b) vfs_state_scheme \<Rightarrow> ('d, 'p, 'b) vfs_state_scheme option" where
  "vfs_close f s = do {
     s \<leftarrow> lock_files s;
     it \<leftarrow> file_at s f;
     let (last, cnt) = atomic_dec_and_test (open_ref_count it);
     let s = s\<lparr>file_at := (file_at s)(f \<mapsto> it\<lparr>open_ref_count := cnt\<rparr>)\<rparr>;
     s \<leftarrow> (if last then close_file f (s\<lparr>OPENED_FILES := list_del_entry f (OPENED_FILES s)\<rparr>) else Some s);
     unlock_files s }"

subsection \<open>Reading, writing and deleting\<close>

definition vfs_read ::
  "addr \<Rightarrow> u64 \<Rightarrow> u8 list \<Rightarrow> u32 \<Rightarrow> ('d, 'p, 'b) vfs_state_scheme \<Rightarrow>
   (u32 \<times> u8 list \<times> ('d, 'p, 'b) vfs_state_scheme) option" where
  "vfs_read f offset buf len s = do {
     it \<leftarrow> file_at s f;
     (lock, s) \<leftarrow> rwlock_read_lock (file_lock it) s;
     ops \<leftarrow> file_fops it;
     private \<leftarrow> fs_private it;
     (res, buf, disk) \<leftarrow> fo_read ops (disks s (file_disk it)) private offset buf len;
     let s = s\<lparr>disks := (disks s)(file_disk it := disk)\<rparr>;
     (lock, s) \<leftarrow> rwlock_read_unlock lock s;
     Some (res, buf, s\<lparr>file_at := (file_at s)(f \<mapsto> it\<lparr>file_lock := lock\<rparr>)\<rparr>) }"

definition vfs_write ::
  "addr \<Rightarrow> u64 \<Rightarrow> u8 list \<Rightarrow> u32 \<Rightarrow> ('d, 'p, 'b) vfs_state_scheme \<Rightarrow>
   (u32 \<times> ('d, 'p, 'b) vfs_state_scheme) option" where
  "vfs_write f offset buf len s = do {
     it \<leftarrow> file_at s f;
     (lock, s) \<leftarrow> rwlock_write_lock (file_lock it) s;
     ops \<leftarrow> file_fops it;
     private \<leftarrow> fs_private it;
     (res, buf, disk) \<leftarrow> fo_write ops (disks s (file_disk it)) private offset buf len;
     let s = s\<lparr>disks := (disks s)(file_disk it := disk)\<rparr>;
     (lock, s) \<leftarrow> rwlock_write_unlock lock s;
     Some (res, s\<lparr>file_at := (file_at s)(f \<mapsto> it\<lparr>file_lock := lock\<rparr>)\<rparr>) }"

definition vfs_delete ::
  "path \<Rightarrow> ('d, 'p, 'b) vfs_state_scheme \<Rightarrow> ('d, 'p, 'b) vfs_state_scheme option" where
  "vfs_delete filename s = do {
     (mnt, s) \<leftarrow> find_mount_for_file filename s;
     m \<leftarrow> mnt;
     mount \<leftarrow> mount_at s m;
     let rel_name = drop (length (mount_point mount)) filename;
     disk \<leftarrow> fs_delete (mount_fs mount) (disks s (mount_disk mount)) rel_name;
     Some (s\<lparr>disks := (disks s)(mount_disk mount := disk)\<rparr>) }"

subsection \<open>The ustar file system\<close>

definition ustar_file_ops ::
  "(u32 \<Rightarrow> u8 list option) \<Rightarrow> 'd disk_ops \<Rightarrow> ('d, ustar_file_private_data) file_ops" where
  "ustar_file_ops km ops = \<lparr>fo_read = ustar_read km ops, fo_write = ustar_write km ops\<rparr>"

definition ustar_close_file :: "ustar_file_private_data option \<Rightarrow> unit option" where
  "ustar_close_file private = map_option (\<lambda>_. ()) private"

definition ustar_fs ::
  "(u32 \<Rightarrow> u8 list option) \<Rightarrow> 'd disk_ops \<Rightarrow> u8 list \<Rightarrow> ('d, ustar_file_private_data) fs" where
  "ustar_fs km ops stack =
     \<lparr>fs_detect = ustar_detect_fs km ops stack,
      fs_create = (\<lambda>disk path. Some (ustar_create_file disk path)),
      fs_open = (\<lambda>disk path. map_option (map_prod id (map_option (Pair (ustar_file_ops km ops))))
                   (ustar_open_file km ops disk (path @ [0]))),
      fs_close = ustar_close_file,
      fs_delete = (\<lambda>disk path. Some (ustar_delete_file disk path))\<rparr>"

definition SUPPORTED_FS ::
  "(u32 \<Rightarrow> u8 list option) \<Rightarrow> 'd disk_ops \<Rightarrow> u8 list \<Rightarrow> ('d, ustar_file_private_data) fs list" where
  "SUPPORTED_FS km ops stack = [ustar_fs km ops stack]"

text \<open>What the VFS relies on when it closes a file: a file system can close what it has opened.\<close>

locale file_system =
  fixes fs :: "('d, 'p) fs"
  assumes close_opened: "fs_open fs disk path = Some (FS_SUCCESS, opened) \<Longrightarrow>
    fs_close fs (map_option snd opened) = Some ()"

lemma ustar_open_file_success:
  "ustar_open_file km ops disk path = Some (FS_SUCCESS, data) \<Longrightarrow> data \<noteq> None"
  by (auto simp: ustar_open_file_def split: option.splits elim!: bind_Some_elim)

interpretation ufs: file_system "ustar_fs km ops stack" for km ops stack
proof unfold_locales
  fix disk path opened
  assume "fs_open (ustar_fs km ops stack) disk path = Some (FS_SUCCESS, opened)"
  then obtain data where "ustar_open_file km ops disk (path @ [0]) = Some (FS_SUCCESS, data)"
      "opened = map_option (Pair (ustar_file_ops km ops)) data"
    by (auto simp: ustar_fs_def)
  then show "fs_close (ustar_fs km ops stack) (map_option snd opened) = Some ()"
    using ustar_open_file_success by (fastforce simp: ustar_fs_def ustar_close_file_def)
qed

subsection \<open>Basic facts\<close>

lemma heap_ok_vfs_update [simp]:
  "heap_ok (t\<lparr>MOUNTS_LOCK := l\<rparr>) = heap_ok t" "heap_ok (t\<lparr>OPENED_FILES_LOCK := l\<rparr>) = heap_ok t"
  "heap_ok (t\<lparr>file_at := fa\<rparr>) = heap_ok t" "heap_ok (t\<lparr>mount_at := ma\<rparr>) = heap_ok t"
  "heap_ok (t\<lparr>OPENED_FILES := fs\<rparr>) = heap_ok t" "heap_ok (t\<lparr>MOUNTS := ms\<rparr>) = heap_ok t"
  "heap_ok (t\<lparr>disks := d\<rparr>) = heap_ok t"
  by (simp_all add: heap_ok_def)

lemma lock_mounts_free [simp]:
  "lock_free (MOUNTS_LOCK s) \<Longrightarrow>
    lock_mounts s = Some (s\<lparr>int_flag := False, MOUNTS_LOCK := held_by (cpu_id s) (int_flag s)\<rparr>)"
  by (simp add: lock_mounts_def)

lemma unlock_mounts_held [simp]:
  "MOUNTS_LOCK s = held_by (cpu_id s) irq \<Longrightarrow>
    unlock_mounts s = Some (s\<lparr>int_flag := irq, MOUNTS_LOCK := released irq\<rparr>)"
  by (simp add: unlock_mounts_def)

lemma lock_files_free [simp]:
  "lock_free (OPENED_FILES_LOCK s) \<Longrightarrow>
    lock_files s = Some (s\<lparr>int_flag := False, OPENED_FILES_LOCK := held_by (cpu_id s) (int_flag s)\<rparr>)"
  by (simp add: lock_files_def)

lemma unlock_files_held [simp]:
  "OPENED_FILES_LOCK s = held_by (cpu_id s) irq \<Longrightarrow>
    unlock_files s = Some (s\<lparr>int_flag := irq, OPENED_FILES_LOCK := released irq\<rparr>)"
  by (simp add: unlock_files_def)

lemma under_loop_iff: "under_loop mp fn \<longleftrightarrow> take (length mp) fn = mp"
  by (induction mp fn rule: under_loop.induct) auto

lemma is_under_mount_eq:
  "is_under_mount mount filename =
    (if take (length (mount_point mount)) filename = mount_point mount then length (mount_point mount) else 0)"
  by (auto simp: is_under_mount_def under_loop_iff Let_def)

text \<open>How many characters of a path a mount covers.\<close>

definition covers :: "(addr \<rightharpoonup> ('d, 'p) mount) \<Rightarrow> path \<Rightarrow> addr \<Rightarrow> nat" where
  "covers ma filename m = (case ma m of None \<Rightarrow> 0 | Some mount \<Rightarrow> is_under_mount mount filename)"

lemma best_mount_loop_spec:
  assumes "\<forall>m \<in> set ms. ma m \<noteq> None"
  shows "\<exists>b. best_mount_loop ma filename ms best longest = Some b \<and>
    ((b = best \<and> (\<forall>m \<in> set ms. covers ma filename m \<le> longest)) \<or>
     (\<exists>m \<in> set ms. b = Some m \<and> longest < covers ma filename m \<and>
        (\<forall>x \<in> set ms. covers ma filename x \<le> covers ma filename m)))"
  using assms
proof (induction ms arbitrary: best longest)
  case (Cons m ms)
  then obtain mount where m: "ma m = Some mount" by auto
  let ?c = "is_under_mount mount filename"
  have c: "covers ma filename m = ?c" by (simp add: covers_def m)
  show ?case
  proof (cases "longest < ?c")
    case True
    with Cons.IH [of "Some m" ?c] Cons.prems m c show ?thesis by fastforce
  next
    case False
    with Cons.IH [of best longest] Cons.prems m c show ?thesis by fastforce
  qed
qed simp

lemma find_mount_for_file_eq:
  assumes "lock_free (MOUNTS_LOCK s)"
  shows "find_mount_for_file filename s =
    map_option (\<lambda>b. (b, s\<lparr>MOUNTS_LOCK := released (int_flag s)\<rparr>))
      (best_mount_loop (mount_at s) filename (MOUNTS s) None 0)"
  using assms by (cases "best_mount_loop (mount_at s) filename (MOUNTS s) None 0")
    (simp_all add: find_mount_for_file_def)

lemma find_opened_find:
  "\<forall>f \<in> set fs. fa f \<noteq> None \<Longrightarrow>
    find_opened fa fs filename = Some (find (\<lambda>f. abs_path (the (fa f)) = filename) fs)"
  by (induction fs) auto

lemma find_mount_point_find:
  "\<forall>m \<in> set ms. ma m \<noteq> None \<Longrightarrow>
    find_mount_point ma ms target = Some (find (\<lambda>m. mount_point (the (ma m)) = target) ms)"
  by (induction ms) auto

lemma write_lock_round:
  "rw_rep l RW_Free \<Longrightarrow> rwlock_write_lock l s = Some (l', s') \<Longrightarrow>
    s' = s\<lparr>int_flag := False\<rparr> \<and> rw_rep l' (RW_Writer (cpu_id s) (int_flag s))"
  using rw_write_lock_free [of l s] by auto

lemma write_unlock_round:
  "rw_rep l (RW_Writer (cpu_id s) irq) \<Longrightarrow> rwlock_write_unlock l s = Some (l', s') \<Longrightarrow>
    s' = s\<lparr>int_flag := irq\<rparr> \<and> rw_rep l' RW_Free"
  using rw_write_unlock [of l s irq] by auto

lemma finish_open_result:
  assumes "finish_open filename cpy f mount s = Some (r, s')" and "file_at s f = None"
  obtains (fail) el ed where "r = 0" "cpy \<in> kmalloc_live s"
      "s' = s\<lparr>kmalloc_live := kmalloc_live s - {cpy} - {f}, error_list := el, error_descs := ed\<rparr>"
  | (success) lock fields where "r = f" "rw_rep lock RW_Free"
      "fs_open (mount_fs mount) (disks s (mount_disk mount)) (drop (length (mount_point mount)) filename) =
        Some (FS_SUCCESS, fields)"
      "s' = s\<lparr>file_at := (file_at s)(f \<mapsto>
          \<lparr>abs_path = filename, abs_path_ptr = cpy, fs_relative_path = drop (length (mount_point mount)) filename,
           file_disk = mount_disk mount, file_lock = lock, file_fops = map_option fst fields,
           fs_private = map_option snd fields, open_ref_count = 1\<rparr>)\<rparr>"
proof -
  obtain l1 s1 res fields l2 s2 where s1: "rwlock_write_lock INIT_RW_LOCK s = Some (l1, s1)"
      "fs_open (mount_fs mount) (disks s1 (mount_disk mount)) (drop (length (mount_point mount)) filename) =
        Some (res, fields)"
      "rwlock_write_unlock l1 s1 = Some (l2, s2)"
    using assms(1) by (auto simp: finish_open_def Let_def elim!: bind_Some_elim)
  have w: "s1 = s\<lparr>int_flag := False\<rparr>" "rw_rep l1 (RW_Writer (cpu_id s) (int_flag s))"
    using write_lock_round [OF rw_rep_init s1(1)] by simp_all
  have s2: "s2 = s" "rw_rep l2 RW_Free"
    using write_unlock_round [OF _ s1(3)] w by simp_all
  show thesis
  proof (cases "res = FS_SUCCESS")
    case True
    with s1 s2 w assms(1) show thesis
      by (intro success [of l2 fields]) (auto simp: finish_open_def Let_def atomic_init_def)
  next
    case False
    let ?t = "s\<lparr>file_at := (file_at s)(f \<mapsto>
          \<lparr>abs_path = filename, abs_path_ptr = cpy, fs_relative_path = drop (length (mount_point mount)) filename,
           file_disk = mount_disk mount, file_lock = l2, file_fops = map_option fst fields,
           fs_private = map_option snd fields, open_ref_count = 1\<rparr>)\<rparr>"
    obtain t1 t2 t3 where t: "kfree cpy ?t = Some t1" "kfree_file f t1 = Some t2" "set_error ENOTFOUND t2 = Some t3"
        "r = 0" "s' = t3"
      using False s1 s2 w assms(1) by (auto simp: finish_open_def Let_def atomic_init_def elim!: bind_Some_elim)
    obtain el ed where "t3 = t2\<lparr>error_list := el, error_descs := ed\<rparr>"
      using set_error_shape [OF t(3)] .
    moreover have "(file_at s)(f := None) = file_at s" using assms(2) by (simp add: fun_upd_idem)
    ultimately show thesis
      using t by (intro fail [of ed el]) (auto simp: kfree_eq_Some kfree_file_def elim!: bind_Some_elim)
  qed
qed

text \<open>
  What \<open>open_file\<close> returns: nothing has changed but error list and allocator answers, or there is a new
  file object with its own copy of the name.
\<close>

lemma open_file_result:
  assumes ok: "heap_ok s" "lock_free (MOUNTS_LOCK s)" "dom (file_at s) \<subseteq> kmalloc_live s"
    and opened: "open_file filename s = Some (f, s')"
  obtains (fail) el ed as where "f = 0" "heap_ok s'"
      "s' = s\<lparr>MOUNTS_LOCK := released (int_flag s), kmalloc_answers := as, error_list := el, error_descs := ed\<rparr>"
  | (success) m mount fields lock as cpy where "f \<noteq> 0" "heap_ok s'" "f \<notin> kmalloc_live s" "cpy \<notin> kmalloc_live s"
      "f \<noteq> cpy" "rw_rep lock RW_Free"
      "best_mount_loop (mount_at s) filename (MOUNTS s) None 0 = Some (Some m)" "mount_at s m = Some mount"
      "fs_open (mount_fs mount) (disks s (mount_disk mount)) (drop (length (mount_point mount)) filename) =
        Some (FS_SUCCESS, fields)"
      "s' = s\<lparr>MOUNTS_LOCK := released (int_flag s), kmalloc_answers := as,
        kmalloc_live := insert f (insert cpy (kmalloc_live s)),
        file_at := (file_at s)(f \<mapsto>
          \<lparr>abs_path = filename, abs_path_ptr = cpy, fs_relative_path = drop (length (mount_point mount)) filename,
           file_disk = mount_disk mount, file_lock = lock, file_fops = map_option fst fields,
           fs_private = map_option snd fields, open_ref_count = 1\<rparr>)\<rparr>"
proof -
  let ?s1 = "s\<lparr>MOUNTS_LOCK := released (int_flag s)\<rparr>"
  obtain b where b: "best_mount_loop (mount_at s) filename (MOUNTS s) None 0 = Some b"
    using opened by (auto simp: open_file_def find_mount_for_file_eq [OF ok(2)] elim!: bind_Some_elim)
  have ok1: "heap_ok ?s1" using ok(1) by (simp add: heap_ok_def)
  show thesis
  proof (cases b)
    case None
    then obtain s2 where s2: "set_error ENOTFOUND ?s1 = Some s2" "f = 0" "s' = s2"
      using opened b by (auto simp: open_file_def find_mount_for_file_eq [OF ok(2)] elim!: bind_Some_elim)
    obtain el ed where "s2 = ?s1\<lparr>error_list := el, error_descs := ed\<rparr>"
      using set_error_shape [OF s2(1)] .
    then show thesis
      using s2 ok1 by (intro fail [of ed el "kmalloc_answers s"]) simp_all
  next
    case (Some m)
    obtain a s2 where a: "kmalloc ?s1 = (a, s2)" by (cases "kmalloc ?s1")
    obtain mount where mount: "mount_at s m = Some mount"
      using opened b Some by (auto simp: open_file_def find_mount_for_file_eq [OF ok(2)] elim!: bind_Some_elim)
    from ok1 a show thesis
    proof (cases rule: kmalloc_cases)
      case fail1: (fail as)
      then obtain s3 where s3: "set_error ENONE s2 = Some s3" "f = 0" "s' = s3"
        using opened b Some mount a
        by (auto simp: open_file_def find_mount_for_file_eq [OF ok(2)] elim!: bind_Some_elim)
      obtain el ed where "s3 = s2\<lparr>error_list := el, error_descs := ed\<rparr>"
        using set_error_shape [OF s3(1)] .
      then show thesis
        using s3 fail1 by (intro fail [of ed el as]) simp_all
    next
      case cpy: (success as)
      obtain c s3 where c: "kmalloc s2 = (c, s3)" by (cases "kmalloc s2")
      from cpy(4) c show thesis
      proof (cases rule: kmalloc_cases)
        case fail2: (fail as')
        then obtain s4 s5 where s5: "set_error ENONE s3 = Some s4" "kfree a s4 = Some s5" "f = 0" "s' = s5"
          using opened b Some mount a c cpy
          by (auto simp: open_file_def find_mount_for_file_eq [OF ok(2)] elim!: bind_Some_elim)
        obtain el ed where "s4 = s3\<lparr>error_list := el, error_descs := ed\<rparr>"
          using set_error_shape [OF s5(1)] .
        with s5 fail2 cpy have s': "s' = s\<lparr>MOUNTS_LOCK := released (int_flag s), kmalloc_answers := as',
            error_list := el, error_descs := ed\<rparr>"
          by (simp add: kfree_eq_Some)
        have "heap_ok s4" using fail2(3) \<open>s4 = _\<close> by simp
        then show thesis
          using s5(3,4) s' heap_ok_kfree [OF _ s5(2)] by (intro fail [of ed el as']) simp_all
      next
        case f: (success as')
        have fin: "finish_open filename a c mount s3 = Some (f, s')"
          using opened b Some mount a c cpy f by (auto simp: open_file_def find_mount_for_file_eq [OF ok(2)])
        have nf: "file_at s3 c = None" using f cpy ok(3) by auto
        from fin nf show thesis
        proof (cases rule: finish_open_result)
          case (fail el ed)
          moreover have "insert c (insert a (kmalloc_live s)) - {a} - {c} = kmalloc_live s"
            using f(2) cpy by auto
          ultimately have s': "s' = s\<lparr>MOUNTS_LOCK := released (int_flag s), kmalloc_answers := as',
              error_list := el, error_descs := ed\<rparr>"
            using f cpy by simp
          have "heap_ok s'" using f(2,3,4) cpy s' by (auto simp: heap_ok_def)
          then show thesis using fail(1) s' by (intro that(1) [of ed el as'])
        next
          case (success lock fields)
          then show thesis
            using f cpy b Some mount by (intro that(2) [of a lock m mount fields as']) auto
        qed
      qed
    qed
  qed
qed

subsection \<open>The invariant of the tables\<close>

text \<open>
  Between calls: the locks are free, the live mounts and files are those in the lists, every structure and
  name has its own allocation, mount points are absolute directories and differ, and there is one file
  per path, in use and not locked.
\<close>

definition owned :: "('d, 'p, 'b) vfs_state_scheme \<Rightarrow> addr list" where
  "owned s = MOUNTS s @ OPENED_FILES s @ map (\<lambda>f. abs_path_ptr (the (file_at s f))) (OPENED_FILES s)"

definition mounts_ok :: "('d, 'p, 'b) vfs_state_scheme \<Rightarrow> bool" where
  "mounts_ok s \<longleftrightarrow> lock_free (MOUNTS_LOCK s) \<and> dom (mount_at s) = set (MOUNTS s) \<and>
     (\<forall>m mount. mount_at s m = Some mount \<longrightarrow> mount_target_is_valid (mount_point mount)) \<and>
     (\<forall>m m' mount mount'. mount_at s m = Some mount \<longrightarrow> mount_at s m' = Some mount' \<longrightarrow>
        mount_point mount = mount_point mount' \<longrightarrow> m = m')"

definition files_ok :: "('d, 'p, 'b) vfs_state_scheme \<Rightarrow> bool" where
  "files_ok s \<longleftrightarrow> lock_free (OPENED_FILES_LOCK s) \<and> dom (file_at s) = set (OPENED_FILES s) \<and>
     (\<forall>f it. file_at s f = Some it \<longrightarrow> open_ref_count it \<noteq> 0 \<and> rw_rep (file_lock it) RW_Free) \<and>
     (\<forall>f f' it it'. file_at s f = Some it \<longrightarrow> file_at s f' = Some it' \<longrightarrow> abs_path it = abs_path it' \<longrightarrow> f = f')"

definition vfs_ok :: "('d, 'p, 'b) vfs_state_scheme \<Rightarrow> bool" where
  "vfs_ok s \<longleftrightarrow> heap_ok s \<and> mounts_ok s \<and> files_ok s \<and> distinct (owned s) \<and> set (owned s) \<subseteq> kmalloc_live s"

lemma files_ok_cong:
  "files_ok s \<Longrightarrow> lock_free (OPENED_FILES_LOCK t) \<Longrightarrow> file_at t = file_at s \<Longrightarrow> OPENED_FILES t = OPENED_FILES s \<Longrightarrow>
    files_ok t"
  by (simp only: files_ok_def) blast

lemma mounts_ok_cong:
  "mounts_ok s \<Longrightarrow> lock_free (MOUNTS_LOCK t) \<Longrightarrow> mount_at t = mount_at s \<Longrightarrow> MOUNTS t = MOUNTS s \<Longrightarrow> mounts_ok t"
  by (simp only: mounts_ok_def) blast

lemma files_okI:
  assumes "lock_free (OPENED_FILES_LOCK s)" and "file_at s = fa" and "dom fa = set (OPENED_FILES s)"
    and "\<And>f it. fa f = Some it \<Longrightarrow> open_ref_count it \<noteq> 0 \<and> rw_rep (file_lock it) RW_Free"
    and "\<And>f f' it it'. fa f = Some it \<Longrightarrow> fa f' = Some it' \<Longrightarrow> abs_path it = abs_path it' \<Longrightarrow> f = f'"
  shows "files_ok s"
  unfolding files_ok_def assms(2) using assms(1,3-5) by blast

lemma vfs_open_result:
  assumes ok: "vfs_ok s" and opened: "vfs_open filename s = Some (f, s')"
  obtains (shared) it where "file_at s f = Some it" "abs_path it = filename"
      "s' = s\<lparr>OPENED_FILES_LOCK := released (int_flag s),
        file_at := (file_at s)(f \<mapsto> it\<lparr>open_ref_count := open_ref_count it + 1\<rparr>)\<rparr>"
  | (fail) el ed as where "f = 0" "\<forall>g it. file_at s g = Some it \<longrightarrow> abs_path it \<noteq> filename" "heap_ok s'"
      "s' = s\<lparr>OPENED_FILES_LOCK := released (int_flag s), MOUNTS_LOCK := released False,
        kmalloc_answers := as, error_list := el, error_descs := ed\<rparr>"
  | (new) m mount fields lock as cpy where "\<forall>g it. file_at s g = Some it \<longrightarrow> abs_path it \<noteq> filename"
      "f \<noteq> 0" "heap_ok s'" "f \<notin> kmalloc_live s" "cpy \<notin> kmalloc_live s" "f \<noteq> cpy" "rw_rep lock RW_Free"
      "best_mount_loop (mount_at s) filename (MOUNTS s) None 0 = Some (Some m)" "mount_at s m = Some mount"
      "fs_open (mount_fs mount) (disks s (mount_disk mount)) (drop (length (mount_point mount)) filename) =
        Some (FS_SUCCESS, fields)"
      "s' = s\<lparr>OPENED_FILES_LOCK := released (int_flag s), MOUNTS_LOCK := released False, kmalloc_answers := as,
        kmalloc_live := insert f (insert cpy (kmalloc_live s)), OPENED_FILES := f # OPENED_FILES s,
        file_at := (file_at s)(f \<mapsto>
          \<lparr>abs_path = filename, abs_path_ptr = cpy, fs_relative_path = drop (length (mount_point mount)) filename,
           file_disk = mount_disk mount, file_lock = lock, file_fops = map_option fst fields,
           fs_private = map_option snd fields, open_ref_count = 1\<rparr>)\<rparr>"
proof -
  let ?s = "s\<lparr>int_flag := False, OPENED_FILES_LOCK := held_by (cpu_id s) (int_flag s)\<rparr>"
  have fok: "lock_free (OPENED_FILES_LOCK s)" "dom (file_at s) = set (OPENED_FILES s)" "lock_free (MOUNTS_LOCK s)" "heap_ok s"
    using ok by (simp_all add: vfs_ok_def files_ok_def mounts_ok_def)
  have dm: "\<forall>g \<in> set (OPENED_FILES s). file_at s g \<noteq> None" using fok(2) by auto
  have live: "dom (file_at s) \<subseteq> kmalloc_live s" using ok fok(2) by (auto simp: vfs_ok_def owned_def)
  have lk: "lookup_file filename ?s = Some (find (\<lambda>g. abs_path (the (file_at s g)) = filename) (OPENED_FILES s))"
    using find_opened_find [OF dm] by (simp add: lookup_file_def)
  show thesis
  proof (cases "find (\<lambda>g. abs_path (the (file_at s g)) = filename) (OPENED_FILES s)")
    case (Some g)
    then have g: "g \<in> set (OPENED_FILES s)" "abs_path (the (file_at s g)) = filename"
      by (auto simp: find_Some_iff)
    then obtain it where it: "file_at s g = Some it" using dm by auto
    have "f = g" "s' = s\<lparr>OPENED_FILES_LOCK := released (int_flag s),
        file_at := (file_at s)(g \<mapsto> it\<lparr>open_ref_count := open_ref_count it + 1\<rparr>)\<rparr>"
      using opened lk Some it fok
      by (auto simp: vfs_open_def lookup_file_or_open_def atomic_inc_def atomic_add_def Let_def)
    then show thesis using it g by (intro shared [of it]) simp_all
  next
    case None
    have no: "\<forall>g it. file_at s g = Some it \<longrightarrow> abs_path it \<noteq> filename"
    proof (intro allI impI)
      fix g it assume "file_at s g = Some it"
      then have "g \<in> set (OPENED_FILES s)" using fok(2) by blast
      with None \<open>file_at s g = Some it\<close> show "abs_path it \<noteq> filename" by (force simp: find_None_iff)
    qed
    obtain f1 s1 where of: "open_file filename ?s = Some (f1, s1)"
      using opened lk None fok by (auto simp: vfs_open_def lookup_file_or_open_def elim!: bind_Some_elim)
    show thesis
    proof (rule open_file_result [OF _ _ _ of], goal_cases)
      case (4 el ed as)
      then show thesis
        using opened lk None fok of no
        by (intro fail [of ed el as]) (auto simp: vfs_open_def lookup_file_or_open_def heap_ok_def)
    next
      case (5 m mount fields lock as cpy)
      then show thesis
        using opened lk None fok of no
        by (intro new [of cpy lock m mount fields as]) (auto simp: vfs_open_def lookup_file_or_open_def Let_def heap_ok_def)
    qed (use fok live in simp_all)
  qed
qed

lemma vfs_ok_updates:
  "heap_ok (s\<lparr>MOUNTS_LOCK := l, kmalloc_answers := as, error_list := el, error_descs := ed\<rparr>) \<Longrightarrow>
    vfs_ok s \<Longrightarrow> lock_free l \<Longrightarrow> lock_free l' \<Longrightarrow>
    vfs_ok (s\<lparr>OPENED_FILES_LOCK := l', MOUNTS_LOCK := l, kmalloc_answers := as, error_list := el, error_descs := ed\<rparr>)"
  by (simp add: vfs_ok_def mounts_ok_def files_ok_def owned_def heap_ok_def)

lemma vfs_ok_shared:
  assumes "vfs_ok s" and "file_at s f = Some it" and "open_ref_count it + 1 \<noteq> 0"
  shows "vfs_ok (s\<lparr>OPENED_FILES_LOCK := released b,
    file_at := (file_at s)(f \<mapsto> it\<lparr>open_ref_count := open_ref_count it + 1\<rparr>)\<rparr>)"
proof -
  let ?fa = "(file_at s)(f \<mapsto> it\<lparr>open_ref_count := open_ref_count it + 1\<rparr>)"
  have "(\<lambda>g. abs_path_ptr (the (?fa g))) = (\<lambda>g. abs_path_ptr (the (file_at s g)))"
    using assms(2) by (intro ext) simp
  then have same: "owned (s\<lparr>OPENED_FILES_LOCK := released b, file_at := ?fa\<rparr>) = owned s"
    unfolding owned_def by (simp del: fun_upd_apply)
  have f: "f \<in> set (OPENED_FILES s)" using assms(1,2) by (auto simp: vfs_ok_def files_ok_def)
  have paths: "\<exists>jt. file_at s g = Some jt \<and> abs_path jt = abs_path it'" if "?fa g = Some it'" for g it'
    using that assms(2) by (auto split: if_splits)
  have one: "g = g'" if "?fa g = Some jt" "?fa g' = Some jt'" "abs_path jt = abs_path jt'" for g g' jt jt'
    using paths [OF that(1)] paths [OF that(2)] that(3) assms(1) unfolding vfs_ok_def files_ok_def by metis
  have cnt: "open_ref_count jt \<noteq> 0 \<and> rw_rep (file_lock jt) RW_Free" if "?fa g = Some jt" for g jt
    using that assms by (auto simp: vfs_ok_def files_ok_def split: if_splits)
  have dm: "dom ?fa = set (OPENED_FILES s)" using assms(1) f by (auto simp: vfs_ok_def files_ok_def)
  have "files_ok (s\<lparr>OPENED_FILES_LOCK := released b, file_at := ?fa\<rparr>)"
    by (rule files_okI [where fa = ?fa], simp, simp, simp del: dom_fun_upd add: dm, erule cnt, erule (2) one)
  then show ?thesis
    using assms(1) unfolding vfs_ok_def same by (simp add: mounts_ok_def)
qed

lemma vfs_ok_new:
  assumes "vfs_ok s" and "f \<notin> kmalloc_live s" and "abs_path_ptr it \<notin> kmalloc_live s" and "f \<noteq> abs_path_ptr it"
    and "open_ref_count it \<noteq> 0" and "rw_rep (file_lock it) RW_Free"
    and "\<forall>g jt. file_at s g = Some jt \<longrightarrow> abs_path jt \<noteq> abs_path it"
    and "heap_ok (s\<lparr>kmalloc_answers := as, kmalloc_live := insert f (insert (abs_path_ptr it) (kmalloc_live s))\<rparr>)"
  shows "vfs_ok (s\<lparr>OPENED_FILES_LOCK := released b, MOUNTS_LOCK := released b', kmalloc_answers := as,
    kmalloc_live := insert f (insert (abs_path_ptr it) (kmalloc_live s)),
    OPENED_FILES := f # OPENED_FILES s, file_at := (file_at s)(f \<mapsto> it)\<rparr>)"
proof -
  let ?fa = "(file_at s)(f \<mapsto> it)"
  have fresh: "f \<notin> set (owned s)" "abs_path_ptr it \<notin> set (owned s)"
    using assms(1-3) by (auto simp: vfs_ok_def)
  have nf: "file_at s f = None" "f \<notin> set (OPENED_FILES s)"
    using assms(1) fresh(1) by (auto simp: vfs_ok_def files_ok_def owned_def)
  have same: "map (\<lambda>g. abs_path_ptr (the (?fa g))) (OPENED_FILES s) =
      map (\<lambda>g. abs_path_ptr (the (file_at s g))) (OPENED_FILES s)"
    using nf(2) by (intro map_cong) auto
  have one: "g = g'" if "?fa g = Some jt" "?fa g' = Some jt'" "abs_path jt = abs_path jt'" for g g' jt jt'
  proof (cases "g = f \<or> g' = f")
    case True
    then show ?thesis using that assms(7) by (auto split: if_splits)
  next
    case False
    then have "file_at s g = Some jt" "file_at s g' = Some jt'" using that(1,2) by simp_all
    then show ?thesis using that(3) assms(1) unfolding vfs_ok_def files_ok_def by blast
  qed
  have cnt: "open_ref_count jt \<noteq> 0 \<and> rw_rep (file_lock jt) RW_Free" if "?fa g = Some jt" for g jt
    using that assms by (auto simp: vfs_ok_def files_ok_def split: if_splits)
  have dm: "dom ?fa = set (f # OPENED_FILES s)" using assms(1) by (auto simp: vfs_ok_def files_ok_def)
  have fok: "files_ok (s\<lparr>OPENED_FILES_LOCK := released b, OPENED_FILES := f # OPENED_FILES s, file_at := ?fa\<rparr>)"
    by (rule files_okI [where fa = ?fa], simp, simp, simp del: dom_fun_upd add: dm, erule cnt, erule (2) one)
  have dist: "distinct (MOUNTS s @ (f # OPENED_FILES s) @ abs_path_ptr it #
      map (\<lambda>g. abs_path_ptr (the (?fa g))) (OPENED_FILES s))"
    unfolding same using assms(1,4) fresh by (auto simp: vfs_ok_def owned_def)
  have sub: "set (MOUNTS s) \<union> set (OPENED_FILES s) \<union> set (map (\<lambda>g. abs_path_ptr (the (?fa g))) (OPENED_FILES s))
      \<subseteq> kmalloc_live s"
    unfolding same using assms(1) by (auto simp: vfs_ok_def owned_def)
  have mok: "mounts_ok s" and hok: "heap_ok s" using assms(1) by (simp_all add: vfs_ok_def)
  show ?thesis
    unfolding vfs_ok_def
  proof (intro conjI)
    show "heap_ok (s\<lparr>OPENED_FILES_LOCK := released b, MOUNTS_LOCK := released b', kmalloc_answers := as,
        kmalloc_live := insert f (insert (abs_path_ptr it) (kmalloc_live s)),
        OPENED_FILES := f # OPENED_FILES s, file_at := ?fa\<rparr>)"
      using assms(8) by (simp add: heap_ok_def)
  qed (use dist sub in \<open>auto simp: owned_def intro: mounts_ok_cong [OF mok] files_ok_cong [OF fok]\<close>)
qed

lemma vfs_close_shared:
  assumes "vfs_ok s" and "file_at s f = Some it" and "open_ref_count it \<noteq> 1"
  shows "vfs_close f s = Some (s\<lparr>OPENED_FILES_LOCK := released (int_flag s),
    file_at := (file_at s)(f \<mapsto> it\<lparr>open_ref_count := open_ref_count it - 1\<rparr>)\<rparr>)"
  using assms by (simp add: vfs_close_def vfs_ok_def files_ok_def atomic_dec_and_test_def Let_def)

lemma close_file_only:
  assumes held: "OPENED_FILES_LOCK t = held_by (cpu_id t) irq" and free: "lock_free (MOUNTS_LOCK t)"
    and it: "file_at t f = Some it" "rw_rep (file_lock it) RW_Free"
    and gone: "find_opened (file_at t) (OPENED_FILES t) (abs_path it) = Some None"
    and m: "best_mount_loop (mount_at t) (abs_path it) (MOUNTS t) None 0 = Some (Some m)" "mount_at t m = Some mount"
      "fs_close (mount_fs mount) (fs_private it) = Some ()"
    and live: "abs_path_ptr it \<in> kmalloc_live t" "f \<in> kmalloc_live t" "f \<noteq> abs_path_ptr it"
  shows "close_file f t = Some (t\<lparr>MOUNTS_LOCK := released (int_flag t),
    kmalloc_live := kmalloc_live t - {abs_path_ptr it} - {f}, file_at := (file_at t)(f := None)\<rparr>)"
proof -
  let ?t1 = "t\<lparr>MOUNTS_LOCK := released (int_flag t)\<rparr>"
  obtain l1 where l1: "rwlock_write_lock (file_lock it) ?t1 = Some (l1, ?t1\<lparr>int_flag := False\<rparr>)"
      "rw_rep l1 (RW_Writer (cpu_id t) (int_flag t))"
    using rw_write_lock_free [OF it(2), of ?t1] by auto
  obtain l2 where l2: "rwlock_write_unlock l1 (?t1\<lparr>int_flag := False\<rparr>) = Some (l2, ?t1)"
    using rw_write_unlock [of l1 "?t1\<lparr>int_flag := False\<rparr>" "int_flag t"] l1(2) by auto
  have "lookup_file (abs_path it) t = Some None"
    using held gone by (simp add: lookup_file_def)
  then show ?thesis
    using held it m l1(1) l2 live
    by (simp add: close_file_def find_mount_for_file_eq [OF free] kfree_file_def kfree_def)
qed

lemma vfs_close_last:
  assumes ok: "vfs_ok s" and it: "file_at s f = Some it" "open_ref_count it = 1"
    and m: "best_mount_loop (mount_at s) (abs_path it) (MOUNTS s) None 0 = Some (Some m)" "mount_at s m = Some mount"
      "fs_close (mount_fs mount) (fs_private it) = Some ()"
  shows "vfs_close f s = Some (s\<lparr>OPENED_FILES_LOCK := released (int_flag s), MOUNTS_LOCK := released False,
    OPENED_FILES := remove1 f (OPENED_FILES s), kmalloc_live := kmalloc_live s - {abs_path_ptr it} - {f},
    file_at := (file_at s)(f := None)\<rparr>)"
proof -
  let ?fa = "(file_at s)(f \<mapsto> it\<lparr>open_ref_count := 0\<rparr>)"
  let ?t = "s\<lparr>int_flag := False, OPENED_FILES_LOCK := held_by (cpu_id s) (int_flag s), file_at := ?fa,
      OPENED_FILES := remove1 f (OPENED_FILES s)\<rparr>"
  have f: "f \<in> set (OPENED_FILES s)" "rw_rep (file_lock it) RW_Free" "lock_free (OPENED_FILES_LOCK s)"
      "lock_free (MOUNTS_LOCK s)" "distinct (OPENED_FILES s)"
    using ok it(1) by (auto simp: vfs_ok_def files_ok_def mounts_ok_def owned_def)
  have fdom: "dom (file_at s) = set (OPENED_FILES s)" using ok by (simp add: vfs_ok_def files_ok_def)
  have own: "distinct (owned s)" "set (owned s) \<subseteq> kmalloc_live s" using ok by (simp_all add: vfs_ok_def)
  have ptr: "abs_path_ptr it \<in> (\<lambda>g. abs_path_ptr (the (file_at s g))) ` set (OPENED_FILES s)"
    using f(1) it(1) by (intro image_eqI [of _ _ f]) simp_all
  have live: "f \<in> kmalloc_live s" "abs_path_ptr it \<in> kmalloc_live s" "f \<noteq> abs_path_ptr it"
    using own f(1) ptr by (auto simp: owned_def)
  have dm: "\<forall>g \<in> set (remove1 f (OPENED_FILES s)). ?fa g \<noteq> None"
    using ok by (auto simp: vfs_ok_def files_ok_def dest: notin_set_remove1)
  have "find (\<lambda>g. abs_path (the (?fa g)) = abs_path it) (remove1 f (OPENED_FILES s)) = None"
    unfolding find_None_iff
  proof (intro notI, elim exE conjE)
    fix g assume g: "g \<in> set (remove1 f (OPENED_FILES s))" "abs_path (the (?fa g)) = abs_path it"
    then have "g \<noteq> f" "g \<in> set (OPENED_FILES s)" using f(5) by (simp_all add: set_remove1_eq)
    moreover from this(2) obtain jt where "file_at s g = Some jt" using fdom by (metis domD)
    moreover have "\<forall>f f' it it'. file_at s f = Some it \<longrightarrow> file_at s f' = Some it' \<longrightarrow> abs_path it = abs_path it' \<longrightarrow> f = f'"
      using ok unfolding vfs_ok_def files_ok_def by blast
    ultimately show False using g(2) it(1) by auto
  qed
  then have gone: "find_opened (file_at ?t) (OPENED_FILES ?t) (abs_path it) = Some None"
    using find_opened_find [of _ ?fa, OF dm] by (simp del: fun_upd_apply)
  have "close_file f ?t = Some (?t\<lparr>MOUNTS_LOCK := released (int_flag ?t),
      kmalloc_live := kmalloc_live ?t - {abs_path_ptr it} - {f}, file_at := (file_at ?t)(f := None)\<rparr>)"
    using close_file_only [of ?t "int_flag s" f "it\<lparr>open_ref_count := 0\<rparr>" m mount] gone f live m by simp
  then show ?thesis
    using f it by (simp add: vfs_close_def atomic_dec_and_test_def list_del_entry_def Let_def)
qed

subsection \<open>Mounting and unmounting\<close>

lemma vfs_ok_mounts_defined: "vfs_ok s \<Longrightarrow> \<forall>m \<in> set (MOUNTS s). mount_at s m \<noteq> None"
  by (auto simp: vfs_ok_def mounts_ok_def)

lemma vfs_mount_new:
  assumes ok: "vfs_ok s" and target: "mount_target_is_valid target"
    and km: "kmalloc s = (m, s1)" "m \<noteq> 0"
    and fs: "get_fs_for_disk sfs (disks s disk) = Some (Some f)"
    and free: "\<forall>x mount. mount_at s x = Some mount \<longrightarrow> mount_point mount \<noteq> target"
  shows "vfs_mount sfs disk target s = Some (True, s1\<lparr>MOUNTS_LOCK := released (int_flag s),
      MOUNTS := MOUNTS s @ [m],
      mount_at := (mount_at s)(m \<mapsto> \<lparr>mount_point = target, mount_disk = disk, mount_fs = f\<rparr>)\<rparr>)"
    and "m \<notin> kmalloc_live s" and "kmalloc_live s1 = insert m (kmalloc_live s)" and "heap_ok s1"
proof -
  have hok: "heap_ok s" and lf: "lock_free (MOUNTS_LOCK s)" using ok by (simp_all add: vfs_ok_def mounts_ok_def)
  from hok km(1) obtain as where m: "m \<notin> kmalloc_live s"
      "s1 = s\<lparr>kmalloc_answers := as, kmalloc_live := insert m (kmalloc_live s)\<rparr>" "heap_ok s1"
    by (cases rule: kmalloc_cases) (use km(2) in auto)
  then show "m \<notin> kmalloc_live s" "kmalloc_live s1 = insert m (kmalloc_live s)" "heap_ok s1" by simp_all
  let ?ma = "(mount_at s)(m \<mapsto> \<lparr>mount_point = target, mount_disk = disk, mount_fs = f\<rparr>)"
  have nm: "m \<notin> set (MOUNTS s)" using m(1) ok by (auto simp: vfs_ok_def owned_def)
  have dm: "\<forall>x \<in> set (MOUNTS s). ?ma x \<noteq> None"
    using vfs_ok_mounts_defined [OF ok] by simp
  have "find (\<lambda>x. mount_point (the (?ma x)) = target) (MOUNTS s) = None"
    using free nm vfs_ok_mounts_defined [OF ok] by (auto simp: find_None_iff)
  then have "find_mount_point ?ma (MOUNTS s) target = Some None"
    using find_mount_point_find [of _ ?ma, OF dm] by (simp del: fun_upd_apply)
  then show "vfs_mount sfs disk target s = Some (True, s1\<lparr>MOUNTS_LOCK := released (int_flag s),
      MOUNTS := MOUNTS s @ [m], mount_at := ?ma\<rparr>)"
    using target km fs lf m(2) by (simp add: vfs_mount_def Let_def)
qed

lemma vfs_unmount_absent:
  assumes ok: "vfs_ok s" and some: "MOUNTS s \<noteq> []"
    and absent: "\<forall>x mount. mount_at s x = Some mount \<longrightarrow> mount_point mount \<noteq> pathname"
    and head: "head - 12 \<notin> kmalloc_live s" "head \<noteq> 12"
  shows "vfs_unmount head pathname s = None"
proof -
  have lf: "lock_free (MOUNTS_LOCK s)" using ok by (simp add: vfs_ok_def mounts_ok_def)
  have "find (\<lambda>x. mount_point (the (mount_at s x)) = pathname) (MOUNTS s) = None"
    using absent vfs_ok_mounts_defined [OF ok] by (auto simp: find_None_iff)
  then have "find_mount_point (mount_at s) (MOUNTS s) pathname = Some None"
    using find_mount_point_find [OF vfs_ok_mounts_defined [OF ok]] by simp
  then show ?thesis
    using lf some head by (simp add: vfs_unmount_def kfree_mount_def kfree_def Let_def)
qed

lemma vfs_unmount_mounted:
  assumes ok: "vfs_ok s" and m: "mount_at s m = Some mount" "mount_point mount = pathname"
  shows "vfs_unmount head pathname s = Some (True, s\<lparr>MOUNTS_LOCK := released (int_flag s),
    MOUNTS := remove1 m (MOUNTS s), kmalloc_live := kmalloc_live s - {m}, mount_at := (mount_at s)(m := None)\<rparr>)"
proof -
  have hok: "heap_ok s" and lf: "lock_free (MOUNTS_LOCK s)" and mm: "m \<in> set (MOUNTS s)"
    using ok m(1) by (auto simp: vfs_ok_def mounts_ok_def)
  have live: "m \<in> kmalloc_live s" "m \<noteq> 0"
    using ok mm by (auto simp: vfs_ok_def owned_def heap_ok_def)
  have "find (\<lambda>x. mount_point (the (mount_at s x)) = pathname) (MOUNTS s) \<noteq> None"
    unfolding find_None_iff using mm m by (auto intro: exI [of _ m])
  then obtain x where x: "find (\<lambda>x. mount_point (the (mount_at s x)) = pathname) (MOUNTS s) = Some x" by blast
  then have "x \<in> set (MOUNTS s)" "mount_point (the (mount_at s x)) = pathname" by (auto simp: find_Some_iff)
  moreover from this(1) obtain mount' where "mount_at s x = Some mount'"
    using vfs_ok_mounts_defined [OF ok] by blast
  ultimately have "x = m" using ok m by (auto simp: vfs_ok_def mounts_ok_def)
  then have "find_mount_point (mount_at s) (MOUNTS s) pathname = Some (Some m)"
    using find_mount_point_find [OF vfs_ok_mounts_defined [OF ok]] x by simp
  then show ?thesis
    using lf mm live by (auto simp: vfs_unmount_def kfree_mount_def kfree_def list_del_entry_def Let_def)
qed

lemma best_mount_none:
  assumes "\<forall>m \<in> set ms. ma m \<noteq> None" and "\<forall>m \<in> set ms. covers ma filename m = 0"
  shows "best_mount_loop ma filename ms None 0 = Some None"
  using best_mount_loop_spec [OF assms(1), of filename None 0] assms(2) by auto

lemma vfs_ok_mount:
  assumes ok: "vfs_ok s" and m: "m \<notin> kmalloc_live s" "mount_target_is_valid (mount_point mount)"
    and free: "\<forall>x mt. mount_at s x = Some mt \<longrightarrow> mount_point mt \<noteq> mount_point mount"
    and s1: "s1 = s\<lparr>kmalloc_answers := as, kmalloc_live := insert m (kmalloc_live s)\<rparr>" "heap_ok s1"
  shows "vfs_ok (s1\<lparr>MOUNTS_LOCK := released b, MOUNTS := MOUNTS s @ [m], mount_at := (mount_at s)(m \<mapsto> mount)\<rparr>)"
proof -
  have fresh: "m \<notin> set (owned s)" using ok m(1) by (auto simp: vfs_ok_def)
  have mok: "mounts_ok s" and fok: "files_ok s" using ok by (simp_all add: vfs_ok_def)
  have "mounts_ok (s1\<lparr>MOUNTS_LOCK := released b, MOUNTS := MOUNTS s @ [m], mount_at := (mount_at s)(m \<mapsto> mount)\<rparr>)"
    unfolding mounts_ok_def
  proof (intro conjI allI impI)
    let ?ma = "(mount_at s)(m \<mapsto> mount)"
    fix x x' mt mt'
    assume "mount_at (s1\<lparr>MOUNTS_LOCK := released b, MOUNTS := MOUNTS s @ [m], mount_at := ?ma\<rparr>) x = Some mt"
      "mount_at (s1\<lparr>MOUNTS_LOCK := released b, MOUNTS := MOUNTS s @ [m], mount_at := ?ma\<rparr>) x' = Some mt'"
      and same: "mount_point mt = mount_point mt'"
    then have x: "?ma x = Some mt" "?ma x' = Some mt'" by (simp_all del: fun_upd_apply)
    show "x = x'"
    proof (cases "x = m \<or> x' = m")
      case True
      then show ?thesis using x same free by (auto split: if_splits)
    next
      case False
      then have "mount_at s x = Some mt" "mount_at s x' = Some mt'" using x by simp_all
      then show ?thesis using same mok unfolding mounts_ok_def by blast
    qed
  qed (use mok m(2) in \<open>auto simp: mounts_ok_def split: if_splits\<close>)
  moreover have "distinct (MOUNTS s @ [m] @ OPENED_FILES s @ map (\<lambda>g. abs_path_ptr (the (file_at s g))) (OPENED_FILES s))"
    using ok fresh by (auto simp: vfs_ok_def owned_def)
  moreover have "set (owned s) \<subseteq> kmalloc_live s" using ok by (simp add: vfs_ok_def)
  ultimately show ?thesis
    unfolding vfs_ok_def s1(1) using s1 files_ok_cong [OF fok] fok
    by (auto simp: owned_def files_ok_def heap_ok_def)
qed

subsection \<open>A file from mount to read\<close>

lemma vfs_open_forward:
  assumes ok: "vfs_ok s" and first: "\<forall>g it. file_at s g = Some it \<longrightarrow> abs_path it \<noteq> filename"
    and m: "best_mount_loop (mount_at s) filename (MOUNTS s) None 0 = Some (Some m)" "mount_at s m = Some mount"
    and fs: "fs_open (mount_fs mount) (disks s (mount_disk mount)) (drop (length (mount_point mount)) filename) =
      Some (FS_SUCCESS, Some (fops, private))"
    and km: "kmalloc_answers s = c # f # as" "c \<noteq> 0" "f \<noteq> 0"
  shows "\<exists>lock. rw_rep lock RW_Free \<and> vfs_open filename s = Some (f,
    s\<lparr>OPENED_FILES_LOCK := released (int_flag s), MOUNTS_LOCK := released False, kmalloc_answers := as,
      kmalloc_live := insert f (insert c (kmalloc_live s)), OPENED_FILES := f # OPENED_FILES s,
      file_at := (file_at s)(f \<mapsto> \<lparr>abs_path = filename, abs_path_ptr = c,
        fs_relative_path = drop (length (mount_point mount)) filename, file_disk = mount_disk mount, file_lock = lock,
        file_fops = Some fops, fs_private = Some private, open_ref_count = 1\<rparr>)\<rparr>)"
proof -
  let ?s = "s\<lparr>int_flag := False, OPENED_FILES_LOCK := held_by (cpu_id s) (int_flag s)\<rparr>"
  let ?t = "?s\<lparr>MOUNTS_LOCK := released False, kmalloc_answers := as, kmalloc_live := insert f (insert c (kmalloc_live s))\<rparr>"
  have fok: "lock_free (OPENED_FILES_LOCK s)" "dom (file_at s) = set (OPENED_FILES s)" "lock_free (MOUNTS_LOCK s)"
    using ok by (simp_all add: vfs_ok_def files_ok_def mounts_ok_def)
  have dm: "\<forall>g \<in> set (OPENED_FILES s). file_at s g \<noteq> None" using fok(2) by auto
  have "find (\<lambda>g. abs_path (the (file_at s g)) = filename) (OPENED_FILES s) = None"
    using first dm by (auto simp: find_None_iff)
  then have lk: "lookup_file filename ?s = Some None"
    using find_opened_find [OF dm] by (simp add: lookup_file_def)
  obtain l1 where l1: "rwlock_write_lock INIT_RW_LOCK ?t = Some (l1, ?t)" "rw_rep l1 (RW_Writer (cpu_id s) False)"
    using rw_write_lock_free [OF rw_rep_init, of ?t] by auto
  obtain l2 where l2: "rwlock_write_unlock l1 ?t = Some (l2, ?t)" "rw_rep l2 RW_Free"
    using rw_write_unlock [of l1 ?t False] l1(2) by auto
  have "find_mount_for_file filename ?s = Some (Some m, ?s\<lparr>MOUNTS_LOCK := released False\<rparr>)"
    using m(1) find_mount_for_file_eq [of ?s filename] fok(3) by simp
  then have "open_file filename ?s = finish_open filename c f mount ?t"
    using m(2) km by (simp add: open_file_def kmalloc_def)
  then have "vfs_open filename s = Some (f,
    s\<lparr>OPENED_FILES_LOCK := released (int_flag s), MOUNTS_LOCK := released False, kmalloc_answers := as,
      kmalloc_live := insert f (insert c (kmalloc_live s)), OPENED_FILES := f # OPENED_FILES s,
      file_at := (file_at s)(f \<mapsto> \<lparr>abs_path = filename, abs_path_ptr = c,
        fs_relative_path = drop (length (mount_point mount)) filename, file_disk = mount_disk mount, file_lock = l2,
        file_fops = Some fops, fs_private = Some private, open_ref_count = 1\<rparr>)\<rparr>)"
    using lk fok l1(1) l2(1) fs m(2) km
    by (simp add: vfs_open_def lookup_file_or_open_def finish_open_def atomic_init_def Let_def)
  then show ?thesis using l2(2) by blast
qed

lemma vfs_read_forward:
  assumes "file_at s f = Some it" and "rw_rep (file_lock it) RW_Free"
    and "file_fops it = Some fops" and "fs_private it = Some private"
    and "fo_read fops (disks s (file_disk it)) private offset buf len = Some (n, buf', disks s (file_disk it))"
  shows "\<exists>l. rw_rep l RW_Free \<and>
    vfs_read f offset buf len s = Some (n, buf', s\<lparr>file_at := (file_at s)(f \<mapsto> it\<lparr>file_lock := l\<rparr>)\<rparr>)"
proof -
  obtain l1 where l1: "rwlock_read_lock (file_lock it) s = Some (l1, s)" "rw_rep l1 (RW_Readers 1)"
    using rw_read_lock_free [OF assms(2), of s] by auto
  obtain l2 where l2: "rwlock_read_unlock l1 s = Some (l2, s)" "rw_rep l2 RW_Free"
    using rw_read_unlock_last [OF l1(2), of s] by auto
  have "s\<lparr>disks := (disks s)(file_disk it := disks s (file_disk it))\<rparr> = s" by simp
  then have "vfs_read f offset buf len s = Some (n, buf', s\<lparr>file_at := (file_at s)(f \<mapsto> it\<lparr>file_lock := l2\<rparr>)\<rparr>)"
    using assms l1(1) l2(1) by (simp add: vfs_read_def)
  then show ?thesis using l2(2) by blast
qed

text \<open>An opened file whose file system serves reads from the bytes \<open>data\<close>.\<close>

definition file_holds :: "addr \<Rightarrow> u8 list \<Rightarrow> ('d, 'p, 'b) vfs_state_scheme \<Rightarrow> bool" where
  "file_holds f data s \<longleftrightarrow> (\<exists>it fops private. file_at s f = Some it \<and> rw_rep (file_lock it) RW_Free \<and>
     file_fops it = Some fops \<and> fs_private it = Some private \<and>
     (\<forall>offset buf len. unat len \<le> length buf \<longrightarrow>
        fo_read fops (disks s (file_disk it)) private offset buf len =
          (let n = min (length data - unat offset) (unat len)
           in Some (of_nat n, take n (drop (unat offset) data) @ drop n buf, disks s (file_disk it)))))"

lemma file_holds_cong:
  "file_holds f data s \<Longrightarrow> file_at s' f = file_at s f \<Longrightarrow> disks s' = disks s \<Longrightarrow> file_holds f data s'"
  by (simp add: file_holds_def)

lemma vfs_read_holds:
  assumes "file_holds f data s" and "unat len \<le> length buf"
  shows "\<exists>fa. vfs_read f offset buf len s =
    (let n = min (length data - unat offset) (unat len)
     in Some (of_nat n, take n (drop (unat offset) data) @ drop n buf, s\<lparr>file_at := fa\<rparr>)) \<and>
    file_holds f data (s\<lparr>file_at := fa\<rparr>)"
proof -
  obtain it fops priv where it: "file_at s f = Some it" "rw_rep (file_lock it) RW_Free"
    "file_fops it = Some fops" "fs_private it = Some priv"
    and rd: "\<And>offset buf len. unat len \<le> length buf \<Longrightarrow>
        fo_read fops (disks s (file_disk it)) priv offset buf len =
          (let n = min (length data - unat offset) (unat len)
           in Some (of_nat n, take n (drop (unat offset) data) @ drop n buf, disks s (file_disk it)))"
    using assms(1) unfolding file_holds_def by blast
  obtain l where l: "rw_rep l RW_Free" "vfs_read f offset buf len s =
      (let n = min (length data - unat offset) (unat len)
       in Some (of_nat n, take n (drop (unat offset) data) @ drop n buf,
         s\<lparr>file_at := (file_at s)(f \<mapsto> it\<lparr>file_lock := l\<rparr>)\<rparr>))"
    using vfs_read_forward [OF it rd [OF assms(2), of offset, unfolded Let_def]] by (auto simp: Let_def)
  moreover have "file_holds f data (s\<lparr>file_at := (file_at s)(f \<mapsto> it\<lparr>file_lock := l\<rparr>)\<rparr>)"
    unfolding file_holds_def using it l(1) rd by (auto intro!: exI [of _ "it\<lparr>file_lock := l\<rparr>"])
  ultimately show ?thesis by blast
qed

lemma ustar_detects:
  assumes "memdisk_valid d" and "zeroing km" and "length stack = 512" and "512 \<le> length (md_bytes d)"
    and "take 5 (drop 257 (md_bytes d)) = [0x75, 0x73, 0x74, 0x61, 0x72]"
  shows "get_fs_for_disk (SUPPORTED_FS km memdisk_ops stack) d = Some (Some (ustar_fs km memdisk_ops stack))"
proof -
  have "read_header km memdisk_ops d 0 stack = Some (True, take 512 (md_bytes d))"
    using md.read_header_bytes(1) [where kmalloc = km and offset = 0, OF assms(1,2) _ _ assms(3)] assms(4) by simp
  moreover have "take 5 (drop 257 (take 512 (md_bytes d))) = [0x75, 0x73, 0x74, 0x61, 0x72]"
    using assms(5) by (simp add: drop_take min_def)
  ultimately have "ustar_detect_fs km memdisk_ops stack d = Some True"
    using assms(4) by (simp add: ustar_detect_fs_def hdr_indicator_def strneq_buf_prefix)
  then show ?thesis by (simp add: SUPPORTED_FS_def ustar_fs_def)
qed


lemma vfs_open_archive:
  assumes ok: "vfs_ok s" and first: "\<forall>g it. file_at s g = Some it \<longrightarrow> abs_path it \<noteq> target @ entry_name h"
    and m: "best_mount_loop (mount_at s) (target @ entry_name h) (MOUNTS s) None 0 = Some (Some m)"
      "mount_at s m = Some \<lparr>mount_point = target, mount_disk = disk, mount_fs = ustar_fs alloc memdisk_ops stack\<rparr>"
    and km: "kmalloc_answers s = c # f # as" "c \<noteq> 0" "f \<noteq> 0"
    and d: "memdisk_valid (disks s disk)" "zeroing alloc"
    and es: "md_bytes (disks s disk) = archive_bytes (pre @ (h, data) # post)"
      "\<forall>e \<in> set (pre @ (h, data) # post). entry_ok e"
      "0 \<notin> set (entry_name h)" "\<forall>e \<in> set pre. entry_name (fst e) \<noteq> entry_name h" "is_file h"
  shows "\<exists>fa. vfs_open (target @ entry_name h) s = Some (f,
      s\<lparr>OPENED_FILES_LOCK := released (int_flag s), MOUNTS_LOCK := released False, kmalloc_answers := as,
        kmalloc_live := insert f (insert c (kmalloc_live s)), OPENED_FILES := f # OPENED_FILES s, file_at := fa\<rparr>) \<and>
    file_holds f (take (entry_size h) data) (s\<lparr>file_at := fa\<rparr>)"
proof -
  let ?d = "disks s disk" and ?p = "\<lparr>header_offset = of_nat (length (archive_bytes pre)), header = h\<rparr>"
  have path: "holds_string (entry_name h @ [0]) (entry_name h)" using es(3) by (simp add: holds_string_def)
  have lt: "length (md_bytes ?d) < 2 ^ 32"
    using d(1) unat_u32_bound [of "md_size ?d"] by (simp add: memdisk_valid_def)
  have sd: "entry_size h \<le> length data"
    using es(2) ceil_div_mult_ge [of 512 "entry_size h"] by (simp add: entry_ok_def)
  have "fs_open (ustar_fs alloc memdisk_ops stack) ?d (entry_name h) =
      Some (FS_SUCCESS, Some (ustar_file_ops alloc memdisk_ops, ?p))"
    using md.open_entry [where kmalloc = alloc, OF d path es(1) lt es(2) refl es(4)] by (simp add: ustar_fs_def)
  then obtain lock where lock: "rw_rep lock RW_Free" and opened: "vfs_open (target @ entry_name h) s = Some (f,
      s\<lparr>OPENED_FILES_LOCK := released (int_flag s), MOUNTS_LOCK := released False, kmalloc_answers := as,
        kmalloc_live := insert f (insert c (kmalloc_live s)), OPENED_FILES := f # OPENED_FILES s,
        file_at := (file_at s)(f \<mapsto> \<lparr>abs_path = target @ entry_name h, abs_path_ptr = c, fs_relative_path = entry_name h,
          file_disk = disk, file_lock = lock, file_fops = Some (ustar_file_ops alloc memdisk_ops),
          fs_private = Some ?p, open_ref_count = 1\<rparr>)\<rparr>)" (is "_ = Some (f, s\<lparr>OPENED_FILES_LOCK := _, MOUNTS_LOCK := _,
            kmalloc_answers := _, kmalloc_live := _, OPENED_FILES := _, file_at := ?fa\<rparr>)")
    using vfs_open_forward [OF ok first m, of "ustar_file_ops alloc memdisk_ops" ?p c f as] km by auto
  have "ustar_read alloc memdisk_ops ?d ?p offset buf len =
      (let n = min (length (take (entry_size h) data) - unat offset) (unat len)
       in Some (of_nat n, take n (drop (unat offset) (take (entry_size h) data)) @ drop n buf, ?d))"
    if "unat len \<le> length buf" for offset buf len
    using md.read_entry [where kmalloc = alloc, OF d es(1) lt es(2,5) that refl] sd
    by (simp add: Let_def drop_take min_def)
  then have "file_holds f (take (entry_size h) data) (s\<lparr>file_at := ?fa\<rparr>)"
    unfolding file_holds_def using lock by (auto simp: ustar_file_ops_def)
  then show ?thesis using opened by blast
qed

subsection \<open>Properties\<close>


text \<open>
  Opening a path that is open returns the file there already is, whoever opened it, and only counts
  one more user.
\<close>

theorem vfs_open_shares:
  assumes "vfs_ok s" and "file_at s f = Some it"
  shows "\<exists>s'. vfs_open (abs_path it) s = Some (f, s') \<and>
    file_at s' = (file_at s)(f \<mapsto> it\<lparr>open_ref_count := open_ref_count it + 1\<rparr>) \<and>
    OPENED_FILES s' = OPENED_FILES s \<and> MOUNTS s' = MOUNTS s \<and> kmalloc_live s' = kmalloc_live s \<and> int_flag s' = int_flag s"
proof -
  let ?s = "s\<lparr>int_flag := False, OPENED_FILES_LOCK := held_by (cpu_id s) (int_flag s)\<rparr>"
  have ok: "lock_free (OPENED_FILES_LOCK s)" "dom (file_at s) = set (OPENED_FILES s)"
    using assms(1) by (simp_all add: vfs_ok_def files_ok_def)
  then have dm: "\<forall>g \<in> set (OPENED_FILES s). file_at s g \<noteq> None" and f: "f \<in> set (OPENED_FILES s)"
    using assms(2) by auto
  have "find (\<lambda>g. abs_path (the (file_at s g)) = abs_path it) (OPENED_FILES s) \<noteq> None"
    unfolding find_None_iff using f assms(2) by (auto intro: exI [of _ f])
  then obtain g where g: "find (\<lambda>g. abs_path (the (file_at s g)) = abs_path it) (OPENED_FILES s) = Some g" by blast
  then have "g \<in> set (OPENED_FILES s)" "abs_path (the (file_at s g)) = abs_path it" by (auto simp: find_Some_iff)
  then have "g = f" using assms dm by (auto simp: vfs_ok_def files_ok_def)
  then have "lookup_file (abs_path it) ?s = Some (Some f)"
    using find_opened_find [OF dm] g by (simp add: lookup_file_def)
  then show ?thesis
    using assms(2) ok(1) by (simp add: vfs_open_def lookup_file_or_open_def atomic_inc_def atomic_add_def Let_def)
qed


text \<open>
  C33: The mount used for a path is the one whose mount point is the longest prefix of the path; when
  there is none no mount point is a prefix of it. Looking it up always returns and changes nothing.
\<close>

theorem find_mount_longest_prefix:
  assumes "vfs_ok s"
  shows "\<exists>b s'. find_mount_for_file filename s = Some (b, s') \<and> int_flag s' = int_flag s \<and> MOUNTS s' = MOUNTS s \<and>
    (case b of
       None \<Rightarrow> \<forall>m mount. mount_at s m = Some mount \<longrightarrow> take (length (mount_point mount)) filename \<noteq> mount_point mount
     | Some m \<Rightarrow> \<exists>mount. mount_at s m = Some mount \<and> take (length (mount_point mount)) filename = mount_point mount \<and>
         (\<forall>m' mount'. mount_at s m' = Some mount' \<longrightarrow> take (length (mount_point mount')) filename = mount_point mount' \<longrightarrow>
            length (mount_point mount') \<le> length (mount_point mount)))"
proof -
  have ok: "lock_free (MOUNTS_LOCK s)" "dom (mount_at s) = set (MOUNTS s)"
    "\<And>m mount. mount_at s m = Some mount \<Longrightarrow> mount_point mount \<noteq> []"
    using assms by (auto simp: vfs_ok_def mounts_ok_def mount_target_is_valid_def)
  then have dm: "\<forall>m \<in> set (MOUNTS s). mount_at s m \<noteq> None" by auto
  have cov: "covers (mount_at s) filename m =
      (if take (length (mount_point mount)) filename = mount_point mount then length (mount_point mount) else 0)"
    if "mount_at s m = Some mount" for m mount
    using that by (simp add: covers_def is_under_mount_eq)
  have mem: "m \<in> set (MOUNTS s)" if "mount_at s m = Some mount" for m mount
    using that ok(2) by blast
  obtain b where b: "best_mount_loop (mount_at s) filename (MOUNTS s) None 0 = Some b"
    "(b = None \<and> (\<forall>m \<in> set (MOUNTS s). covers (mount_at s) filename m \<le> 0)) \<or>
     (\<exists>m \<in> set (MOUNTS s). b = Some m \<and> 0 < covers (mount_at s) filename m \<and>
        (\<forall>x \<in> set (MOUNTS s). covers (mount_at s) filename x \<le> covers (mount_at s) filename m))"
    using best_mount_loop_spec [OF dm, of filename None 0] by blast
  have "find_mount_for_file filename s = Some (b, s\<lparr>MOUNTS_LOCK := released (int_flag s)\<rparr>)"
    using b(1) by (simp add: find_mount_for_file_eq [OF ok(1)])
  moreover have "case b of
       None \<Rightarrow> \<forall>m mount. mount_at s m = Some mount \<longrightarrow> take (length (mount_point mount)) filename \<noteq> mount_point mount
     | Some m \<Rightarrow> \<exists>mount. mount_at s m = Some mount \<and> take (length (mount_point mount)) filename = mount_point mount \<and>
         (\<forall>m' mount'. mount_at s m' = Some mount' \<longrightarrow> take (length (mount_point mount')) filename = mount_point mount' \<longrightarrow>
            length (mount_point mount') \<le> length (mount_point mount))"
    using b(2)
  proof (elim disjE conjE bexE)
    assume none: "b = None" "\<forall>m \<in> set (MOUNTS s). covers (mount_at s) filename m \<le> 0"
    then show ?thesis using cov mem ok(3) by fastforce
  next
    fix m assume m: "m \<in> set (MOUNTS s)" "b = Some m" "0 < covers (mount_at s) filename m"
      "\<forall>x \<in> set (MOUNTS s). covers (mount_at s) filename x \<le> covers (mount_at s) filename m"
    then obtain mount where mount: "mount_at s m = Some mount" using dm by blast
    then have "take (length (mount_point mount)) filename = mount_point mount"
      using m(3) cov [OF mount] by (simp split: if_splits)
    moreover have "length (mount_point mount') \<le> length (mount_point mount)"
      if "mount_at s m' = Some mount'" "take (length (mount_point mount')) filename = mount_point mount'" for m' mount'
      using m(4) mem [OF that(1)] cov [OF that(1)] cov [OF mount] that(2) calculation by auto
    ultimately show ?thesis using mount m(2) by simp
  qed
  ultimately show ?thesis by simp
qed

text \<open>
  C10: The layers together: a disk with an archive on it is mounted, a file of the archive is opened by its
  path under the mount point, and reading it at any offset returns the bytes of the file. Every step succeeds.
\<close>

theorem mount_open_read:
  assumes ok: "vfs_ok s" "MOUNTS s = []" "OPENED_FILES s = []"
    and km: "kmalloc_answers s = m # c # f # as" "m \<noteq> 0" "c \<noteq> 0" "f \<noteq> 0"
    and d: "memdisk_valid (disks s disk)" "zeroing alloc" "length stack = 512"
      "take 5 (drop 257 (md_bytes (disks s disk))) = [0x75, 0x73, 0x74, 0x61, 0x72]"
    and es: "md_bytes (disks s disk) = archive_bytes (pre @ (h, data) # post)"
      "\<forall>e \<in> set (pre @ (h, data) # post). entry_ok e"
      "0 \<notin> set (entry_name h)" "\<forall>e \<in> set pre. entry_name (fst e) \<noteq> entry_name h" "is_file h"
    and target: "mount_target_is_valid target" and len: "unat len \<le> length buf"
  shows "\<exists>s1 s2 s3. vfs_mount (SUPPORTED_FS alloc memdisk_ops stack) disk target s = Some (True, s1) \<and>
    vfs_open (target @ entry_name h) s1 = Some (f, s2) \<and>
    vfs_read f offset buf len s2 =
      (let n = min (entry_size h - unat offset) (unat len)
       in Some (of_nat n, take n (drop (unat offset) data) @ drop n buf, s3))"
proof -
  let ?fs = "ustar_fs alloc memdisk_ops stack" and ?d = "disks s disk"
  let ?mount = "\<lparr>mount_point = target, mount_disk = disk, mount_fs = ?fs\<rparr>"
  have none: "mount_at s = Map.empty" "file_at s = Map.empty"
    using ok by (auto simp: vfs_ok_def mounts_ok_def files_ok_def dom_eq_empty_conv)
  have hl: "length h = 512" using es(2) by (simp add: entry_ok_def)
  have det: "get_fs_for_disk (SUPPORTED_FS alloc memdisk_ops stack) ?d = Some (Some ?fs)"
    by (rule ustar_detects [OF d(1-3) _ d(4)]) (use es(1) hl in simp)
  have free: "\<forall>x mount. mount_at s x = Some mount \<longrightarrow> mount_point mount \<noteq> target" by (simp add: none)
  note mnt = vfs_mount_new [OF ok(1) target kmalloc_answer [OF km(1,2)] km(2) det free]
  let ?s1 = "s\<lparr>kmalloc_answers := c # f # as, kmalloc_live := insert m (kmalloc_live s),
      MOUNTS_LOCK := released (int_flag s), MOUNTS := MOUNTS s @ [m], mount_at := (mount_at s)(m \<mapsto> ?mount)\<rparr>"
  have ok1: "vfs_ok ?s1"
    using vfs_ok_mount [OF ok(1) mnt(2) _ _ refl mnt(4), of ?mount "int_flag s"] target none by simp
  have under: "best_mount_loop (mount_at ?s1) (target @ entry_name h) (MOUNTS ?s1) None 0 = Some (Some m)"
    using target ok(2) by (simp add: is_under_mount_eq mount_target_is_valid_def)
  have dm: "disks ?s1 disk = ?d" "mount_at ?s1 m = Some ?mount" by simp_all
  have sd: "entry_size h \<le> length data"
    using es(2) ceil_div_mult_ge [of 512 "entry_size h"] by (simp add: entry_ok_def)
  obtain s2 where s2: "vfs_open (target @ entry_name h) ?s1 = Some (f, s2)" "file_holds f (take (entry_size h) data) s2"
    using vfs_open_archive [OF ok1 _ under dm(2) _ km(3,4) d(1,2) [folded dm(1)] es [folded dm(1)]] none km
    by (auto simp: file_holds_def)
  obtain s3 where "vfs_read f offset buf len s2 =
      (let n = min (length (take (entry_size h) data) - unat offset) (unat len)
       in Some (of_nat n, take n (drop (unat offset) (take (entry_size h) data)) @ drop n buf, s3))"
    using vfs_read_holds [OF s2(2) len, of offset] by (auto simp: Let_def)
  then show ?thesis
    using mnt(1) s2(1) sd by (simp add: Let_def drop_take min_def)
qed

text \<open>
  C34: Unmounting a path that is not a mount point while others are mounted does not report
  \<open>ENOTMOUNTPOINT\<close>: the loop leaves \<open>mount\<close> at the entry computed from the list head, the list is cut off
  from its head, and an address that was never allocated is freed.
\<close>

theorem vfs_unmount_not_mounted:
  assumes "vfs_ok s" and "MOUNTS s \<noteq> []"
    and "\<forall>x mount. mount_at s x = Some mount \<longrightarrow> mount_point mount \<noteq> pathname"
    and "head - 12 \<notin> kmalloc_live s" and "head \<noteq> 12"
  shows "vfs_unmount head pathname s = None"
  using assms by (rule vfs_unmount_absent)


subsection \<open>Examples\<close>

definition vfs_example :: "(memdisk_data, ustar_file_private_data) vfs_state" where
  "vfs_example = \<lparr>cpu_id = 0, int_flag = True, error_list = [], error_descs = [],
     kmalloc_answers = [0x100, 0x200, 0x300], kmalloc_live = {},
     SCHEDULER = True,
     percpu = (\<lambda>_. \<lparr>sched_running = True, resched_flag = False, context_switches = 0, preempt_count = 0,
       idle_proc = 0x10, curr_proc = 0x20\<rparr>),
     procs = (\<lambda>_. \<lparr>state_flags = PROC_RUNNABLE, proc_cpu = 0, exit_code = 0, pid = 7, file_table = replicate 32 0\<rparr>),
     RUNQUEUE = [], RUNQUEUE_LOCK = INIT_SPINLOCK, disks = (\<lambda>_. archive_example),
     MOUNTS = [], mount_at = Map.empty, MOUNTS_LOCK = INIT_SPINLOCK,
     OPENED_FILES = [], file_at = Map.empty, OPENED_FILES_LOCK = INIT_SPINLOCK\<rparr>"

abbreviation zero_alloc :: "u32 \<Rightarrow> u8 list option" where
  "zero_alloc \<equiv> \<lambda>n. Some (replicate (unat n) 0)"

abbreviation example_fs :: "(memdisk_data, ustar_file_private_data) fs" where
  "example_fs \<equiv> ustar_fs zero_alloc memdisk_ops (replicate 512 0)"

definition file_example :: "(memdisk_data, ustar_file_private_data) vfs_file" where
  "file_example = \<lparr>abs_path = [0x2F, 97], abs_path_ptr = 0x200, fs_relative_path = [97], file_disk = 0,
     file_lock = INIT_RW_LOCK, file_fops = None, fs_private = None, open_ref_count = 1\<rparr>"

definition opened_example :: "(memdisk_data, ustar_file_private_data) vfs_state" where
  "opened_example = vfs_example\<lparr>kmalloc_answers := [], kmalloc_live := {0x100, 0x200, 0x300},
     MOUNTS := [0x100], mount_at := [0x100 \<mapsto> \<lparr>mount_point = [0x2F], mount_disk = 0, mount_fs = example_fs\<rparr>],
     OPENED_FILES := [0x300], file_at := [0x300 \<mapsto> file_example]\<rparr>"

lemma vfs_example_ok: "vfs_ok vfs_example"
  by (simp add: vfs_ok_def vfs_example_def mounts_ok_def files_ok_def heap_ok_def owned_def)

lemma opened_example_ok: "vfs_ok opened_example"
  by (auto simp: vfs_ok_def opened_example_def vfs_example_def mounts_ok_def files_ok_def heap_ok_def owned_def
      file_example_def mount_target_is_valid_def INIT_RW_LOCK_def split: if_splits)

theorem find_mount_longest_prefix_witness:
  "\<exists>b s'. find_mount_for_file [0x2F, 97] opened_example = Some (b, s') \<and> MOUNTS s' = [0x100]"
  using find_mount_longest_prefix [OF opened_example_ok, of "[0x2F, 97]"] by (auto simp: opened_example_def)

theorem vfs_unmount_not_mounted_witness:
  "vfs_unmount 0x1000 [0x2F, 97, 0x2F] opened_example = None"
  by (rule vfs_unmount_not_mounted [OF opened_example_ok]) (simp_all add: opened_example_def split: if_splits)



theorem mount_open_read_witness:
  "\<exists>s1 s2 s3. vfs_mount (SUPPORTED_FS zero_alloc memdisk_ops (replicate 512 0)) 0 [0x2F] vfs_example = Some (True, s1) \<and>
    vfs_open [0x2F, 97] s1 = Some (0x300, s2) \<and> vfs_read 0x300 1 [9, 9, 9, 9] 4 s2 = Some (2, [2, 3, 9, 9], s3)"
proof -
  have ex: "disks vfs_example 0 = archive_example" by (simp add: vfs_example_def)
  have ind: "take 5 (drop 257 (md_bytes archive_example)) = [0x75, 0x73, 0x74, 0x61, 0x72]"
    by (simp add: archive_example_bytes header_example_def)
  show ?thesis
    using mount_open_read [where s = vfs_example and m = "0x100" and c = "0x200" and f = "0x300" and as = "[]" and
        disk = 0 and alloc = zero_alloc and stack = "replicate 512 0" and pre = "[]" and h = header_example and
        data = "[1, 2, 3] @ replicate 509 0" and post = "[]" and target = "[0x2F]" and len = 4 and
        buf = "[9, 9, 9, 9]" and offset = 1, OF vfs_example_ok]
      header_example_entry header_example_fields archive_example_valid ind
    by (simp add: ex archive_example_bytes vfs_example_def mount_target_is_valid_def Let_def)
qed

definition mounted_example :: "(memdisk_data, ustar_file_private_data) vfs_state" where
  "mounted_example = vfs_example\<lparr>kmalloc_answers := [0x200, 0x300], kmalloc_live := {0x100},
     MOUNTS := [0x100], mount_at := [0x100 \<mapsto> \<lparr>mount_point = [0x2F], mount_disk = 0, mount_fs = example_fs\<rparr>]\<rparr>"

lemma mounted_example_ok: "vfs_ok mounted_example"
  by (auto simp: vfs_ok_def mounted_example_def vfs_example_def mounts_ok_def files_ok_def heap_ok_def owned_def
      mount_target_is_valid_def split: if_splits)

lemma mounted_example_open: "\<exists>s'. vfs_open [0x2F, 97] mounted_example = Some (0x300, s')"
proof -
  have lt: "length (md_bytes archive_example) < 2 ^ 32"
    using header_example_fields(1) by (simp add: archive_example_bytes)
  have "ustar_open_file zero_alloc memdisk_ops archive_example [97, 0] =
      Some (FS_SUCCESS, Some \<lparr>header_offset = of_nat (length (archive_bytes [])), header = header_example\<rparr>)"
    using header_example_entry archive_example_bytes lt
    by (intro md.open_entry [where kmalloc = zero_alloc and path = "[97]" and pre = "[]" and post = "[]",
          OF archive_example_valid]) (simp_all add: holds_string_def)
  then have "fs_open example_fs archive_example [97] = Some (FS_SUCCESS,
      Some (ustar_file_ops zero_alloc memdisk_ops, \<lparr>header_offset = 0, header = header_example\<rparr>))"
    by (simp add: ustar_fs_def)
  then show ?thesis
    using vfs_open_forward [OF mounted_example_ok, of "[0x2F, 97]" "0x100"
        "\<lparr>mount_point = [0x2F], mount_disk = 0, mount_fs = example_fs\<rparr>"]
    by (fastforce simp: mounted_example_def vfs_example_def is_under_mount_eq)
qed


end
