(* ===== verification/Syscalls.thy ===== *)
theory Syscalls
  imports Vfs
begin

text \<open>
  The system calls of \<open>syscalls.c\<close>, with the closing of a process' files of \<open>proc.c\<close>. A system call runs on
  the memory of the process that made it, in which paths and buffers are addresses. It runs on top of the
  whole kernel state: the scheduler tells the current process, whose file table leads to the entries, and
  the entries to the files of the VFS.
\<close>

subsection \<open>State\<close>

definition MAX_FDS :: nat where
  "MAX_FDS = 32"

record file_table_entry =
  fte_file :: addr
  file_pointer :: u64

record ('d, 'p) sys_state = "('d, 'p) vfs_state" +
  user_memory :: memory
  entry_at :: "addr \<rightharpoonup> file_table_entry"

definition load_bytes :: "memory \<Rightarrow> addr \<Rightarrow> nat \<Rightarrow> u8 list" where
  "load_bytes m a n = map (\<lambda>i. m (a + of_nat i)) [0..<n]"

definition store_bytes :: "addr \<Rightarrow> u8 list \<Rightarrow> memory \<Rightarrow> memory" where
  "store_bytes a bs m = (\<lambda>b. if unat (b - a) < length bs then bs ! unat (b - a) else m b)"

subsection \<open>Files\<close>

text \<open>The search for a free entry: the index of the first entry that is 0, or the length of the table.\<close>

fun next_fd_loop :: "addr list \<Rightarrow> nat \<Rightarrow> nat" where
  "next_fd_loop [] fd = fd"
| "next_fd_loop (e # es) fd = (if e \<noteq> 0 then next_fd_loop es (fd + 1) else fd)"

definition set_fd :: "addr \<Rightarrow> nat \<Rightarrow> addr \<Rightarrow> ('d, 'p, 'b) sys_state_scheme \<Rightarrow> ('d, 'p, 'b) sys_state_scheme" where
  "set_fd p fd e s = s\<lparr>procs := (procs s)(p := (procs s p)\<lparr>file_table := (file_table (procs s p))[fd := e]\<rparr>)\<rparr>"

definition do_open ::
  "(('d, 'p, 'b) sys_state_scheme \<Rightarrow> ('d, 'p, 'b) sys_state_scheme option) \<Rightarrow> addr \<Rightarrow>
   ('d, 'p, 'b) sys_state_scheme \<Rightarrow> (u32 \<times> ('d, 'p, 'b) sys_state_scheme) option" where
  "do_open sch u_path s = do {
     len \<leftarrow> strlen (user_memory s) u_path;
     let (path_ptr, s) = kmalloc s;
     if path_ptr = 0 then PANIC
     else do {
       let path = load_bytes (user_memory s) u_path (unat len);
       (curr, s) \<leftarrow> get_curr_proc sch s;
       (f, s) \<leftarrow> vfs_open path s;
       ASSERT (f \<noteq> 0);
       s \<leftarrow> kfree path_ptr s;
       let (op_file, s) = kmalloc s;
       if op_file = 0 then PANIC
       else do {
         let s = s\<lparr>entry_at := (entry_at s)(op_file \<mapsto> \<lparr>fte_file = f, file_pointer = 0\<rparr>)\<rparr>;
         let fd = next_fd_loop (file_table (procs s curr)) 0;
         if fd = MAX_FDS then PANIC
         else Some (of_nat fd, set_fd curr fd op_file s) } } }"

text \<open>
  The entry of a descriptor. \<open>do_read\<close> and \<open>do_write\<close> do not compare the descriptor with the size of the
  table; what they find behind the table is not modelled and has no result here.
\<close>

definition get_entry :: "addr \<Rightarrow> u32 \<Rightarrow> ('d, 'p, 'b) sys_state_scheme \<Rightarrow> (addr \<times> file_table_entry) option" where
  "get_entry p fd s = do {
     ASSERT (unat fd < length (file_table (procs s p)));
     let op_file = file_table (procs s p) ! unat fd;
     if op_file = 0 then PANIC
     else do {
       e \<leftarrow> entry_at s op_file;
       Some (op_file, e) } }"

definition do_read ::
  "(('d, 'p, 'b) sys_state_scheme \<Rightarrow> ('d, 'p, 'b) sys_state_scheme option) \<Rightarrow> u32 \<Rightarrow> addr \<Rightarrow> u32 \<Rightarrow>
   ('d, 'p, 'b) sys_state_scheme \<Rightarrow> (u32 \<times> ('d, 'p, 'b) sys_state_scheme) option" where
  "do_read sch fd buf len s = do {
     (curr, s) \<leftarrow> get_curr_proc sch s;
     (op_file, e) \<leftarrow> get_entry curr fd s;
     (ret, bytes, s) \<leftarrow> vfs_read (fte_file e) (file_pointer e) (load_bytes (user_memory s) buf (unat len)) len s;
     let s = s\<lparr>user_memory := store_bytes buf bytes (user_memory s)\<rparr>;
     Some (ret, s\<lparr>entry_at := (entry_at s)(op_file \<mapsto> e\<lparr>file_pointer := file_pointer e + ucast ret\<rparr>)\<rparr>) }"

definition do_write ::
  "(('d, 'p, 'b) sys_state_scheme \<Rightarrow> ('d, 'p, 'b) sys_state_scheme option) \<Rightarrow> u32 \<Rightarrow> addr \<Rightarrow> u32 \<Rightarrow>
   ('d, 'p, 'b) sys_state_scheme \<Rightarrow> (u32 \<times> ('d, 'p, 'b) sys_state_scheme) option" where
  "do_write sch fd buf len s = do {
     (curr, s) \<leftarrow> get_curr_proc sch s;
     (op_file, e) \<leftarrow> get_entry curr fd s;
     (ret, s) \<leftarrow> vfs_write (fte_file e) (file_pointer e) (load_bytes (user_memory s) buf (unat len)) len s;
     Some (ret, s\<lparr>entry_at := (entry_at s)(op_file \<mapsto> e\<lparr>file_pointer := file_pointer e + ucast ret\<rparr>)\<rparr>) }"

definition do_get_pid ::
  "(('d, 'p, 'b) sys_state_scheme \<Rightarrow> ('d, 'p, 'b) sys_state_scheme option) \<Rightarrow>
   ('d, 'p, 'b) sys_state_scheme \<Rightarrow> (u32 \<times> ('d, 'p, 'b) sys_state_scheme) option" where
  "do_get_pid sch s = do {
     (curr, s) \<leftarrow> get_curr_proc sch s;
     Some (pid (procs s curr), s) }"

text \<open>\<open>do_klog\<close> prints a line; only the lookup of the process is left of it.\<close>

definition do_klog ::
  "(('d, 'p, 'b) sys_state_scheme \<Rightarrow> ('d, 'p, 'b) sys_state_scheme option) \<Rightarrow> addr \<Rightarrow>
   ('d, 'p, 'b) sys_state_scheme \<Rightarrow> ('d, 'p, 'b) sys_state_scheme option" where
  "do_klog sch message s = do {
     (curr, s) \<leftarrow> get_curr_proc sch s;
     Some s }"

text \<open>\<open>close_all_opened_files\<close> of \<open>proc.c\<close>.\<close>

fun close_all_loop :: "addr \<Rightarrow> nat list \<Rightarrow> ('d, 'p, 'b) sys_state_scheme \<Rightarrow> ('d, 'p, 'b) sys_state_scheme option" where
  "close_all_loop p [] s = Some s"
| "close_all_loop p (fd # fds) s = do {
     let entry = file_table (procs s p) ! fd;
     if entry = 0 then close_all_loop p fds s
     else do {
       e \<leftarrow> entry_at s entry;
       s \<leftarrow> vfs_close (fte_file e) s;
       s \<leftarrow> kfree entry s;
       close_all_loop p fds (set_fd p fd 0 (s\<lparr>entry_at := (entry_at s)(entry := None)\<rparr>)) } }"

definition close_all_opened_files :: "addr \<Rightarrow> ('d, 'p, 'b) sys_state_scheme \<Rightarrow> ('d, 'p, 'b) sys_state_scheme option" where
  "close_all_opened_files p s = close_all_loop p [0..<MAX_FDS] s"

subsection \<open>Dispatch\<close>

record syscall_args =
  eax :: u32
  ebx :: u32
  ecx :: u32
  edx :: u32
  esi :: u32
  edi :: u32
  ebp :: u32

text \<open>The functions in the table.\<close>

datatype syscall = Do_Exit | Do_Open | Do_Read | Do_Get_Pid | Do_Write | Do_Klog

definition SYSCALL_MAP :: "syscall option list" where
  "SYSCALL_MAP = [None, Some Do_Exit, Some Do_Open, Some Do_Read, Some Do_Get_Pid, Some Do_Write, Some Do_Klog]"

definition in_syscall_map_bounds :: "u32 \<Rightarrow> bool" where
  "in_syscall_map_bounds syscall_nr \<longleftrightarrow> unat syscall_nr < length SYSCALL_MAP"

text \<open>
  \<open>do_syscall_dispatch\<close>: the function is called with the registers on the stack and takes as many as it has
  parameters. A function without result leaves \<open>EAX\<close> at some value, \<open>void_eax\<close>.
\<close>

fun do_syscall_dispatch ::
  "(('d, 'p, 'b) sys_state_scheme \<Rightarrow> ('d, 'p, 'b) sys_state_scheme option) \<Rightarrow> u32 \<Rightarrow> syscall \<Rightarrow> syscall_args \<Rightarrow>
   ('d, 'p, 'b) sys_state_scheme \<Rightarrow> (u32 \<times> ('d, 'p, 'b) sys_state_scheme) option" where
  "do_syscall_dispatch sch void_eax Do_Exit args s = map_option (Pair void_eax) (do_exit sch (ucast (ebx args)) s)"
| "do_syscall_dispatch sch void_eax Do_Open args s = do_open sch (ebx args) s"
| "do_syscall_dispatch sch void_eax Do_Read args s = do_read sch (ebx args) (ecx args) (edx args) s"
| "do_syscall_dispatch sch void_eax Do_Get_Pid args s = do_get_pid sch s"
| "do_syscall_dispatch sch void_eax Do_Write args s = do_write sch (ebx args) (ecx args) (edx args) s"
| "do_syscall_dispatch sch void_eax Do_Klog args s = map_option (Pair void_eax) (do_klog sch (ebx args) s)"

definition DEBUG_ALL_SYSCALLS :: u32 where
  "DEBUG_ALL_SYSCALLS = - 2"

text \<open>\<open>syscall_dispatch\<close>; the debug fields of the process are the arguments \<open>debug_n\<close>, \<open>pre\<close> and \<open>post\<close>.\<close>

definition syscall_dispatch ::
  "(('d, 'p, 'b) sys_state_scheme \<Rightarrow> ('d, 'p, 'b) sys_state_scheme option) \<Rightarrow> u32 \<Rightarrow> u32 \<Rightarrow>
   (syscall_args \<Rightarrow> ('d, 'p, 'b) sys_state_scheme \<Rightarrow> ('d, 'p, 'b) sys_state_scheme option) option \<Rightarrow>
   (syscall_args \<Rightarrow> u32 \<Rightarrow> ('d, 'p, 'b) sys_state_scheme \<Rightarrow> ('d, 'p, 'b) sys_state_scheme option) option \<Rightarrow>
   syscall_args \<Rightarrow> ('d, 'p, 'b) sys_state_scheme \<Rightarrow> (u32 \<times> ('d, 'p, 'b) sys_state_scheme) option" where
  "syscall_dispatch sch void_eax debug_n pre post args s = do {
     let syscall_nr = eax args;
     if \<not> in_syscall_map_bounds syscall_nr then PANIC
     else case SYSCALL_MAP ! unat syscall_nr of
       None \<Rightarrow> PANIC
     | Some func \<Rightarrow> do {
         (curr, s) \<leftarrow> get_curr_proc sch s;
         let debug = (debug_n = syscall_nr \<or> debug_n = DEBUG_ALL_SYSCALLS);
         s \<leftarrow> (case pre of Some hook \<Rightarrow> if debug then hook args s else Some s | None \<Rightarrow> Some s);
         (res, s) \<leftarrow> do_syscall_dispatch sch void_eax func args s;
         s \<leftarrow> (case post of Some hook \<Rightarrow> if debug then hook args res s else Some s | None \<Rightarrow> Some s);
         Some (res, s) } }"

text \<open>\<open>syscall_int_handler\<close>: the result goes into the saved \<open>EAX\<close>.\<close>

definition syscall_int_handler ::
  "(('d, 'p, 'b) sys_state_scheme \<Rightarrow> ('d, 'p, 'b) sys_state_scheme option) \<Rightarrow> u32 \<Rightarrow> u32 \<Rightarrow>
   (syscall_args \<Rightarrow> ('d, 'p, 'b) sys_state_scheme \<Rightarrow> ('d, 'p, 'b) sys_state_scheme option) option \<Rightarrow>
   (syscall_args \<Rightarrow> u32 \<Rightarrow> ('d, 'p, 'b) sys_state_scheme \<Rightarrow> ('d, 'p, 'b) sys_state_scheme option) option \<Rightarrow>
   syscall_args \<Rightarrow> ('d, 'p, 'b) sys_state_scheme \<Rightarrow> (syscall_args \<times> ('d, 'p, 'b) sys_state_scheme) option" where
  "syscall_int_handler sch void_eax debug_n pre post regs s = do {
     (res, s) \<leftarrow> syscall_dispatch sch void_eax debug_n pre post regs s;
     Some (regs\<lparr>eax := res\<rparr>, s) }"

subsection \<open>Memory of the process\<close>

lemma length_load_bytes [simp]: "length (load_bytes m a n) = n"
  by (simp add: load_bytes_def)

lemma window_index: "i < 2 ^ 32 \<Longrightarrow> unat (a + of_nat i - a :: u32) = i"
  by (simp add: unat_of_nat_bounded)

lemma load_store_bytes:
  assumes "n \<le> length bs" and "length bs < 2 ^ 32"
  shows "load_bytes (store_bytes a bs m) a n = take n bs"
proof (rule nth_equalityI)
  fix i assume "i < length (load_bytes (store_bytes a bs m) a n)"
  then show "load_bytes (store_bytes a bs m) a n ! i = take n bs ! i"
    using assms window_index [of i a] by (simp add: load_bytes_def store_bytes_def)
qed (use assms in simp)

lemma store_bytes_unchanged:
  assumes "n \<le> length xs" and "length xs < 2 ^ 32" and "\<forall>i. n \<le> i \<and> i < length xs \<longrightarrow> xs ! i = m (a + of_nat i)"
    and "\<not> unat (b - a) < n"
  shows "store_bytes a xs m b = m b"
proof -
  have "a + of_nat (unat (b - a)) = b" by simp
  then show ?thesis using assms by (auto simp: store_bytes_def)
qed

subsection \<open>Reading\<close>

lemma calm_cong:
  assumes "calm N s" and "lock_free (RUNQUEUE_LOCK s')" "SCHEDULER s' = SCHEDULER s" "RUNQUEUE s' = RUNQUEUE s"
    "percpu s' = percpu s" "cpu_id s' = cpu_id s" "\<And>p. state_flags (procs s' p) = state_flags (procs s p)"
  shows "calm N s'"
proof -
  have "sched_ok N s" using assms(1) by (simp add: calm_def)
  then have "sched_ok N s'" by (rule sched_ok_cong) (use assms in auto)
  then show ?thesis using assms by (simp add: calm_def needs_resched_def proc_is_runnable_def)
qed

lemma get_entry_eq_Some:
  "get_entry p fd s = Some (op_file, e) \<longleftrightarrow> unat fd < length (file_table (procs s p)) \<and>
     file_table (procs s p) ! unat fd = op_file \<and> op_file \<noteq> 0 \<and> entry_at s op_file = Some e"
  by (cases "entry_at s (file_table (procs s p) ! unat fd)") (auto simp: get_entry_def ASSERT_bind Let_def split: if_splits)

text \<open>The descriptor \<open>fd\<close> of the current process stands for a file that holds \<open>data\<close>, at position \<open>pos\<close>.\<close>

definition fd_at :: "u32 \<Rightarrow> u8 list \<Rightarrow> u64 \<Rightarrow> ('d, 'p, 'b) sys_state_scheme \<Rightarrow> bool" where
  "fd_at fd data pos s \<longleftrightarrow> (\<exists>op_file e. get_entry (curr_proc (self s)) fd s = Some (op_file, e) \<and>
     file_pointer e = pos \<and> file_holds (fte_file e) data s)"

lemma do_read_step:
  assumes calm: "calm N s" and fd: "fd_at fd data pos s" and n: "n = min (length data - unat pos) (unat len)"
  shows "\<exists>s'. do_read (schedule 1) fd buf len s = Some (of_nat n, s') \<and>
    load_bytes (user_memory s') buf n = take n (drop (unat pos) data) \<and>
    (\<forall>a. \<not> unat (a - buf) < n \<longrightarrow> user_memory s' a = user_memory s a) \<and>
    calm N s' \<and> fd_at fd data (pos + of_nat n) s'"
proof -
  let ?curr = "curr_proc (self s)" and ?b = "load_bytes (user_memory s) buf (unat len)"
  let ?xs = "take n (drop (unat pos) data) @ drop n ?b"
  obtain op e where op: "get_entry ?curr fd s = Some (op, e)" "file_pointer e = pos" "file_holds (fte_file e) data s"
    using fd by (auto simp: fd_at_def)
  obtain fa where rd: "vfs_read (fte_file e) pos ?b len s = Some (of_nat n, ?xs, s\<lparr>file_at := fa\<rparr>)"
    and holds: "file_holds (fte_file e) data (s\<lparr>file_at := fa\<rparr>)"
    using vfs_read_holds [OF op(3), of len ?b pos] n by (auto simp: Let_def)
  have len32: "unat len < 2 ^ 32" using unsigned_less [of len] by simp
  have nl: "n \<le> unat len" "n \<le> length data - unat pos" using n by auto
  have xs: "length ?xs = unat len" "n \<le> length ?xs" using nl by auto
  let ?s1 = "s\<lparr>file_at := fa, user_memory := store_bytes buf ?xs (user_memory s)\<rparr>"
  let ?s' = "?s1\<lparr>entry_at := (entry_at s)(op \<mapsto> e\<lparr>file_pointer := pos + of_nat n\<rparr>)\<rparr>"
  have "unat (of_nat n :: u32) = n" using nl(1) len32 by (intro unat_of_nat_bounded) simp
  then have un: "(ucast (of_nat n :: u32) :: u64) = of_nat n" by (metis of_nat_unat)
  have run: "do_read (schedule 1) fd buf len s = Some (of_nat n, ?s')"
    using get_curr_proc_calm [OF calm] op(1,2) rd un by (simp add: do_read_def)
  have mem: "load_bytes (user_memory ?s') buf n = take n (drop (unat pos) data)"
    using load_store_bytes [of n ?xs buf "user_memory s"] xs len32 nl by simp
  have "?xs ! i = user_memory s (buf + of_nat i)" if "n \<le> i" "i < length ?xs" for i
    using that xs nl by (auto simp: nth_append load_bytes_def)
  then have rest: "user_memory ?s' a = user_memory s a" if "\<not> unat (a - buf) < n" for a
    using store_bytes_unchanged [of n ?xs "user_memory s" buf a] xs len32 that by auto
  have "calm N ?s'" by (rule calm_cong [OF calm]) (use calm in \<open>auto simp: calm_def sched_ok_def queues_ok_def\<close>)
  moreover have "fd_at fd data (pos + of_nat n) ?s'"
    unfolding fd_at_def using op(1) file_holds_cong [OF holds, of ?s'] by (auto simp: get_entry_eq_Some)
  ultimately show ?thesis using run mem rest by blast
qed

text \<open>A process reads in pieces; what arrives is put together.\<close>

fun read_chunks ::
  "u32 \<Rightarrow> addr \<Rightarrow> u32 list \<Rightarrow> ('d, 'p, 'b) sys_state_scheme \<Rightarrow> (u8 list \<times> ('d, 'p, 'b) sys_state_scheme) option" where
  "read_chunks fd buf [] s = Some ([], s)"
| "read_chunks fd buf (len # lens) s = do {
     (n, s) \<leftarrow> do_read (schedule 1) fd buf len s;
     let chunk = load_bytes (user_memory s) buf (unat n);
     (chunks, s) \<leftarrow> read_chunks fd buf lens s;
     Some (chunk @ chunks, s) }"

lemma read_chunks_data:
  assumes "calm N s" and "fd_at fd data pos s" and "length data < 2 ^ 64"
  shows "\<exists>s'. read_chunks fd buf lens s = Some (take (sum_list (map unat lens)) (drop (unat pos) data), s') \<and> calm N s'"
  using assms(1,2)
proof (induction lens arbitrary: s pos)
  case (Cons len lens)
  define n where "n = min (length data - unat pos) (unat len)"
  obtain s1 where s1: "do_read (schedule 1) fd buf len s = Some (of_nat n, s1)"
      "load_bytes (user_memory s1) buf n = take n (drop (unat pos) data)" "calm N s1" "fd_at fd data (pos + of_nat n) s1"
    using do_read_step [OF Cons.prems n_def] by blast
  have n: "n \<le> unat len" "n \<le> length data - unat pos" by (simp_all add: n_def)
  have "unat (of_nat n :: u32) = n"
    using n(1) unat_u32_bound [of len] by (intro unat_of_nat_bounded) simp
  moreover have "unat (pos + of_nat n) = unat pos + n"
  proof (cases "n = 0")
    case False
    then have "unat pos + n < 2 ^ 64" using n(2) assms(3) by linarith
    then show ?thesis by (simp add: unat_word_ariths unat_of_nat)
  qed simp
  moreover obtain s2 where "read_chunks fd buf lens s1 =
      Some (take (sum_list (map unat lens)) (drop (unat (pos + of_nat n)) data), s2)" "calm N s2"
    using Cons.IH [OF s1(3,4)] by blast
  moreover have "take n (drop (unat pos) data) @ take k (drop (unat pos + n) data) = take (unat len + k) (drop (unat pos) data)" for k
  proof (cases "n = unat len")
    case True
    then show ?thesis by (simp add: take_add add.commute [of "unat pos"])
  next
    case False
    then have "length data - unat pos = n" "n < unat len" using n_def by auto
    then show ?thesis by simp
  qed
  ultimately show ?case using s1(1,2) by (auto simp: Let_def)
qed simp

subsection \<open>Opening\<close>

lemma next_fd_loop_free:
  "0 \<in> set es \<Longrightarrow> \<exists>n < length es. next_fd_loop es fd = fd + n \<and> es ! n = 0 \<and> (\<forall>i < n. es ! i \<noteq> 0)"
proof (induction es arbitrary: fd)
  case (Cons e es)
  show ?case
  proof (cases "e = 0")
    case False
    then obtain n where "n < length es" "next_fd_loop es (fd + 1) = fd + 1 + n" "es ! n = 0" "\<forall>i < n. es ! i \<noteq> 0"
      using Cons by fastforce
    then show ?thesis using False by (intro exI [of _ "Suc n"]) (auto simp: nth_Cons split: nat.splits)
  qed auto
qed simp

lemma vfs_ok_kmalloc:
  assumes ok: "vfs_ok s" and k: "kmalloc s = (a, s')"
  shows "vfs_ok s'"
proof -
  have "heap_ok s" using ok by (simp add: vfs_ok_def)
  then obtain as l where "heap_ok s'" "s' = s\<lparr>kmalloc_answers := as, kmalloc_live := l\<rparr>" "kmalloc_live s \<subseteq> l"
  proof (cases rule: kmalloc_cases [OF _ k])
    case (2 as)
    then show ?thesis using that [of "kmalloc_live s" as] by simp
  next
    case (3 as)
    then show ?thesis using that [of "insert a (kmalloc_live s)" as] by auto
  qed
  then show ?thesis
    using ok files_ok_cong [of s s'] mounts_ok_cong [of s s'] by (auto simp: vfs_ok_def owned_def files_ok_def mounts_ok_def)
qed

text \<open>\<open>do_open\<close> once the VFS has opened the file.\<close>

lemma do_open_vfs:
  assumes calm: "calm N s" and u: "strlen (user_memory s) u_path = Some n" "load_bytes (user_memory s) u_path (unat n) = path"
    and pp: "kmalloc s = (pp, s0)" "pp \<noteq> 0"
    and vfs: "vfs_open path s0 = Some (f, s1)" "f \<noteq> 0" "pp \<in> kmalloc_live s1" "kmalloc_answers s1 = e # as" "e \<noteq> 0"
    and frame: "s1 = s0\<lparr>OPENED_FILES_LOCK := l1, MOUNTS_LOCK := l2, kmalloc_answers := e # as, kmalloc_live := live,
      OPENED_FILES := fs, file_at := fa\<rparr>"
    and tbl: "length (file_table (procs s (curr_proc (self s)))) = MAX_FDS" "0 \<in> set (file_table (procs s (curr_proc (self s))))"
    and holds: "file_holds f data s1"
  shows "\<exists>fd s'. do_open (schedule 1) u_path s = Some (of_nat fd, s') \<and> fd < MAX_FDS \<and>
    file_table (procs s (curr_proc (self s))) ! fd = 0 \<and>
    (\<forall>i < fd. file_table (procs s (curr_proc (self s))) ! i \<noteq> 0) \<and> calm N s' \<and> fd_at (of_nat fd) data 0 s'"
proof -
  let ?curr = "curr_proc (self s)"
  have s0: "\<exists>as l. s0 = s\<lparr>kmalloc_answers := as, kmalloc_live := l\<rparr>"
    using pp by (auto simp: kmalloc_def split: list.splits)
  have calm0: "calm N s0" by (rule calm_cong [OF calm]) (use calm s0 in \<open>auto simp: calm_def sched_ok_def queues_ok_def\<close>)
  let ?s2 = "s1\<lparr>kmalloc_live := kmalloc_live s1 - {pp}\<rparr>"
  let ?s3 = "?s2\<lparr>kmalloc_answers := as, kmalloc_live := insert e (kmalloc_live s1 - {pp}),
    entry_at := (entry_at s1)(e \<mapsto> \<lparr>fte_file = f, file_pointer = 0\<rparr>)\<rparr>"
  have same: "user_memory s0 = user_memory s" "procs s1 = procs s" "percpu s1 = percpu s" "cpu_id s1 = cpu_id s"
      "percpu s0 = percpu s" "cpu_id s0 = cpu_id s" "RUNQUEUE s1 = RUNQUEUE s" "RUNQUEUE_LOCK s1 = RUNQUEUE_LOCK s"
      "SCHEDULER s1 = SCHEDULER s"
    using s0 frame by auto
  obtain fd where fd: "fd < MAX_FDS" "next_fd_loop (file_table (procs s ?curr)) 0 = fd"
      "file_table (procs s ?curr) ! fd = 0" "\<forall>i < fd. file_table (procs s ?curr) ! i \<noteq> 0"
    using next_fd_loop_free [OF tbl(2), of 0] tbl(1) by auto
  have run: "do_open (schedule 1) u_path s = Some (of_nat fd, set_fd ?curr fd e ?s3)"
    using u pp get_curr_proc_calm [OF calm0] vfs fd(1,2) same
    by (simp add: do_open_def kfree_def kmalloc_answer ASSERT_bind Let_def)
  have "calm N (set_fd ?curr fd e ?s3)"
    by (rule calm_cong [OF calm]) (use calm same in \<open>auto simp: set_fd_def calm_def sched_ok_def queues_ok_def\<close>)
  moreover have "unat (of_nat fd :: u32) = fd" using fd(1) by (intro unat_of_nat_bounded) (simp add: MAX_FDS_def)
  then have "fd_at (of_nat fd) data 0 (set_fd ?curr fd e ?s3)"
    unfolding fd_at_def using fd(1) tbl(1) vfs(5) same file_holds_cong [OF holds, of "set_fd ?curr fd e ?s3"]
    by (auto simp: get_entry_eq_Some set_fd_def)
  ultimately show ?thesis using run fd by blast
qed

subsection \<open>Properties\<close>

text \<open>
  C1: from the system calls down to the disk. A process opens a file of a mounted archive by its path
  and gets the lowest free descriptor. Reading from that descriptor in pieces of any sizes, through the file
  table, the VFS, the file system, the disk layer and the memory disk, delivers the bytes of the file in
  order: together they are as much of the start of the file as was asked for. No call fails.
\<close>

theorem open_read_file:
  assumes calm: "calm N s" and ok: "vfs_ok s"
    and u: "strlen (user_memory s) u_path = Some n" "load_bytes (user_memory s) u_path (unat n) = target @ entry_name h"
    and first: "\<forall>g it. file_at s g = Some it \<longrightarrow> abs_path it \<noteq> target @ entry_name h"
    and m: "best_mount_loop (mount_at s) (target @ entry_name h) (MOUNTS s) None 0 = Some (Some m)"
      "mount_at s m = Some \<lparr>mount_point = target, mount_disk = disk, mount_fs = ustar_fs alloc memdisk_ops stack\<rparr>"
    and km: "kmalloc_answers s = pp # c # f # e # as" "pp \<noteq> 0" "c \<noteq> 0" "f \<noteq> 0" "e \<noteq> 0"
    and d: "memdisk_valid (disks s disk)" "zeroing alloc"
    and es: "md_bytes (disks s disk) = archive_bytes (pre @ (h, data) # post)"
      "\<forall>e \<in> set (pre @ (h, data) # post). entry_ok e"
      "0 \<notin> set (entry_name h)" "\<forall>e \<in> set pre. entry_name (fst e) \<noteq> entry_name h" "is_file h"
    and tbl: "length (file_table (procs s (curr_proc (self s)))) = MAX_FDS" "0 \<in> set (file_table (procs s (curr_proc (self s))))"
  shows "\<exists>fd s1 s2. do_open (schedule 1) u_path s = Some (of_nat fd, s1) \<and> fd < MAX_FDS \<and>
    file_table (procs s (curr_proc (self s))) ! fd = 0 \<and> (\<forall>i < fd. file_table (procs s (curr_proc (self s))) ! i \<noteq> 0) \<and>
    read_chunks (of_nat fd) buf lens s1 = Some (take (sum_list (map unat lens)) (take (entry_size h) data), s2)"
proof -
  let ?s0 = "s\<lparr>kmalloc_answers := c # f # e # as, kmalloc_live := insert pp (kmalloc_live s)\<rparr>"
  have k: "kmalloc s = (pp, ?s0)" using kmalloc_answer [OF km(1,2)] .
  have ok0: "vfs_ok ?s0" using vfs_ok_kmalloc [OF ok k] .
  have sel: "file_at ?s0 = file_at s" "mount_at ?s0 = mount_at s" "MOUNTS ?s0 = MOUNTS s" "disks ?s0 = disks s"
    "kmalloc_answers ?s0 = c # f # e # as" by simp_all
  obtain fa where opened: "vfs_open (target @ entry_name h) ?s0 = Some (f,
      ?s0\<lparr>OPENED_FILES_LOCK := released (int_flag ?s0), MOUNTS_LOCK := released False, kmalloc_answers := e # as,
        kmalloc_live := insert f (insert c (kmalloc_live ?s0)), OPENED_FILES := f # OPENED_FILES ?s0, file_at := fa\<rparr>)"
    (is "_ = Some (f, ?s1)") and holds: "file_holds f (take (entry_size h) data) (?s0\<lparr>file_at := fa\<rparr>)"
    using vfs_open_archive [OF ok0 first [folded sel(1)] m [folded sel(2,3)] sel(5) km(3,4) d [folded sel(4)] es [folded sel(4)]]
    by blast
  have holds1: "file_holds f (take (entry_size h) data) ?s1" by (rule file_holds_cong [OF holds]) simp_all
  have in_live: "pp \<in> kmalloc_live ?s1" "kmalloc_answers ?s1 = e # as" by simp_all
  obtain fd s1 where fd: "do_open (schedule 1) u_path s = Some (of_nat fd, s1)" "fd < MAX_FDS"
      "file_table (procs s (curr_proc (self s))) ! fd = 0" "\<forall>i < fd. file_table (procs s (curr_proc (self s))) ! i \<noteq> 0"
      "calm N s1" "fd_at (of_nat fd) (take (entry_size h) data) 0 s1"
    using do_open_vfs [OF calm u k km(2) opened km(4) in_live km(5) refl tbl holds1] by blast
  have "length data \<le> length (md_bytes (disks s disk))" using es(1,2) by (simp add: entry_ok_def)
  also have "\<dots> < 2 ^ 32" using d(1) unat_u32_bound [of "md_size (disks s disk)"] by (simp add: memdisk_valid_def)
  finally have "length (take (entry_size h) data) < 2 ^ 64" by simp
  then obtain s2 where "read_chunks (of_nat fd) buf lens s1 = Some (take (sum_list (map unat lens)) (take (entry_size h) data), s2)"
    using read_chunks_data [OF fd(5,6), of buf lens] by auto
  then show ?thesis using fd by blast
qed

definition sys_example :: "(memdisk_data, ustar_file_private_data) sys_state" where
  "sys_example = \<lparr>cpu_id = 0, int_flag = True, error_list = [], error_descs = [],
     kmalloc_answers = [0x180, 0x200, 0x300, 0x400], kmalloc_live = {0x100},
     SCHEDULER = True,
     percpu = (\<lambda>_. \<lparr>sched_running = True, resched_flag = False, context_switches = 0, preempt_count = 0,
       idle_proc = 0x10, curr_proc = 0x20\<rparr>),
     procs = (\<lambda>_. \<lparr>state_flags = PROC_RUNNABLE, proc_cpu = 0, exit_code = 0, pid = 7, file_table = 0x50 # replicate 31 0\<rparr>),
     RUNQUEUE = [], RUNQUEUE_LOCK = INIT_SPINLOCK, disks = (\<lambda>_. archive_example),
     MOUNTS = [0x100], mount_at = [0x100 \<mapsto> \<lparr>mount_point = [0x2F], mount_disk = 0, mount_fs = example_fs\<rparr>],
     MOUNTS_LOCK = INIT_SPINLOCK, OPENED_FILES = [], file_at = Map.empty, OPENED_FILES_LOCK = INIT_SPINLOCK,
     user_memory = (\<lambda>_. 0)(0x5000 := 0x2F, 0x5001 := 97), entry_at = Map.empty\<rparr>"

lemma sys_example_calm: "calm 1 sys_example"
proof -
  have one: "c = 0" if "c < 1" for c :: u8 using that by (simp add: word_less_nat_alt unat_eq_zero)
  have "queues_ok 1 sys_example"
    by (simp add: queues_ok_def sys_example_def proc_is_runnable_def NO_PROC_def)
  moreover have "one_cpu_each 1 sys_example" using one by (auto simp: one_cpu_each_def)
  ultimately show ?thesis
    by (simp add: calm_def sched_ok_def needs_resched_def) (simp add: sys_example_def proc_is_runnable_def)
qed

lemma sys_example_ok: "vfs_ok sys_example"
  by (auto simp: vfs_ok_def sys_example_def mounts_ok_def files_ok_def heap_ok_def owned_def
      mount_target_is_valid_def split: if_splits)

lemma sys_example_path:
  "strlen (user_memory sys_example) 0x5000 = Some 2" "load_bytes (user_memory sys_example) 0x5000 2 = [0x2F, 97]"
proof -
  have "i = 0 \<or> i = 1" if "i < 2" for i :: u32
  proof -
    have "unat i < 2" using that by (simp add: word_less_nat_alt)
    then have "unat i = 0 \<or> unat i = 1" by linarith
    then show ?thesis by (simp add: word_unat_eq_iff)
  qed
  then have "cstring (user_memory sys_example) 0x5000 2" by (auto simp: cstring_def sys_example_def)
  then show "strlen (user_memory sys_example) 0x5000 = Some 2" by (rule strlen_cstring)
qed (simp add: load_bytes_def sys_example_def numeral_2_eq_2)

text \<open>The second descriptor is free; reading 2 bytes and then 5 gets all 3 bytes of the file.\<close>

theorem open_read_file_witness:
  "\<exists>s1 s2. do_open (schedule 1) 0x5000 sys_example = Some (1, s1) \<and>
     read_chunks 1 0x6000 [2, 5] s1 = Some ([1, 2, 3], s2)"
proof -
  have disk: "disks sys_example 0 = archive_example" by (simp add: sys_example_def)
  obtain fd s1 s2 where r: "do_open (schedule 1) 0x5000 sys_example = Some (of_nat fd, s1)" "fd < MAX_FDS"
      "file_table (procs sys_example (curr_proc (self sys_example))) ! fd = 0"
      "\<forall>i < fd. file_table (procs sys_example (curr_proc (self sys_example))) ! i \<noteq> 0"
      "read_chunks (of_nat fd) 0x6000 [2, 5] s1 =
        Some (take (sum_list (map unat [2, 5 :: u32])) (take (entry_size header_example) ([1, 2, 3] @ replicate 509 0)), s2)"
    using open_read_file [OF sys_example_calm sys_example_ok sys_example_path(1), of "[0x2F]" header_example "0x100" 0
        zero_alloc "replicate 512 0" "0x180" "0x200" "0x300" "0x400" "[]" "[]" "[1, 2, 3] @ replicate 509 0" "[]" "0x6000" "[2, 5]"]
      sys_example_path(2) header_example_entry header_example_fields archive_example_valid archive_example_bytes
    by (auto simp: disk) (auto simp: sys_example_def MAX_FDS_def is_under_mount_eq)
  have t: "file_table (procs sys_example (curr_proc (self sys_example))) = 0x50 # replicate 31 0"
    by (simp add: sys_example_def)
  have "fd = 1"
  proof (rule ccontr)
    assume "fd \<noteq> 1"
    then consider "fd = 0" | "1 < fd" by linarith
    then show False using r(3,4) t by cases auto
  qed
  moreover have "take (sum_list (map unat [2, 5 :: u32])) (take (entry_size header_example) ([1, 2, 3] @ replicate 509 0)) =
      [1, 2, 3 :: u8]" using header_example_entry(2) by simp
  ultimately show ?thesis using r(1,5) by (simp del: read_chunks.simps)
qed

end
