(* ===== verification/Paging.thy ===== *)
theory Paging
  imports Frame_Alloc
begin

text \<open>
  Virtual memory: \<open>paging.c\<close>, \<open>addr_space.c\<close> and what they use of the memory management unit. Physical
  memory is a function of a frame number and the index of a 32-bit word in the frame. Every access the code
  makes to a page directory or a page table goes through \<open>load\<close> and \<open>store\<close> at a virtual address, which the
  unit translates with the very tables the code edits: the recursive entry and the temporary mappings work
  because of what is in memory, not by definition. An access that faults has no result.

  Uninitialised bit-fields hold \<open>garbage\<close>. The TLB and its shootdown on the other cpus are left out, as are
  the access rights and the 4MiB pages. The address spaces are records at addresses. Functions that may
  create a temporary mapping take the function that does it as an argument, because creating one maps a page.
\<close>

subsection \<open>State\<close>

record addr_space =
  as_lock :: spinlock
  page_dir_phy_addr :: addr

record paging_state = frame_state +
  pmem :: "u32 \<Rightarrow> u32 \<Rightarrow> u32"
  paging_on :: bool
  cr3 :: addr
  kernel_as :: addr
  curr_addr_space :: "u8 \<Rightarrow> addr"
  addr_spaces :: "addr \<Rightarrow> addr_space"
  garbage :: u32

definition PTES_PER_PAGE :: nat where
  "PTES_PER_PAGE = 1024"

definition RECURSIVE_PDE_IDX :: u32 where
  "RECURSIVE_PDE_IDX = 1023"

definition TEMP_MAP_PDE_IDX :: u32 where
  "TEMP_MAP_PDE_IDX = 1022"

definition KERNEL_MIN_PDE_IDX :: u32 where
  "KERNEL_MIN_PDE_IDX = drop_bit 22 KERNEL_PHY_OFFSET"

definition KERNEL_MAX_PDE_IDX :: u32 where
  "KERNEL_MAX_PDE_IDX = RECURSIVE_PDE_IDX - 1"

definition VM_WRITE :: u32 where
  "VM_WRITE = push_bit 0 1"

definition VM_WRITE_THROUGH :: u32 where
  "VM_WRITE_THROUGH = push_bit 1 1"

definition VM_CACHE_DISABLE :: u32 where
  "VM_CACHE_DISABLE = push_bit 2 1"

definition VM_USER :: u32 where
  "VM_USER = push_bit 3 1"

definition VM_NON_GLOBAL :: u32 where
  "VM_NON_GLOBAL = push_bit 4 1"

definition NO_REGION :: addr where
  "NO_REGION = - 1"

text \<open>The entries of directories and tables share the present bit and the place of the address.\<close>

definition present :: "u32 \<Rightarrow> bool" where
  "present e \<longleftrightarrow> bit e 0"

definition entry_frame :: "u32 \<Rightarrow> u32" where
  "entry_frame e = drop_bit 12 e"

definition clear_present :: "u32 \<Rightarrow> u32" where
  "clear_present e = e AND NOT 1"

definition field :: "nat \<Rightarrow> bool \<Rightarrow> u32" where
  "field n b = (if b then push_bit n 1 else 0)"

text \<open>\<open>union pde_t\<close>: bits 6 to 11 are never set, and one caller does not set \<open>accessed\<close> (bit 5) either.\<close>

definition make_pde :: "u32 \<Rightarrow> bool \<Rightarrow> bool \<Rightarrow> bool \<Rightarrow> bool \<Rightarrow> u32 \<Rightarrow> u32" where
  "make_pde rest writable user_accessible write_through cache_disable page_table_addr =
     rest OR field 0 True OR field 1 writable OR field 2 user_accessible OR field 3 write_through OR
     field 4 cache_disable OR push_bit 12 page_table_addr"

text \<open>\<open>union pte_t\<close>; bits 9 to 11 are never set.\<close>

definition make_pte :: "u32 \<Rightarrow> u32 \<Rightarrow> addr \<Rightarrow> u32" where
  "make_pte rest flags paddr =
     (rest AND 0xE00) OR field 0 True OR field 1 (flags AND VM_WRITE \<noteq> 0) OR field 2 (flags AND VM_USER \<noteq> 0) OR
     field 3 (flags AND VM_WRITE_THROUGH \<noteq> 0) OR field 4 (flags AND VM_CACHE_DISABLE \<noteq> 0) OR
     field 8 (\<not> flags AND VM_NON_GLOBAL \<noteq> 0) OR push_bit 12 (drop_bit 12 paddr)"

definition compare_ptes :: "u32 \<Rightarrow> u32 \<Rightarrow> bool" where
  "compare_ptes a b \<longleftrightarrow> bit a 0 = bit b 0 \<and> bit a 1 = bit b 1 \<and> bit a 2 = bit b 2 \<and> bit a 3 = bit b 3 \<and>
     bit a 4 = bit b 4 \<and> bit a 7 = bit b 7 \<and> bit a 8 = bit b 8 \<and> entry_frame a = entry_frame b"

definition pde_index :: "addr \<Rightarrow> u32" where
  "pde_index vaddr = drop_bit 22 vaddr"

definition pte_index :: "addr \<Rightarrow> u32" where
  "pte_index vaddr = drop_bit 12 vaddr AND 0x3FF"

definition is_temp_mapping :: "addr \<Rightarrow> bool" where
  "is_temp_mapping vaddr \<longleftrightarrow> pde_index vaddr = TEMP_MAP_PDE_IDX"

definition page_offset :: "addr \<Rightarrow> u32" where
  "page_offset a = a AND 0xFFF"

subsection \<open>The memory management unit\<close>

text \<open>
  The frame a virtual address is in. Before paging is enabled the segments of the boot GDT map the higher
  half to physical memory.
\<close>

definition walk :: "'a paging_state_scheme \<Rightarrow> addr \<Rightarrow> u32 option" where
  "walk s vaddr =
     (if paging_on s then
        let pde = pmem s (drop_bit 12 (cr3 s)) (pde_index vaddr)
        in if \<not> present pde then None
           else let pte = pmem s (entry_frame pde) (pte_index vaddr)
                in if \<not> present pte then None else Some (entry_frame pte)
      else Some (drop_bit 12 (to_phys vaddr)))"

definition word_index :: "addr \<Rightarrow> u32" where
  "word_index vaddr = drop_bit 2 vaddr AND 0x3FF"

definition load :: "addr \<Rightarrow> 'a paging_state_scheme \<Rightarrow> u32 option" where
  "load vaddr s = do {
     f \<leftarrow> walk s vaddr;
     Some (pmem s f (word_index vaddr)) }"

definition store :: "addr \<Rightarrow> u32 \<Rightarrow> 'a paging_state_scheme \<Rightarrow> 'a paging_state_scheme option" where
  "store vaddr x s = do {
     f \<leftarrow> walk s vaddr;
     Some (s\<lparr>pmem := (pmem s)(f := (pmem s f)(word_index vaddr := x))\<rparr>) }"

text \<open>\<open>entry\<close> \<open>i\<close> of the directory or table at a virtual address.\<close>

definition entry_addr :: "addr \<Rightarrow> u32 \<Rightarrow> addr" where
  "entry_addr table i = table + 4 * i"

fun memzero_words :: "addr \<Rightarrow> nat list \<Rightarrow> 'a paging_state_scheme \<Rightarrow> 'a paging_state_scheme option" where
  "memzero_words page [] s = Some s"
| "memzero_words page (i # is) s = do {
     s \<leftarrow> store (entry_addr page (of_nat i)) 0 s;
     memzero_words page is s }"

definition memzero_page :: "addr \<Rightarrow> 'a paging_state_scheme \<Rightarrow> 'a paging_state_scheme option" where
  "memzero_page page s = memzero_words page [0..<PTES_PER_PAGE] s"

subsection \<open>Reaching a page directory and a page table\<close>

type_synonym 'a paging_op = "'a paging_state_scheme \<Rightarrow> (addr \<times> 'a paging_state_scheme) option"

definition get_curr_addr_space :: "'a paging_state_scheme \<Rightarrow> addr" where
  "get_curr_addr_space s = curr_addr_space s (cpu_id s)"

definition get_page_dir :: "(addr \<Rightarrow> 'a paging_op) \<Rightarrow> addr \<Rightarrow> 'a paging_op" where
  "get_page_dir create_temp_mapping as s =
     (if \<not> paging_on s then Some (to_virt (page_dir_phy_addr (addr_spaces s as)), s)
      else if get_curr_addr_space s = as then
        Some (push_bit 22 RECURSIVE_PDE_IDX OR push_bit 12 RECURSIVE_PDE_IDX, s)
      else create_temp_mapping (page_dir_phy_addr (addr_spaces s as)) s)"

definition get_page_table :: "(addr \<Rightarrow> 'a paging_op) \<Rightarrow> addr \<Rightarrow> u32 \<Rightarrow> 'a paging_op" where
  "get_page_table create_temp_mapping page_dir index s =
     (if \<not> paging_on s then do {
        pde \<leftarrow> load (entry_addr page_dir index) s;
        Some (to_virt (push_bit 12 (entry_frame pde)), s) }
      else if page_dir = 0xFFFFF000 then Some (push_bit 22 RECURSIVE_PDE_IDX OR push_bit 12 index, s)
      else do {
        pde \<leftarrow> load (entry_addr page_dir index) s;
        create_temp_mapping (push_bit 12 (entry_frame pde)) s })"

subsection \<open>Mapping one page\<close>

text \<open>The page table of an address: found in the directory, or allocated and entered in it.\<close>

definition map_page_with ::
  "(addr \<Rightarrow> 'a paging_op) \<Rightarrow> addr \<Rightarrow> addr \<Rightarrow> addr \<Rightarrow> u32 \<Rightarrow> 'a paging_state_scheme \<Rightarrow>
   (bool \<times> 'a paging_state_scheme) option" where
  "map_page_with create_temp_mapping as paddr vaddr flags s = do {
     ASSERT (is_4kib_aligned paddr);
     ASSERT (is_4kib_aligned vaddr);
     ASSERT (as = kernel_as s \<or> is_user_addr vaddr \<or> is_temp_mapping vaddr);
     (page_dir, s) \<leftarrow> get_page_dir create_temp_mapping as s;
     if paging_on s \<and> \<not> is_higher_half page_dir then PANIC
     else do {
       let pde_idx = pde_index vaddr;
       old_pde \<leftarrow> load (entry_addr page_dir pde_idx) s;
       (new_table, s) \<leftarrow> (if present old_pde then Some (0, s) else alloc_frame s);
       if \<not> present old_pde \<and> new_table = NO_FRAME then do {
         s \<leftarrow> set_error ENONE s;
         Some (False, s) }
       else do {
         s \<leftarrow> (if present old_pde then Some s
               else store (entry_addr page_dir pde_idx)
                      (make_pde (garbage s AND 0xFC0) True (flags AND VM_USER \<noteq> 0) False False
                        (drop_bit 12 new_table)) s);
         (page_table, s) \<leftarrow> get_page_table create_temp_mapping page_dir pde_idx s;
         s \<leftarrow> (if present old_pde then Some s else memzero_page page_table s);
         let pte = make_pte (garbage s) flags paddr;
         let pte_idx = pte_index vaddr;
         old_pte \<leftarrow> load (entry_addr page_table pte_idx) s;
         if present old_pte \<and> \<not> compare_ptes pte old_pte then PANIC
         else do {
           s \<leftarrow> store (entry_addr page_table pte_idx) pte s;
           Some (True, s) } } } }"

text \<open>
  The temporary mapping is in the current address space, where \<open>map_page_in\<close> needs no other temporary
  mapping: the argument is never used there.
\<close>

definition create_temp_mapping :: "addr \<Rightarrow> 'a paging_op" where
  "create_temp_mapping phy_addr s = do {
     let cpu = (ucast (cpu_id s) :: u32);
     let entry = entry_addr (push_bit 22 RECURSIVE_PDE_IDX OR push_bit 12 TEMP_MAP_PDE_IDX) cpu;
     ASSERT (entry AND 3 = 0);
     old \<leftarrow> load entry s;
     s \<leftarrow> store entry (clear_present old) s;
     let vaddr = push_bit 22 TEMP_MAP_PDE_IDX OR push_bit 12 cpu;
     let flags = VM_WRITE OR VM_WRITE_THROUGH OR VM_NON_GLOBAL OR VM_CACHE_DISABLE;
     (res, s) \<leftarrow> map_page_with (\<lambda>_ _. None) (get_curr_addr_space s) phy_addr vaddr flags s;
     ASSERT res;
     Some (vaddr, s) }"

definition map_page_in ::
  "addr \<Rightarrow> addr \<Rightarrow> addr \<Rightarrow> u32 \<Rightarrow> 'a paging_state_scheme \<Rightarrow> (bool \<times> 'a paging_state_scheme) option" where
  "map_page_in = map_page_with create_temp_mapping"

subsection \<open>Unmapping one page\<close>

fun page_table_is_empty_from :: "addr \<Rightarrow> nat list \<Rightarrow> 'a paging_state_scheme \<Rightarrow> bool option" where
  "page_table_is_empty_from table [] s = Some True"
| "page_table_is_empty_from table (i # is) s = do {
     e \<leftarrow> load (entry_addr table (of_nat i)) s;
     if present e then Some False else page_table_is_empty_from table is s }"

definition page_table_is_empty :: "addr \<Rightarrow> 'a paging_state_scheme \<Rightarrow> bool option" where
  "page_table_is_empty table s = page_table_is_empty_from table [0..<PTES_PER_PAGE] s"

definition unmap_page_in :: "addr \<Rightarrow> addr \<Rightarrow> bool \<Rightarrow> 'a paging_state_scheme \<Rightarrow> 'a paging_state_scheme option" where
  "unmap_page_in as vaddr free_phy_frame s = do {
     ASSERT (is_4kib_aligned vaddr);
     ASSERT (as = kernel_as s \<or> is_user_addr vaddr);
     (page_dir, s) \<leftarrow> get_page_dir create_temp_mapping as s;
     let pde_idx = pde_index vaddr;
     pde \<leftarrow> load (entry_addr page_dir pde_idx) s;
     if \<not> present pde then PANIC
     else do {
       (page_table, s) \<leftarrow> get_page_table create_temp_mapping page_dir pde_idx s;
       let pte_idx = pte_index vaddr;
       pte \<leftarrow> load (entry_addr page_table pte_idx) s;
       if \<not> present pte then PANIC
       else do {
         s \<leftarrow> (if free_phy_frame then free_frame (push_bit 12 (entry_frame pte)) s else Some s);
         s \<leftarrow> store (entry_addr page_table pte_idx) 0 s;
         empty \<leftarrow> page_table_is_empty page_table s;
         if empty then do {
           (page_dir, s) \<leftarrow> get_page_dir create_temp_mapping as s;
           pde \<leftarrow> load (entry_addr page_dir pde_idx) s;
           s \<leftarrow> store (entry_addr page_dir pde_idx) (clear_present pde) s;
           pde \<leftarrow> load (entry_addr page_dir pde_idx) s;
           free_frame (push_bit 12 (entry_frame pde)) s }
         else Some s } } }"

subsection \<open>Ranges\<close>

definition lock_addr_space :: "addr \<Rightarrow> 'a paging_state_scheme \<Rightarrow> 'a paging_state_scheme option" where
  "lock_addr_space as s = do {
     (l, s) \<leftarrow> spinlock_lock (as_lock (addr_spaces s as)) s;
     Some (s\<lparr>addr_spaces := (addr_spaces s)(as := (addr_spaces s as)\<lparr>as_lock := l\<rparr>)\<rparr>) }"

definition unlock_addr_space :: "addr \<Rightarrow> 'a paging_state_scheme \<Rightarrow> 'a paging_state_scheme option" where
  "unlock_addr_space as s = do {
     (l, s) \<leftarrow> spinlock_unlock (as_lock (addr_spaces s as)) s;
     Some (s\<lparr>addr_spaces := (addr_spaces s)(as := (addr_spaces s as)\<lparr>as_lock := l\<rparr>)\<rparr>) }"

text \<open>The address of the \<open>i\<close>-th page of a range.\<close>

definition chunk :: "addr \<Rightarrow> nat \<Rightarrow> addr" where
  "chunk start i = start + of_nat i * PAGE_SIZE"

fun unmap_pages :: "addr \<Rightarrow> addr \<Rightarrow> bool \<Rightarrow> nat list \<Rightarrow> 'a paging_state_scheme \<Rightarrow> 'a paging_state_scheme option" where
  "unmap_pages as start_virt free_phy_frame [] s = Some s"
| "unmap_pages as start_virt free_phy_frame (i # is) s = do {
     s \<leftarrow> unmap_page_in as (chunk start_virt i) free_phy_frame s;
     unmap_pages as start_virt free_phy_frame is s }"

fun map_pages ::
  "addr \<Rightarrow> addr \<Rightarrow> addr \<Rightarrow> u32 \<Rightarrow> nat list \<Rightarrow> 'a paging_state_scheme \<Rightarrow> (bool \<times> 'a paging_state_scheme) option" where
  "map_pages as start_phy start_virt flags [] s = Some (True, s)"
| "map_pages as start_phy start_virt flags (i # is) s = do {
     (res, s) \<leftarrow> map_page_in as (chunk start_phy i) (chunk start_virt i) flags s;
     if \<not> res then do {
       s \<leftarrow> set_error ENONE s;
       s \<leftarrow> unmap_pages as start_virt False [0..<i] s;
       Some (False, s) }
     else map_pages as start_phy start_virt flags is s }"

definition do_paging_map_in ::
  "addr \<Rightarrow> addr \<Rightarrow> addr \<Rightarrow> u32 \<Rightarrow> u32 \<Rightarrow> 'a paging_state_scheme \<Rightarrow> (bool \<times> 'a paging_state_scheme) option" where
  "do_paging_map_in as paddr vaddr len flags s = do {
     ASSERT (page_offset paddr = page_offset vaddr);
     let start_phy = get_page_addr paddr;
     let start_virt = get_page_addr vaddr;
     let fixed_len = len + (paddr - start_phy);
     num_frames \<leftarrow> ceil_x_over_y_u32 fixed_len PAGE_SIZE;
     map_pages as start_phy start_virt flags [0..<unat num_frames] s }"

definition paging_map_in ::
  "addr \<Rightarrow> addr \<Rightarrow> addr \<Rightarrow> u32 \<Rightarrow> u32 \<Rightarrow> 'a paging_state_scheme \<Rightarrow> (bool \<times> 'a paging_state_scheme) option" where
  "paging_map_in as paddr vaddr len flags s = do {
     s \<leftarrow> lock_addr_space as s;
     (res, s) \<leftarrow> do_paging_map_in as paddr vaddr len flags s;
     s \<leftarrow> unlock_addr_space as s;
     Some (res, s) }"

definition do_paging_unmap_in ::
  "addr \<Rightarrow> addr \<Rightarrow> u32 \<Rightarrow> bool \<Rightarrow> 'a paging_state_scheme \<Rightarrow> 'a paging_state_scheme option" where
  "do_paging_unmap_in as vaddr len free_phy_frame s = do {
     let start_virt = get_page_addr vaddr;
     let fixed_len = len + (vaddr - start_virt);
     num_frames \<leftarrow> ceil_x_over_y_u32 fixed_len PAGE_SIZE;
     unmap_pages as start_virt free_phy_frame [0..<unat num_frames] s }"

definition paging_unmap_in :: "addr \<Rightarrow> addr \<Rightarrow> u32 \<Rightarrow> 'a paging_state_scheme \<Rightarrow> 'a paging_state_scheme option" where
  "paging_unmap_in as vaddr len s = do {
     s \<leftarrow> lock_addr_space as s;
     s \<leftarrow> do_paging_unmap_in as vaddr len False s;
     unlock_addr_space as s }"

definition paging_unmap_and_free_frames_in ::
  "addr \<Rightarrow> addr \<Rightarrow> u32 \<Rightarrow> 'a paging_state_scheme \<Rightarrow> 'a paging_state_scheme option" where
  "paging_unmap_and_free_frames_in as vaddr len s = do {
     s \<leftarrow> lock_addr_space as s;
     s \<leftarrow> do_paging_unmap_in as vaddr len True s;
     unlock_addr_space as s }"

subsection \<open>Looking for room\<close>

definition page_is_mapped :: "addr \<Rightarrow> addr \<Rightarrow> 'a paging_state_scheme \<Rightarrow> (bool \<times> 'a paging_state_scheme) option" where
  "page_is_mapped as vaddr s = do {
     ASSERT (is_4kib_aligned vaddr);
     (page_dir, s) \<leftarrow> get_page_dir create_temp_mapping as s;
     let pde_idx = pde_index vaddr;
     let pte_idx = pte_index vaddr;
     pde \<leftarrow> load (entry_addr page_dir pde_idx) s;
     if \<not> present pde then Some (False, s)
     else do {
       (table, s) \<leftarrow> get_page_table create_temp_mapping page_dir pde_idx s;
       pte \<leftarrow> load (entry_addr table pte_idx) s;
       Some (present pte, s) } }"

definition max_ptr :: addr where
  "max_ptr = push_bit 22 TEMP_MAP_PDE_IDX"

lemma max_ptr_value: "max_ptr = 0xFF800000"
  by (simp add: max_ptr_def TEMP_MAP_PDE_IDX_def)

function find_next_non_mapped_page :: "addr \<Rightarrow> addr \<Rightarrow> 'a paging_op" where
  "find_next_non_mapped_page as ptr s =
     (if ptr < max_ptr then do {
        (mapped, s) \<leftarrow> page_is_mapped as ptr s;
        if \<not> mapped then Some (ptr, s)
        else find_next_non_mapped_page as (ptr + PAGE_SIZE) s }
      else Some (NO_REGION, s))"
  by pat_completeness auto

termination
proof (relation "measure (\<lambda>(as, ptr, s). unat max_ptr - unat ptr)")
  fix ptr :: addr
  assume "ptr < max_ptr"
  then have "unat ptr < 0xFF800000" by (simp add: max_ptr_value word_bounds)
  moreover from this have "unat (ptr + PAGE_SIZE) = unat ptr + 4096"
    by (subst unat_add_no_overflow) (simp_all add: PAGE_SIZE_def)
  ultimately show "((as, ptr + PAGE_SIZE, s'), as, ptr, s) \<in> measure (\<lambda>(as, ptr, s). unat max_ptr - unat ptr)"
    for as :: addr and s s' :: "'a paging_state_scheme"
    by (simp add: max_ptr_value)
qed simp

declare find_next_non_mapped_page.simps [simp del]

text \<open>
  The inner loop of \<open>compute_hole_size\<close> counts pages up to the first mapped one of a table; its result says
  whether it found one. The outer loop keeps reading the directory at the address it got at the start.
\<close>

fun hole_in_table :: "addr \<Rightarrow> nat list \<Rightarrow> u32 \<Rightarrow> 'a paging_state_scheme \<Rightarrow> (bool \<times> u32) option" where
  "hole_in_table page_table [] count s = Some (False, count)"
| "hole_in_table page_table (j # js) count s = do {
     pte \<leftarrow> load (entry_addr page_table (of_nat j)) s;
     if \<not> present pte then hole_in_table page_table js (count + 1) s else Some (True, count) }"

fun hole_in_dir ::
  "addr \<Rightarrow> addr \<Rightarrow> nat list \<Rightarrow> u32 \<Rightarrow> 'a paging_state_scheme \<Rightarrow> (u32 \<times> 'a paging_state_scheme) option" where
  "hole_in_dir page_dir vaddr [] count s = Some (count, s)"
| "hole_in_dir page_dir vaddr (i # is) count s = do {
     pde \<leftarrow> load (entry_addr page_dir (of_nat i)) s;
     if \<not> present pde then
       hole_in_dir page_dir vaddr is
         (if of_nat i = pde_index vaddr then count + (of_nat PTES_PER_PAGE - pte_index vaddr)
          else count + of_nat PTES_PER_PAGE) s
     else do {
       (page_table, s) \<leftarrow> get_page_table create_temp_mapping page_dir (of_nat i) s;
       let start_pte_idx = (if of_nat i = pde_index vaddr then pte_index vaddr else 0);
       (stop, count) \<leftarrow> hole_in_table page_table [unat start_pte_idx..<PTES_PER_PAGE] count s;
       if stop then Some (count, s) else hole_in_dir page_dir vaddr is count s } }"

definition compute_hole_size :: "addr \<Rightarrow> addr \<Rightarrow> 'a paging_state_scheme \<Rightarrow> (u32 \<times> 'a paging_state_scheme) option" where
  "compute_hole_size as vaddr s = do {
     (page_dir, s) \<leftarrow> get_page_dir create_temp_mapping as s;
     hole_in_dir page_dir vaddr [unat (pde_index vaddr)..<1024 - 2] 0 s }"

text \<open>The search for a hole; that it ends is proved below.\<close>

partial_function (option) find_hole_from :: "addr \<Rightarrow> u32 \<Rightarrow> addr \<Rightarrow> 'a paging_state_scheme \<Rightarrow>
   (addr \<times> 'a paging_state_scheme) option" where
  "find_hole_from as npages ptr s =
     (if ptr \<noteq> NO_REGION then do {
        (hole, s) \<leftarrow> compute_hole_size as ptr s;
        if npages \<le> hole then Some (ptr, s)
        else do {
          (ptr, s) \<leftarrow> find_next_non_mapped_page as (ptr + PAGE_SIZE) s;
          find_hole_from as npages ptr s } }
      else do {
        s \<leftarrow> set_error ENOMEM s;
        Some (NO_REGION, s) })"

definition do_paging_find_contiguous_non_mapped_pages_in :: "addr \<Rightarrow> addr \<Rightarrow> u32 \<Rightarrow> 'a paging_op" where
  "do_paging_find_contiguous_non_mapped_pages_in as start_addr npages s = do {
     (ptr, s) \<leftarrow> find_next_non_mapped_page as start_addr s;
     find_hole_from as npages ptr s }"

definition paging_find_contiguous_non_mapped_pages_in :: "addr \<Rightarrow> addr \<Rightarrow> u32 \<Rightarrow> 'a paging_op" where
  "paging_find_contiguous_non_mapped_pages_in as start_addr npages s = do {
     s \<leftarrow> lock_addr_space as s;
     (res, s) \<leftarrow> do_paging_find_contiguous_non_mapped_pages_in as start_addr npages s;
     s \<leftarrow> unlock_addr_space as s;
     Some (res, s) }"

text \<open>The loop over the frames, each with its place in the array.\<close>

fun map_frames ::
  "addr \<Rightarrow> addr \<Rightarrow> (nat \<times> addr) list \<Rightarrow> u32 \<Rightarrow> 'a paging_state_scheme \<Rightarrow> (bool \<times> 'a paging_state_scheme) option" where
  "map_frames as start [] flags s = Some (True, s)"
| "map_frames as start ((i, frame) # fs) flags s = do {
     (res, s) \<leftarrow> do_paging_map_in as frame (chunk start i) PAGE_SIZE flags s;
     if \<not> res then do {
       s \<leftarrow> set_error ENONE s;
       Some (False, s) }
     else map_frames as start fs flags s }"

definition paging_map_frames_above_in :: "addr \<Rightarrow> addr \<Rightarrow> addr list \<Rightarrow> u32 \<Rightarrow> 'a paging_op" where
  "paging_map_frames_above_in as start_addr frames flags s = do {
     s \<leftarrow> lock_addr_space as s;
     (start, s) \<leftarrow> do_paging_find_contiguous_non_mapped_pages_in as start_addr (of_nat (length frames)) s;
     if start = NO_REGION then do {
       s \<leftarrow> unlock_addr_space as s;
       Some (NO_REGION, s) }
     else do {
       (ok, s) \<leftarrow> map_frames as start (enumerate 0 frames) flags s;
       if \<not> ok then Some (NO_REGION, s)
       else do {
         s \<leftarrow> unlock_addr_space as s;
         Some (start, s) } } }"

subsection \<open>Addresses\<close>

definition mkva :: "u32 \<Rightarrow> u32 \<Rightarrow> u32 \<Rightarrow> addr" where
  "mkva a b c = push_bit 22 a + push_bit 12 b + 4 * c"

lemma unat_push_bit_u32:
  fixes a :: u32
  assumes "unat a * 2 ^ n < 2 ^ 32"
  shows "unat (push_bit n a) = unat a * 2 ^ n"
  using assms by (simp add: unsigned_push_bit_eq push_bit_nat_def take_bit_nat_eq_self)

lemma unat_mkva:
  assumes "a < 1024" and "b < 1024" and "c < 1024"
  shows "unat (mkva a b c) = unat a * 2 ^ 22 + unat b * 2 ^ 12 + 4 * unat c"
proof -
  have l: "unat a < 1024" "unat b < 1024" "unat c < 1024"
    using assms by (simp_all add: word_bounds)
  have u: "unat (push_bit 22 a) = unat a * 2 ^ 22" "unat (push_bit 12 b) = unat b * 2 ^ 12"
    "unat (4 * c) = 4 * unat c"
    using l by (simp_all add: unat_push_bit_u32 unat_mult_no_overflow)
  then have "unat (push_bit 22 a + push_bit 12 b) = unat a * 2 ^ 22 + unat b * 2 ^ 12"
    using l by (subst unat_add_no_overflow) simp_all
  then show ?thesis
    unfolding mkva_def using l u by (subst unat_add_no_overflow) simp_all
qed

lemma unat_and_3FF: "unat ((x :: u32) AND 0x3FF) = unat x mod 1024"
proof -
  have "(0x3FF :: u32) = mask 10" by (simp add: mask_eq_exp_minus_1)
  then show ?thesis
    by (simp only: take_bit_eq_mask [symmetric]) (simp add: take_bit_eq_mod unat_mod_distrib)
qed

lemma unat_pde_index: "unat (pde_index v) = unat v div 2 ^ 22"
  by (simp add: pde_index_def drop_bit_eq_div unat_div_distrib)

lemma unat_pte_index: "unat (pte_index v) = unat v div 2 ^ 12 mod 1024"
  by (simp add: pte_index_def unat_and_3FF drop_bit_eq_div unat_div_distrib)

lemma unat_dword_index: "unat (word_index v) = unat v div 4 mod 1024"
  by (simp add: word_index_def unat_and_3FF drop_bit_eq_div unat_div_distrib)

lemma index_bounds [simp]: "pde_index v < 1024" "pte_index v < 1024"
  using unat_u32_bound [of v] by (simp_all add: word_bounds unat_pde_index unat_pte_index)

lemma mkva_index [simp]:
  assumes "a < 1024" and "b < 1024" and "c < 1024"
  shows "pde_index (mkva a b c) = a" "pte_index (mkva a b c) = b" "word_index (mkva a b c) = c"
proof -
  have l: "unat b < 1024" "unat c < 1024"
    using assms by (simp_all add: word_bounds)
  have "(unat a * 2 ^ 22 + unat b * 2 ^ 12 + 4 * unat c) div 2 ^ 22 = unat a" using l by simp
  then show "pde_index (mkva a b c) = a"
    by (simp add: word_unat_eq_iff unat_pde_index unat_mkva [OF assms])
  have "(unat a * 2 ^ 22 + unat b * 2 ^ 12 + 4 * unat c) div 2 ^ 12 = unat a * 1024 + unat b"
    using l by simp
  then show "pte_index (mkva a b c) = b"
    using l by (simp add: word_unat_eq_iff unat_pte_index unat_mkva [OF assms])
  have "(unat a * 2 ^ 22 + unat b * 2 ^ 12 + 4 * unat c) div 4 = (unat a * 1024 + unat b) * 1024 + unat c"
    by simp
  then have "(unat a * 2 ^ 22 + unat b * 2 ^ 12 + 4 * unat c) div 4 mod 1024 = unat c"
    using l by (simp only: mod_mult_self3 mod_less)
  then show "word_index (mkva a b c) = c"
    by (simp add: word_unat_eq_iff unat_dword_index unat_mkva [OF assms])
qed

lemma push_bits_disjoint:
  fixes b :: u32
  assumes "b < 1024"
  shows "push_bit 22 a OR push_bit 12 b = push_bit 22 a + push_bit 12 b"
proof -
  have b: "take_bit 10 b = b"
    using assms by (simp add: word_unat_eq_iff word_bounds unsigned_take_bit_eq take_bit_nat_eq_self)
  have "\<not> bit b n" if "10 \<le> n" for n
    using b that by (metis bit_take_bit_iff not_le)
  then have "push_bit 22 a AND push_bit 12 b = 0"
    by (intro bit_eqI) (auto simp: bit_simps)
  then show ?thesis
    using word_plus_and_or [of "push_bit 22 a" "push_bit 12 b"] by simp
qed

lemma table_address:
  assumes "b < 1024"
  shows "entry_addr (push_bit 22 a OR push_bit 12 b) c = mkva a b c"
  by (simp add: push_bits_disjoint [OF assms] entry_addr_def mkva_def)

end
