(* ===== verification/Paging_Pages.thy ===== *)
theory Paging_Pages
  imports Paging
begin

text \<open>
  What mapping and unmapping one page do to the address spaces. The abstraction of a page directory is the
  partial function \<open>page_entry\<close> from addresses to table entries that the memory management unit computes. The
  invariant \<open>mm_ok\<close> is about a set of directories: no two of them share a page table, except at the same index
  of the kernel half, the tables and directories are allocated frames, and with paging on every directory has
  its recursive entry and the common table of the temporary mappings.
\<close>

subsection \<open>Views and invariant\<close>

definition upd :: "u32 \<Rightarrow> u32 \<Rightarrow> u32 \<Rightarrow> 'a paging_state_scheme \<Rightarrow> 'a paging_state_scheme" where
  "upd f i x s = s\<lparr>pmem := (pmem s)(f := (pmem s f)(i := x))\<rparr>"

definition set_frame :: "u32 \<Rightarrow> (u32 \<Rightarrow> u32) \<Rightarrow> 'a paging_state_scheme \<Rightarrow> 'a paging_state_scheme" where
  "set_frame f g s = s\<lparr>pmem := (pmem s)(f := g)\<rparr>"

definition entry_at :: "'a paging_state_scheme \<Rightarrow> u32 \<Rightarrow> u32 \<Rightarrow> u32 option" where
  "entry_at s f i = (if present (pmem s f i) then Some (pmem s f i) else None)"

definition table :: "'a paging_state_scheme \<Rightarrow> u32 \<Rightarrow> u32 \<Rightarrow> u32 option" where
  "table s D i = map_option entry_frame (entry_at s D i)"

definition page_entry :: "'a paging_state_scheme \<Rightarrow> u32 \<Rightarrow> addr \<Rightarrow> u32 option" where
  "page_entry s D v = Option.bind (table s D (pde_index v)) (\<lambda>T. entry_at s T (pte_index v))"

definition top_dir :: "'a paging_state_scheme \<Rightarrow> u32" where
  "top_dir s = drop_bit 12 (cr3 s)"

definition tables_ok :: "u32 set \<Rightarrow> 'a paging_state_scheme \<Rightarrow> bool" where
  "tables_ok DS s \<longleftrightarrow> unat ` DS \<subseteq> frames_in_use s \<and>
     (\<forall>D \<in> DS. \<forall>i < 1023. \<forall>T. table s D i = Some T \<longrightarrow> T \<notin> DS \<and> unat T \<in> frames_in_use s \<and>
        (\<forall>D' \<in> DS. \<forall>j < 1023. table s D' j = Some T \<longrightarrow> i = j \<and> (D = D' \<or> 768 \<le> i)))"

definition paged_ok :: "u32 set \<Rightarrow> 'a paging_state_scheme \<Rightarrow> bool" where
  "paged_ok DS s \<longleftrightarrow> top_dir s \<in> DS \<and> (\<forall>D \<in> DS. table s D 1023 = Some D) \<and>
     table s (top_dir s) 1022 \<noteq> None \<and> (\<forall>D \<in> DS. table s D 1022 = table s (top_dir s) 1022) \<and>
     page_dir_phy_addr (addr_spaces s (get_curr_addr_space s)) = cr3 s"

definition mm_ok :: "u32 set \<Rightarrow> 'a paging_state_scheme \<Rightarrow> bool" where
  "mm_ok DS s \<longleftrightarrow> wf_frames s \<and> tables_ok DS s \<and> (paging_on s \<longrightarrow> paged_ok DS s)"

definition dir_of :: "'a paging_state_scheme \<Rightarrow> addr \<Rightarrow> u32" where
  "dir_of s as = drop_bit 12 (page_dir_phy_addr (addr_spaces s as))"

definition as_ok :: "u32 set \<Rightarrow> 'a paging_state_scheme \<Rightarrow> addr \<Rightarrow> bool" where
  "as_ok DS s as \<longleftrightarrow> is_4kib_aligned (page_dir_phy_addr (addr_spaces s as)) \<and> dir_of s as \<in> DS \<and>
     (paging_on s \<and> as \<noteq> get_curr_addr_space s \<longrightarrow> dir_of s as \<noteq> top_dir s)"

subsection \<open>Entries\<close>

lemma drop_push_12 [simp]: "drop_bit 12 (push_bit 12 (drop_bit 12 (p :: u32))) = drop_bit 12 p"
  by (rule bit_eqI) (auto simp: bit_simps dest: bit_imp_le_length)

lemma frame_of_aligned: "is_4kib_aligned p \<Longrightarrow> push_bit 12 (drop_bit 12 p) = p"
  by (rule bit_eqI) (auto simp: bit_simps is_4kib_aligned_take_bit bit_eq_iff [of "take_bit 12 p"])

lemma make_pte_entry [simp]:
  "present (make_pte g flags p)" "entry_frame (make_pte g flags p) = drop_bit 12 p"
  by (simp_all add: make_pte_def present_def entry_frame_def field_def bit_simps drop_bit_or drop_bit_and)

lemma make_pde_entry:
  assumes "rest AND 0xFFF = rest"
  shows "present (make_pde rest w u t c (drop_bit 12 p))"
    "entry_frame (make_pde rest w u t c (drop_bit 12 p)) = drop_bit 12 p"
proof -
  have "drop_bit 12 rest = 0"
    using arg_cong [OF assms, of "drop_bit 12"] by (simp add: drop_bit_and)
  then show "present (make_pde rest w u t c (drop_bit 12 p))"
    "entry_frame (make_pde rest w u t c (drop_bit 12 p)) = drop_bit 12 p"
    by (simp_all add: make_pde_def present_def entry_frame_def field_def bit_simps drop_bit_or)
qed

lemma clear_present_entry [simp]:
  "\<not> present (clear_present e)" "entry_frame (clear_present e) = entry_frame e"
proof -
  show "\<not> present (clear_present e)" by (simp add: clear_present_def present_def bit_simps)
  have "bit (NOT 1 :: u32) (12 + n)" if "12 + n < LENGTH(32)" for n
    unfolding bit_not_iff using that by (simp add: bit_1_iff)
  then show "entry_frame (clear_present e) = entry_frame e"
    unfolding clear_present_def entry_frame_def
    by (intro bit_eqI, simp only: bit_drop_bit_eq bit_and_iff comp_def) (meson bit_imp_le_length)
qed

lemma not_present_0 [simp]: "\<not> present 0"
  by (simp add: present_def)

lemma entry_at_Some: "entry_at s f i = Some e \<longleftrightarrow> present (pmem s f i) \<and> e = pmem s f i"
  by (auto simp: entry_at_def)

lemma entry_at_None: "entry_at s f i = None \<longleftrightarrow> \<not> present (pmem s f i)"
  by (simp add: entry_at_def)

lemma table_Some: "table s D i = Some T \<longleftrightarrow> present (pmem s D i) \<and> T = entry_frame (pmem s D i)"
  by (auto simp: table_def entry_at_def)

lemma table_None: "table s D i = None \<longleftrightarrow> \<not> present (pmem s D i)"
  by (simp add: table_def entry_at_def)

subsection \<open>Windows\<close>

text \<open>
  A page of the current address space that shows a frame, whatever the frame's contents are: the code reads
  and writes the frame there.
\<close>

definition window :: "'a paging_state_scheme \<Rightarrow> addr \<Rightarrow> u32 \<Rightarrow> bool" where
  "window s page f \<longleftrightarrow> (\<forall>g. \<forall>i < 1024. walk (set_frame f g s) (entry_addr page i) = Some f \<and>
     word_index (entry_addr page i) = i)"

lemma set_frame_simps [simp]:
  "set_frame f (pmem s f) s = s" "set_frame f g (set_frame f h s) = set_frame f g s"
  "upd f i x (set_frame f g s) = set_frame f (g(i := x)) s"
  "set_frame f g (upd f i x s) = set_frame f g s"
  "pmem (set_frame f g s) = (pmem s)(f := g)"
  by (simp_all add: set_frame_def upd_def)

lemma upd_frame: "upd f i x s = set_frame f ((pmem s f)(i := x)) s"
  by (simp add: upd_def set_frame_def)

lemma upd_upd [simp]: "upd f i y (upd f i x s) = upd f i y s"
  by (simp add: upd_def)

lemma window_walk:
  assumes "window s page f" and "i < 1024"
  shows "walk s (entry_addr page i) = Some f" "word_index (entry_addr page i) = i"
proof -
  have "walk (set_frame f (pmem s f) s) (entry_addr page i) = Some f \<and> word_index (entry_addr page i) = i"
    using assms unfolding window_def by blast
  then show "walk s (entry_addr page i) = Some f" "word_index (entry_addr page i) = i" by simp_all
qed

lemma window_load: "window s page f \<Longrightarrow> i < 1024 \<Longrightarrow> load (entry_addr page i) s = Some (pmem s f i)"
  by (simp add: load_def window_walk)

lemma window_store: "window s page f \<Longrightarrow> i < 1024 \<Longrightarrow> store (entry_addr page i) x s = Some (upd f i x s)"
  by (simp add: store_def window_walk upd_def)

lemma window_set_frame [simp]: "window (set_frame f g s) page f = window s page f"
  by (simp add: window_def)

lemma window_upd [simp]: "window (upd f i x s) page f = window s page f"
  by (simp add: upd_frame)

lemma memzero_words_window:
  assumes "window s page f" and "\<forall>i \<in> set is. i < 1024"
  shows "memzero_words page is s = Some (set_frame f (\<lambda>k. if k \<in> of_nat ` set is then 0 else pmem s f k) s)"
  using assms
proof (induction "is" arbitrary: s)
  case (Cons i "is")
  have "(of_nat i :: u32) < 1024"
    using Cons.prems(2) by (simp add: word_bounds unat_of_nat_bounded)
  then have "store (entry_addr page (of_nat i)) 0 s = Some (upd f (of_nat i) 0 s)"
    using Cons.prems(1) by (intro window_store) simp_all
  then show ?case
    using Cons by (simp add: upd_frame) (simp add: fun_eq_iff set_frame_def)
qed simp

lemma of_nat_1024: "of_nat ` {0..<1024} = {k :: u32. k < 1024}"
proof (intro set_eqI iffI)
  fix k :: u32
  assume "k \<in> {k. k < 1024}"
  then have "unat k \<in> {0..<1024}" "k = of_nat (unat k)" by (simp_all add: word_bounds)
  then show "k \<in> of_nat ` {0..<1024}" by blast
qed (auto simp: word_bounds unat_of_nat_bounded)

lemma memzero_page_window:
  assumes "window s page f"
  shows "memzero_page page s = Some (set_frame f (\<lambda>k. if k < 1024 then 0 else pmem s f k) s)"
  unfolding memzero_page_def PTES_PER_PAGE_def
  using memzero_words_window [OF assms, of "[0..<1024]"] by (simp add: of_nat_1024)

lemma empty_from_window:
  assumes "window s page f" and "\<forall>i \<in> set is. i < 1024"
  shows "page_table_is_empty_from page is s = Some (\<forall>i \<in> set is. \<not> present (pmem s f (of_nat i)))"
  using assms
proof (induction "is")
  case (Cons i "is")
  have "(of_nat i :: u32) < 1024"
    using Cons.prems(2) by (simp add: word_bounds unat_of_nat_bounded)
  then show ?case using Cons by (simp add: window_load)
qed simp

lemma page_table_is_empty_window:
  assumes "window s page f"
  shows "page_table_is_empty page s = Some (\<forall>i < 1024. \<not> present (pmem s f i))"
proof -
  have "(\<forall>i \<in> {0..<1024}. \<not> present (pmem s f (of_nat i))) \<longleftrightarrow> (\<forall>k \<in> of_nat ` {0..<1024}. \<not> present (pmem s f k))"
    by simp
  then show ?thesis
    unfolding page_table_is_empty_def PTES_PER_PAGE_def of_nat_1024
    using empty_from_window [OF assms, of "[0..<1024]"] by simp
qed

lemma quarter_mod: "(x :: nat) mod 4096 = 4 * i \<Longrightarrow> x div 4 mod 1024 = i"
proof -
  assume "x mod 4096 = 4 * i"
  then have "4 * (x div 4 mod 1024) + x mod 4 = 4 * i"
    using mod_mult2_eq [of x 4 1024] by simp
  moreover have "4 * a + b = 4 * i \<Longrightarrow> b < 4 \<Longrightarrow> a = i" for a b :: nat by presburger
  moreover have "x mod 4 < 4" by simp
  ultimately show ?thesis by blast
qed

text \<open>Without paging all of memory is visible in the higher half.\<close>

lemma window_physical:
  assumes "\<not> paging_on s"
  shows "window s (to_virt (push_bit 12 (drop_bit 12 p))) (drop_bit 12 p)"
proof -
  let ?f = "drop_bit 12 p"
  have f: "unat ?f < 2 ^ 20"
    using unat_u32_bound [of p] by (simp add: drop_bit_eq_div unat_div_distrib)
  have "drop_bit 12 (push_bit 12 ?f + 4 * i) = ?f \<and> word_index (push_bit 12 ?f + 4 * i + KERNEL_PHY_OFFSET) = i"
    if "i < 1024" for i
  proof -
    have i: "unat i < 1024" using that by (simp add: word_bounds)
    have "unat (push_bit 12 ?f) = unat ?f * 2 ^ 12" using f by (intro unat_push_bit_u32) simp
    moreover have "unat (4 * i) = 4 * unat i" using i by (simp add: unat_mult_no_overflow)
    ultimately have u: "unat (push_bit 12 ?f + 4 * i) = unat ?f * 2 ^ 12 + 4 * unat i"
      using f i by (subst unat_add_no_overflow) simp_all
    then have "unat (drop_bit 12 (push_bit 12 ?f + 4 * i)) = unat ?f"
      using i by (simp add: drop_bit_eq_div unat_div_distrib)
    moreover have "unat ?f * 4096 + 4 * unat i + 3221225472 = 4 * unat i + (unat ?f + 786432) * 4096" by simp
    then have "(unat ?f * 4096 + 4 * unat i + 3221225472) mod 4096 = 4 * unat i"
      using i by (simp only: mod_mult_self1) simp
    then have "unat (push_bit 12 ?f + 4 * i + KERNEL_PHY_OFFSET) mod 4096 = 4 * unat i"
      using i unat_word_ariths(1) [of "push_bit 12 ?f + 4 * i" KERNEL_PHY_OFFSET]
      by (simp only: u) (simp add: KERNEL_PHY_OFFSET_def mod_mod_cancel)
    then have "unat (push_bit 12 ?f + 4 * i + KERNEL_PHY_OFFSET) div 4 mod 1024 = unat i"
      by (rule quarter_mod)
    ultimately show ?thesis by (simp add: word_unat_eq_iff unat_dword_index)
  qed
  then show ?thesis
    using assms by (simp add: window_def walk_def set_frame_def entry_addr_def to_virt_def to_phys_def add_ac)
qed

subsection \<open>The recursive entry and the temporary mappings\<close>

lemma set_frame_sel [simp]:
  "paging_on (set_frame f g s) = paging_on s" "cr3 (set_frame f g s) = cr3 s" "cpu_id (set_frame f g s) = cpu_id s"
  "top_dir (set_frame f g s) = top_dir s" "garbage (set_frame f g s) = garbage s"
  "get_curr_addr_space (set_frame f g s) = get_curr_addr_space s" "kernel_as (set_frame f g s) = kernel_as s"
  "addr_spaces (set_frame f g s) = addr_spaces s" "dir_of (set_frame f g s) = dir_of s"
  "frames_in_use (set_frame f g s) = frames_in_use s" "wf_frames (set_frame f g s) = wf_frames s"
  "error_list (set_frame f g s) = error_list s" "error_descs (set_frame f g s) = error_descs s"
  "FRAME_BITMAP (set_frame f g s) = FRAME_BITMAP s"
  by (simp_all add: set_frame_def top_dir_def get_curr_addr_space_def dir_of_def [abs_def] frames_in_use_def wf_frames_def)

lemma upd_sel [simp]:
  "paging_on (upd f i x s) = paging_on s" "cr3 (upd f i x s) = cr3 s" "cpu_id (upd f i x s) = cpu_id s"
  "top_dir (upd f i x s) = top_dir s" "garbage (upd f i x s) = garbage s"
  "get_curr_addr_space (upd f i x s) = get_curr_addr_space s" "kernel_as (upd f i x s) = kernel_as s"
  "addr_spaces (upd f i x s) = addr_spaces s" "dir_of (upd f i x s) = dir_of s"
  "frames_in_use (upd f i x s) = frames_in_use s" "wf_frames (upd f i x s) = wf_frames s"
  "pmem (upd f i x s) = (pmem s)(f := (pmem s f)(i := x))" "FRAME_BITMAP (upd f i x s) = FRAME_BITMAP s"
  "error_list (upd f i x s) = error_list s" "error_descs (upd f i x s) = error_descs s"
  by (simp_all add: upd_frame)

lemma entry_at_set_frame: "entry_at (set_frame f g s) f' i = (if f' = f then if present (g i) then Some (g i) else None else entry_at s f' i)"
  by (simp add: entry_at_def)

lemma entry_at_upd: "entry_at (upd f i x s) f' j = (if f' = f \<and> j = i then if present x then Some x else None else entry_at s f' j)"
  by (simp add: entry_at_def)

lemma table_set_frame [simp]: "D \<noteq> f \<Longrightarrow> table (set_frame f g s) D i = table s D i"
  by (simp add: table_def entry_at_set_frame)

lemma table_upd: "table (upd f i x s) D j = (if D = f \<and> j = i then if present x then Some (entry_frame x) else None else table s D j)"
  by (simp add: table_def entry_at_upd)

lemma walk_paged: "paging_on s \<Longrightarrow> walk s v = map_option entry_frame (page_entry s (top_dir s) v)"
  by (simp add: walk_def page_entry_def table_def entry_at_def top_dir_def Let_def)

lemma walk_through:
  assumes "paging_on s" and "table s (top_dir s) a = Some T" and "table s T b = Some f"
    and "a < 1024" and "b < 1024" and "c < 1024"
  shows "walk s (mkva a b c) = Some f"
  using assms by (simp add: walk_paged page_entry_def) (simp add: table_def)

lemma recursive_dir:
  assumes "paging_on s" and "table s (top_dir s) 1023 = Some (top_dir s)" and "i < 1024"
  shows "load (entry_addr 0xFFFFF000 i) s = Some (pmem s (top_dir s) i)"
    and "store (entry_addr 0xFFFFF000 i) x s = Some (upd (top_dir s) i x s)"
proof -
  have "entry_addr 0xFFFFF000 i = mkva 1023 1023 i"
    using table_address [of 1023 1023 i] by simp
  then show "load (entry_addr 0xFFFFF000 i) s = Some (pmem s (top_dir s) i)"
    and "store (entry_addr 0xFFFFF000 i) x s = Some (upd (top_dir s) i x s)"
    using walk_through [OF assms(1,2,2), of i] assms(3) by (simp_all add: load_def store_def upd_def)
qed

lemma recursive_table:
  assumes "paging_on s" and "table s (top_dir s) 1023 = Some (top_dir s)"
    and "table s (top_dir s) i = Some T" and "i < 1024" and "T \<noteq> top_dir s"
  shows "window s (push_bit 22 RECURSIVE_PDE_IDX OR push_bit 12 i) T"
  unfolding window_def table_address [OF assms(4)] RECURSIVE_PDE_IDX_def
  using assms walk_through [of "set_frame T g s" 1023 "top_dir s" i T for g] by simp

definition temp_frame :: "'a paging_state_scheme \<Rightarrow> u32" where
  "temp_frame s = entry_frame (pmem s (top_dir s) 1022)"

definition cpu_slot :: "'a paging_state_scheme \<Rightarrow> u32" where
  "cpu_slot s = ucast (cpu_id s)"

definition temp_addr :: "'a paging_state_scheme \<Rightarrow> addr" where
  "temp_addr s = push_bit 22 TEMP_MAP_PDE_IDX OR push_bit 12 (cpu_slot s)"

lemma cpu_slot_less: "cpu_slot s < 1024"
proof -
  have "unat (cpu_id s) < 256" using unsigned_less [of "cpu_id s"] by simp
  then show ?thesis by (simp add: cpu_slot_def word_bounds unat_ucast_bounded)
qed

lemma temp_window:
  assumes "paging_on s" and "table s (top_dir s) 1022 = Some T" and "table s T (cpu_slot s) = Some f"
    and "f \<noteq> top_dir s" and "f \<noteq> T"
  shows "window s (temp_addr s) f"
  unfolding window_def temp_addr_def table_address [OF cpu_slot_less] TEMP_MAP_PDE_IDX_def
  using assms walk_through [of "set_frame f g s" 1022 T "cpu_slot s" f for g] cpu_slot_less [of s] by simp

definition TEMP_FLAGS :: u32 where
  "TEMP_FLAGS = VM_WRITE OR VM_WRITE_THROUGH OR VM_NON_GLOBAL OR VM_CACHE_DISABLE"

lemma temp_addr_simps [simp]:
  "pde_index (temp_addr s) = 1022" "pte_index (temp_addr s) = cpu_slot s" "is_4kib_aligned (temp_addr s)"
  "is_higher_half (temp_addr s)" "temp_addr s \<noteq> 0xFFFFF000"
proof -
  have t: "temp_addr s = mkva 1022 (cpu_slot s) 0"
    using table_address [OF cpu_slot_less, of 1022 s 0]
    by (simp add: temp_addr_def TEMP_MAP_PDE_IDX_def entry_addr_def)
  then show i: "pde_index (temp_addr s) = 1022" "pte_index (temp_addr s) = cpu_slot s"
    using cpu_slot_less [of s] by simp_all
  have u: "unat (temp_addr s) = 1022 * 2 ^ 22 + unat (cpu_slot s) * 2 ^ 12"
    using t unat_mkva [of 1022 "cpu_slot s" 0] cpu_slot_less [of s] by simp
  then have "unat (temp_addr s) = (1022 * 1024 + unat (cpu_slot s)) * 4096" by simp
  then have "unat (temp_addr s) mod 4096 = 0" by (simp only: mod_mult_self2_is_0)
  then show "is_4kib_aligned (temp_addr s)"
    by (simp add: is_4kib_aligned_take_bit take_bit_eq_mod word_unat_eq_iff unat_mod_distrib)
  show "is_higher_half (temp_addr s)"
    using u unat_u32_bound [of "temp_addr s"]
    by (simp add: is_higher_half_def ptr_in_range_def KERNEL_PHY_OFFSET_def word_bounds)
  show "temp_addr s \<noteq> 0xFFFFF000"
    using i(1) by (auto simp: pde_index_def)
qed

lemma temp_addr_mem [simp]: "temp_addr (set_frame f g s) = temp_addr s" "temp_addr (upd f i x s) = temp_addr s"
  "cpu_slot (set_frame f g s) = cpu_slot s" "cpu_slot (upd f i x s) = cpu_slot s"
  by (simp_all add: temp_addr_def cpu_slot_def)

lemma create_temp_mapping_run:
  assumes on: "paging_on s" and rec: "table s (top_dir s) 1023 = Some (top_dir s)"
    and temp: "table s (top_dir s) 1022 = Some T" and "T \<noteq> top_dir s" and al: "is_4kib_aligned p"
  shows "create_temp_mapping p s =
    Some (temp_addr s, upd T (cpu_slot s) (make_pte (garbage s) TEMP_FLAGS p) s)"
proof -
  let ?page = "push_bit 22 RECURSIVE_PDE_IDX OR push_bit 12 TEMP_MAP_PDE_IDX"
  let ?c = "cpu_slot s"
  note c = cpu_slot_less [of s]
  have win: "window s ?page T"
    using recursive_table [OF on rec temp] assms(4) by (simp add: TEMP_MAP_PDE_IDX_def)
  define s1 where "s1 = upd T ?c (clear_present (pmem s T ?c)) s"
  have win1: "window s1 ?page T" using win by (simp add: s1_def)
  have rec1: "table s1 (top_dir s1) 1023 = Some (top_dir s1)" and on1: "paging_on s1"
    and temp1: "present (pmem s1 (top_dir s1) 1022)"
    using assms by (simp_all add: s1_def table_upd table_Some)
  have aligned: "entry_addr ?page ?c AND 3 = 0"
  proof -
    have "unat (entry_addr ?page ?c) = (1023 * 2 ^ 20 + 1022 * 2 ^ 10 + unat ?c) * 4"
      using c unat_mkva [of 1023 1022 ?c] table_address [of 1022 1023 ?c]
      by (simp add: TEMP_MAP_PDE_IDX_def RECURSIVE_PDE_IDX_def)
    then have "unat (entry_addr ?page ?c) mod 4 = 0" by (simp only: mod_mult_self2_is_0)
    then have "take_bit 2 (entry_addr ?page ?c) = 0"
      by (simp add: take_bit_eq_mod word_unat_eq_iff unat_mod_distrib)
    then show ?thesis by (simp add: take_bit_eq_mask mask_eq_exp_minus_1)
  qed
  have "get_page_table (\<lambda>_ _. None) 0xFFFFF000 1022 s1 = Some (?page, s1)"
    using on1 by (simp add: get_page_table_def TEMP_MAP_PDE_IDX_def)
  moreover have "get_page_dir (\<lambda>_ _. None) (get_curr_addr_space s1) s1 = Some (0xFFFFF000, s1)"
    using on1 by (simp add: get_page_dir_def RECURSIVE_PDE_IDX_def)
  moreover have "is_higher_half 0xFFFFF000"
    by (simp add: is_higher_half_def ptr_in_range_def KERNEL_PHY_OFFSET_def)
  ultimately have "map_page_with (\<lambda>_ _. None) (get_curr_addr_space s1) p (temp_addr s) TEMP_FLAGS s1 =
      Some (True, upd T ?c (make_pte (garbage s) TEMP_FLAGS p) s1)"
    using al c temp1 window_load [OF win1 c] window_store [OF win1 c]
    by (simp add: map_page_with_def is_temp_mapping_def TEMP_MAP_PDE_IDX_def recursive_dir [OF on1 rec1])
      (simp add: s1_def)
  moreover have "create_temp_mapping p s = do {
       (res, s') \<leftarrow> map_page_with (\<lambda>_ _. None) (get_curr_addr_space s1) p (temp_addr s) TEMP_FLAGS s1;
       ASSERT res;
       Some (temp_addr s, s') }"
    using aligned window_load [OF win c] window_store [OF win c]
    by (simp add: create_temp_mapping_def Let_def cpu_slot_def [symmetric] s1_def TEMP_FLAGS_def
        temp_addr_def [symmetric])
  ultimately show ?thesis by (simp add: s1_def)
qed

subsection \<open>Keeping the invariant\<close>

text \<open>What the operations on pages may change: memory, the frame allocator and the error list.\<close>

definition same_cpu :: "'a paging_state_scheme \<Rightarrow> 'a paging_state_scheme \<Rightarrow> bool" where
  "same_cpu s s' \<longleftrightarrow> (\<exists>el ed l b m. s' =
     s\<lparr>error_list := el, error_descs := ed, FRAME_ALLOC_LOCK := l, FRAME_BITMAP := b, pmem := m\<rparr>)"

lemma same_cpu_refl [simp]: "same_cpu s s"
  unfolding same_cpu_def
  by (rule exI [of _ "error_list s"], rule exI [of _ "error_descs s"], rule exI [of _ "FRAME_ALLOC_LOCK s"],
      rule exI [of _ "FRAME_BITMAP s"], rule exI [of _ "pmem s"]) simp

lemma same_cpu_trans [trans]: "same_cpu s s' \<Longrightarrow> same_cpu s' s'' \<Longrightarrow> same_cpu s s''"
  unfolding same_cpu_def by fastforce

lemma same_cpu_sel:
  assumes "same_cpu s s'"
  shows "paging_on s' = paging_on s" "cr3 s' = cr3 s" "cpu_id s' = cpu_id s" "top_dir s' = top_dir s"
    "garbage s' = garbage s" "get_curr_addr_space s' = get_curr_addr_space s" "kernel_as s' = kernel_as s"
    "addr_spaces s' = addr_spaces s" "dir_of s' as = dir_of s as" "int_flag s' = int_flag s"
    "OOM_SIMULATION s' = OOM_SIMULATION s" "cpu_slot s' = cpu_slot s" "temp_addr s' = temp_addr s"
    "as_ok DS s' as = as_ok DS s as" "curr_addr_space s' = curr_addr_space s"
  using assms by (auto simp: same_cpu_def top_dir_def get_curr_addr_space_def dir_of_def cpu_slot_def
      temp_addr_def as_ok_def)

lemma same_cpu_upd [simp]: "same_cpu s (upd f i x s)" "same_cpu s (set_frame f g s)"
  unfolding same_cpu_def upd_frame set_frame_def
  by (rule exI [of _ "error_list s"], rule exI [of _ "error_descs s"], rule exI [of _ "FRAME_ALLOC_LOCK s"],
      rule exI [of _ "FRAME_BITMAP s"], rule exI, simp)+

lemma tables_okD:
  assumes "tables_ok DS s" and "D \<in> DS" and "i < 1023" and "table s D i = Some T"
  shows "T \<notin> DS" "unat T \<in> frames_in_use s"
    "D' \<in> DS \<Longrightarrow> j < 1023 \<Longrightarrow> table s D' j = Some T \<Longrightarrow> i = j \<and> (D = D' \<or> 768 \<le> i)"
  using assms unfolding tables_ok_def by blast+

lemma tables_okI:
  assumes "unat ` DS \<subseteq> frames_in_use s"
    and "\<And>D i T. D \<in> DS \<Longrightarrow> i < 1023 \<Longrightarrow> table s D i = Some T \<Longrightarrow> T \<notin> DS"
    and "\<And>D i T. D \<in> DS \<Longrightarrow> i < 1023 \<Longrightarrow> table s D i = Some T \<Longrightarrow> unat T \<in> frames_in_use s"
    and "\<And>D i T D' j. D \<in> DS \<Longrightarrow> i < 1023 \<Longrightarrow> table s D i = Some T \<Longrightarrow>
      D' \<in> DS \<Longrightarrow> j < 1023 \<Longrightarrow> table s D' j = Some T \<Longrightarrow> i = j \<and> (D = D' \<or> 768 \<le> i)"
  shows "tables_ok DS s"
  unfolding tables_ok_def
proof (intro conjI ballI allI impI)
  show "unat ` DS \<subseteq> frames_in_use s" by (rule assms(1))
  fix D i T
  assume D: "D \<in> DS" "i < 1023" "table s D i = Some T"
  show "T \<notin> DS" "unat T \<in> frames_in_use s" using assms(2,3) [OF D] by simp_all
  fix D' j
  assume "D' \<in> DS" "j < 1023" "table s D' j = Some T"
  from assms(4) [OF D this] show "i = j" "D = D' \<or> 768 \<le> i" by (rule conjunct1, rule conjunct2)
qed

lemma mm_okD:
  assumes "mm_ok DS s"
  shows "wf_frames s" "tables_ok DS s" "unat ` DS \<subseteq> frames_in_use s"
proof -
  show "wf_frames s" and t: "tables_ok DS s" using assms by (simp_all add: mm_ok_def)
  show "unat ` DS \<subseteq> frames_in_use s" using t unfolding tables_ok_def by (rule conjunct1)
qed

lemma mm_paged:
  assumes "mm_ok DS s" and "paging_on s"
  shows "top_dir s \<in> DS" "D \<in> DS \<Longrightarrow> table s D 1023 = Some D"
    "D \<in> DS \<Longrightarrow> table s D 1022 = Some (temp_frame s)" "temp_frame s \<notin> DS"
    "page_dir_phy_addr (addr_spaces s (get_curr_addr_space s)) = cr3 s"
proof -
  have p: "paged_ok DS s" and t: "tables_ok DS s" using assms by (simp_all add: mm_ok_def)
  show d: "top_dir s \<in> DS" "D \<in> DS \<Longrightarrow> table s D 1023 = Some D"
    "page_dir_phy_addr (addr_spaces s (get_curr_addr_space s)) = cr3 s"
    using p unfolding paged_ok_def by blast+
  have tp: "table s (top_dir s) 1022 \<noteq> None" using p unfolding paged_ok_def by blast
  then have tf: "table s (top_dir s) 1022 = Some (temp_frame s)"
    by (auto simp: temp_frame_def table_Some)
  then show "D \<in> DS \<Longrightarrow> table s D 1022 = Some (temp_frame s)"
    using p unfolding paged_ok_def by metis
  show "temp_frame s \<notin> DS" using tables_okD(1) [OF t d(1) _ tf] by simp
qed

lemma paged_ok_same:
  assumes p: "paged_ok DS s" and "same_cpu s s'"
    and tab: "\<And>D. D \<in> DS \<Longrightarrow> table s' D 1022 = table s D 1022" "\<And>D. D \<in> DS \<Longrightarrow> table s' D 1023 = table s D 1023"
  shows "paged_ok DS s'"
proof -
  note sel = same_cpu_sel [OF assms(2)]
  have "top_dir s' \<in> DS" using p sel(4) unfolding paged_ok_def by metis
  then show ?thesis using p tab sel(2,4,6,8) unfolding paged_ok_def by metis
qed

text \<open>Two states whose directories have the same tables.\<close>

lemma mm_ok_same_tables:
  assumes "mm_ok DS s" and "same_cpu s s'" and "wf_frames s'"
    and "\<forall>D \<in> DS. \<forall>i. table s' D i = table s D i"
    and "\<forall>D \<in> DS. \<forall>i < 1023. \<forall>T. table s D i = Some T \<longrightarrow> unat T \<in> frames_in_use s'"
    and "unat ` DS \<subseteq> frames_in_use s'"
  shows "mm_ok DS s'"
proof -
  have tab: "D \<in> DS \<Longrightarrow> table s' D i = table s D i" for D i using assms(4) by blast
  have "tables_ok DS s'"
  proof (rule tables_okI)
    show "unat ` DS \<subseteq> frames_in_use s'" by (rule assms(6))
    fix D i T
    assume D: "D \<in> DS" "i < 1023" "table s' D i = Some T"
    note old = tables_okD [OF mm_okD(2) [OF assms(1)] D(1,2) D(3) [unfolded tab [OF D(1)]]]
    show "T \<notin> DS" by (rule old(1))
    show "unat T \<in> frames_in_use s'" using D tab assms(5) by metis
    show "i = j \<and> (D = D' \<or> 768 \<le> i)" if "D' \<in> DS" "j < 1023" "table s' D' j = Some T" for D' j
      using old(3) [OF that(1,2)] that(1,3) tab by metis
  qed
  moreover have "paged_ok DS s'" if "paging_on s"
    by (rule paged_ok_same [OF _ assms(2) tab tab]) (use that assms(1) in \<open>simp add: mm_ok_def\<close>)
  ultimately show ?thesis using assms(3) same_cpu_sel(1) [OF assms(2)] by (simp add: mm_ok_def)
qed

lemma mm_ok_set_frame: "mm_ok DS s \<Longrightarrow> f \<notin> DS \<Longrightarrow> mm_ok DS (set_frame f g s)"
  by (rule mm_ok_same_tables [of DS s])
    (simp_all add: mm_okD, metis table_set_frame, metis mm_okD(2) tables_okD(2))

text \<open>A step that at most changes the entry of this cpu in the table of the temporary mappings.\<close>

definition slot_step :: "'a paging_state_scheme \<Rightarrow> 'a paging_state_scheme \<Rightarrow> bool" where
  "slot_step s s' \<longleftrightarrow> s' = s \<or> paging_on s \<and> (\<exists>x. s' = upd (temp_frame s) (cpu_slot s) x s)"

lemma slot_step_refl [simp]: "slot_step s s"
  by (simp add: slot_step_def)

lemma slot_step_same:
  assumes "slot_step s s'"
  shows "same_cpu s s'" "frames_in_use s' = frames_in_use s" "wf_frames s' = wf_frames s"
    "f \<noteq> temp_frame s \<Longrightarrow> pmem s' f = pmem s f"
    "FRAME_BITMAP s' = FRAME_BITMAP s" "error_list s' = error_list s" "error_descs s' = error_descs s"
  using assms by (auto simp: slot_step_def)

lemma slot_step_mm:
  assumes "mm_ok DS s" and "slot_step s s'"
  shows "mm_ok DS s'" "D \<in> DS \<Longrightarrow> table s' D i = table s D i" "temp_frame s' = temp_frame s"
proof -
  have "mm_ok DS s' \<and> (D \<in> DS \<longrightarrow> table s' D i = table s D i) \<and> temp_frame s' = temp_frame s"
    using assms(2) unfolding slot_step_def
  proof (elim disjE conjE exE)
    fix x
    assume on: "paging_on s" and s': "s' = upd (temp_frame s) (cpu_slot s) x s"
    have "temp_frame s \<noteq> top_dir s" using mm_paged [OF assms(1) on] by metis
    then have "temp_frame s' = temp_frame s" by (simp add: s' temp_frame_def)
    moreover have "D \<in> DS \<longrightarrow> table s' D i = table s D i"
      using mm_paged(4) [OF assms(1) on] by (metis s' upd_frame table_set_frame)
    ultimately show ?thesis
      using mm_paged(4) [OF assms(1) on] assms(1) by (simp add: s' upd_frame mm_ok_set_frame)
  qed (use assms(1) in simp)
  then show "mm_ok DS s'" "D \<in> DS \<Longrightarrow> table s' D i = table s D i" "temp_frame s' = temp_frame s" by blast+
qed

lemma slot_step_trans:
  assumes "mm_ok DS s" and "slot_step s s'" and "slot_step s' s''"
  shows "slot_step s s''"
  using assms slot_step_mm(3) [OF assms(1,2)] same_cpu_sel(1,12) [OF slot_step_same(1) [OF assms(2)]]
  unfolding slot_step_def by auto

lemma entry_at_cong: "pmem s' f = pmem s f \<Longrightarrow> entry_at s' f i = entry_at s f i"
  by (simp add: entry_at_def)

lemma table_cong: "pmem s' f = pmem s f \<Longrightarrow> table s' f i = table s f i"
  by (simp add: table_def entry_at_def)

lemma temp_frame_not_table:
  assumes "mm_ok DS s" and "paging_on s" and "D \<in> DS" and "table s D i = Some T" and "i < 1022"
  shows "T \<noteq> temp_frame s"
proof
  assume "T = temp_frame s"
  then have "table s D 1022 = Some T" using mm_paged(3) [OF assms(1-3)] by simp
  moreover have "i < 1023" using assms(5) by (simp add: word_bounds)
  ultimately have "i = 1022"
    using tables_okD(3) [OF mm_okD(2) [OF assms(1)] assms(3) _ assms(4) assms(3), of 1022] by simp
  with assms(5) show False by simp
qed

lemma slot_step_page_entry:
  assumes "mm_ok DS s" and "slot_step s s'" and "D \<in> DS" and "pde_index v \<noteq> 1022"
  shows "page_entry s' D v = page_entry s D v"
proof (cases "s' = s")
  case False
  then have on: "paging_on s" using assms(2) by (auto simp: slot_step_def)
  have "entry_at s' T (pte_index v) = entry_at s T (pte_index v)" if T: "table s D (pde_index v) = Some T" for T
  proof -
    have "T \<noteq> temp_frame s"
    proof (cases "pde_index v = 1023")
      case True
      then have "T = D" using T mm_paged(2) [OF assms(1) on assms(3)] by simp
      then show ?thesis using assms(3) mm_paged(4) [OF assms(1) on] by blast
    next
      case False
      have "unat (pde_index v) < 1024" using index_bounds(1) [of v] by (simp add: word_bounds)
      moreover have "unat (pde_index v) \<noteq> 1022" "unat (pde_index v) \<noteq> 1023"
        using False assms(4) by (simp_all add: word_unat_eq_iff)
      ultimately have "pde_index v < 1022" by (simp add: word_bounds)
      then show ?thesis using temp_frame_not_table [OF assms(1) on assms(3) T] by blast
    qed
    then show ?thesis by (intro entry_at_cong slot_step_same(4) [OF assms(2)])
  qed
  then show ?thesis
    using slot_step_mm(2) [OF assms(1,2,3)] by (cases "table s D (pde_index v)") (simp_all add: page_entry_def)
qed simp

subsection \<open>Reaching the tables of an address space\<close>

text \<open>The pointer the code uses for the directory of an address space.\<close>

definition reaches :: "addr \<Rightarrow> addr \<Rightarrow> 'a paging_state_scheme \<Rightarrow> bool" where
  "reaches pd as s \<longleftrightarrow>
     (if \<not> paging_on s then pd = to_virt (page_dir_phy_addr (addr_spaces s as))
      else if get_curr_addr_space s = as then pd = 0xFFFFF000
      else pd = temp_addr s \<and> table s (temp_frame s) (cpu_slot s) = Some (dir_of s as))"

lemma higher_half_recursive: "is_higher_half 0xFFFFF000"
  by (simp add: is_higher_half_def ptr_in_range_def KERNEL_PHY_OFFSET_def)

lemma temp_mapping_ok:
  assumes mm: "mm_ok DS s" and on: "paging_on s" and al: "is_4kib_aligned p"
  obtains s' where "create_temp_mapping p s = Some (temp_addr s, s')" and "slot_step s s'"
    and "table s' (temp_frame s) (cpu_slot s) = Some (drop_bit 12 p)"
proof -
  note d = mm_paged [OF mm on]
  have "temp_frame s \<noteq> top_dir s" using d(1,4) by metis
  then have "create_temp_mapping p s =
      Some (temp_addr s, upd (temp_frame s) (cpu_slot s) (make_pte (garbage s) TEMP_FLAGS p) s)"
    using create_temp_mapping_run [OF on d(2) [OF d(1)] d(3) [OF d(1)]] al by blast
  then show thesis
    by (rule that) (use on in \<open>auto simp: slot_step_def table_upd\<close>)
qed

lemma get_page_dir_ok:
  assumes mm: "mm_ok DS s" and as: "as_ok DS s as"
  obtains pd s' where "get_page_dir create_temp_mapping as s = Some (pd, s')" and "slot_step s s'"
    and "reaches pd as s'" and "paging_on s \<Longrightarrow> is_higher_half pd"
proof (cases "paging_on s")
  case False
  then show thesis
    by (intro that [of "to_virt (page_dir_phy_addr (addr_spaces s as))" s]) (simp_all add: get_page_dir_def reaches_def)
next
  case on: True
  show thesis
  proof (cases "get_curr_addr_space s = as")
    case True
    with on show thesis
      by (intro that [of "0xFFFFF000" s]) (simp_all add: get_page_dir_def reaches_def RECURSIVE_PDE_IDX_def higher_half_recursive)
  next
    case False
    have "is_4kib_aligned (page_dir_phy_addr (addr_spaces s as))" using as by (simp add: as_ok_def)
    then obtain s' where s': "create_temp_mapping (page_dir_phy_addr (addr_spaces s as)) s = Some (temp_addr s, s')"
      "slot_step s s'" "table s' (temp_frame s) (cpu_slot s) = Some (dir_of s as)"
      using temp_mapping_ok [OF mm on] unfolding dir_of_def by metis
    note sel = same_cpu_sel [OF slot_step_same(1) [OF s'(2)]]
    have "reaches (temp_addr s) as s'"
      using False on s'(3) sel slot_step_mm(3) [OF mm s'(2)] by (simp add: reaches_def)
    with on False s' show thesis by (intro that [of "temp_addr s" s']) (simp_all add: get_page_dir_def)
  qed
qed

lemma dir_window:
  assumes mm: "mm_ok DS s" and as: "as_ok DS s as" and pd: "reaches pd as s"
    and "paging_on s \<Longrightarrow> get_curr_addr_space s \<noteq> as"
  shows "window s pd (dir_of s as)"
proof (cases "paging_on s")
  case False
  with pd as window_physical [OF False, of "page_dir_phy_addr (addr_spaces s as)"]
  show ?thesis by (simp add: reaches_def as_ok_def frame_of_aligned dir_of_def)
next
  case True
  note d = mm_paged [OF mm True]
  have "dir_of s as \<noteq> temp_frame s" using as d(4) by (auto simp: as_ok_def)
  then have "window s (temp_addr s) (dir_of s as)"
    using temp_window [OF True d(3) [OF d(1)]] pd as True assms(4) by (simp add: reaches_def as_ok_def)
  then show ?thesis using pd True assms(4) by (simp add: reaches_def)
qed

lemma current_dir:
  assumes "mm_ok DS s" and "paging_on s"
  shows "dir_of s (get_curr_addr_space s) = top_dir s"
  using mm_paged(5) [OF assms] by (simp add: dir_of_def top_dir_def)

lemma reaches_access:
  assumes mm: "mm_ok DS s" and as: "as_ok DS s as" and pd: "reaches pd as s" and i: "i < 1024"
  shows "load (entry_addr pd i) s = Some (pmem s (dir_of s as) i)"
    "store (entry_addr pd i) x s = Some (upd (dir_of s as) i x s)"
proof -
  have "load (entry_addr pd i) s = Some (pmem s (dir_of s as) i) \<and>
      store (entry_addr pd i) x s = Some (upd (dir_of s as) i x s)"
  proof (cases "paging_on s \<and> get_curr_addr_space s = as")
    case True
    note d = mm_paged [OF mm conjunct1 [OF True]]
    have "dir_of s as = top_dir s" using current_dir [OF mm] True by auto
    then show ?thesis
      using recursive_dir [OF conjunct1 [OF True] d(2) [OF d(1)] i] pd True by (simp add: reaches_def)
  next
    case False
    then have "window s pd (dir_of s as)" using dir_window [OF mm as pd] by blast
    with i show ?thesis by (simp add: window_load window_store)
  qed
  then show "load (entry_addr pd i) s = Some (pmem s (dir_of s as) i)"
    "store (entry_addr pd i) x s = Some (upd (dir_of s as) i x s)" by simp_all
qed

lemma get_page_table_ok:
  assumes mm: "mm_ok DS s" and as: "as_ok DS s as" and pd: "reaches pd as s"
    and T: "table s (dir_of s as) i = Some T" and i: "i < 1022"
  obtains pt s' where "get_page_table create_temp_mapping pd i s = Some (pt, s')" and "slot_step s s'"
    and "window s' pt T"
proof -
  let ?D = "dir_of s as"
  have D: "?D \<in> DS" using as by (simp add: as_ok_def)
  have ib: "i < 1024" "i < 1023" using i by (simp_all add: word_bounds)
  have e: "present (pmem s ?D i)" "T = drop_bit 12 (pmem s ?D i)" using T by (simp_all add: table_Some entry_frame_def)
  have notD: "T \<notin> DS" using tables_okD(1) [OF mm_okD(2) [OF mm] D ib(2) T] .
  note load = reaches_access(1) [OF mm as pd ib(1)]
  show thesis
  proof (cases "paging_on s")
    case False
    show thesis
      by (rule that [of "to_virt (push_bit 12 T)" s])
        (use False load e window_physical [OF False, of "pmem s ?D i"] in \<open>simp_all add: get_page_table_def entry_frame_def\<close>)
  next
    case on: True
    note d = mm_paged [OF mm on]
    have top: "T \<noteq> top_dir s" using notD d(1) by blast
    show thesis
    proof (cases "get_curr_addr_space s = as")
      case True
      then have "table s (top_dir s) i = Some T" using T current_dir [OF mm on] by auto
      from recursive_table [OF on d(2) [OF d(1)] this ib(1) top] show thesis
        using pd on True by (intro that [of _ s]) (auto simp: get_page_table_def reaches_def)
    next
      case False
      have al: "is_4kib_aligned (push_bit 12 T)"
        by (simp add: is_4kib_aligned_take_bit take_bit_push_bit)
      obtain s' where s': "create_temp_mapping (push_bit 12 T) s = Some (temp_addr s, s')" "slot_step s s'"
        "table s' (temp_frame s) (cpu_slot s) = Some T"
        using temp_mapping_ok [OF mm on al] e(2) by auto
      have pd': "pd = temp_addr s" "pd \<noteq> 0xFFFFF000" using pd on False by (simp_all add: reaches_def)
      then have "get_page_table create_temp_mapping pd i s = Some (temp_addr s, s')"
        using load e s'(1) on by (simp add: get_page_table_def entry_frame_def)
      moreover have "window s' (temp_addr s) T"
      proof -
        note sel = same_cpu_sel [OF slot_step_same(1) [OF s'(2)]]
        have on': "paging_on s'" "top_dir s' = top_dir s" "temp_addr s' = temp_addr s" "cpu_slot s' = cpu_slot s"
          using sel on by simp_all
        have "table s' (top_dir s') 1022 = Some (temp_frame s)"
          using d(3) [OF d(1)] slot_step_mm(2) [OF mm s'(2) d(1)] on'(2) by simp
        moreover have "T \<noteq> temp_frame s" using temp_frame_not_table [OF mm on D T i] .
        ultimately show ?thesis
          using temp_window [OF on'(1)] s'(3) top on' by metis
      qed
      ultimately show thesis using s'(2) that by blast
    qed
  qed
qed

lemma mem_cong:
  assumes "same_cpu s s'" and "pmem s' = pmem s"
  shows "temp_frame s' = temp_frame s" "reaches pd as s' = reaches pd as s" "table s' D i = table s D i"
    "page_entry s' D v = page_entry s D v"
proof -
  have t: "table s' D i = table s D i" for D i using assms(2) by (simp add: table_def entry_at_def)
  show "temp_frame s' = temp_frame s" "table s' D i = table s D i" "reaches pd as s' = reaches pd as s"
    using same_cpu_sel [OF assms(1)] assms(2) t by (simp_all add: temp_frame_def reaches_def)
  show "page_entry s' D v = page_entry s D v"
    using t entry_at_cong [of s' _ s] assms(2) by (simp add: page_entry_def)
qed

lemma same_cpu_alloc [simp]: "same_cpu s (with_bitmap b s)" "same_cpu s (log_enomem s)"
  "pmem (with_bitmap b s) = pmem s" "pmem (log_enomem s) = pmem s"
proof -
  show "same_cpu s (with_bitmap b s)"
    unfolding same_cpu_def with_bitmap_def
    by (rule exI [of _ "error_list s"], rule exI [of _ "error_descs s"], rule exI [of _ "released (int_flag s)"],
        rule exI [of _ b], rule exI [of _ "pmem s"]) (cases s, simp)
  show "same_cpu s (log_enomem s)"
    unfolding same_cpu_def log_enomem_def
    by (rule exI, rule exI, rule exI [of _ "FRAME_ALLOC_LOCK s"], rule exI [of _ "FRAME_BITMAP s"],
        rule exI [of _ "pmem s"]) simp
  show "pmem (with_bitmap b s) = pmem s" "pmem (log_enomem s) = pmem s"
    by (simp_all add: with_bitmap_def log_enomem_def)
qed

lemma same_cpu_set_error:
  assumes "set_error code s = Some s'"
  shows "same_cpu s s'" "pmem s' = pmem s" "wf_frames s' = wf_frames s" "frames_in_use s' = frames_in_use s"
proof -
  obtain el ed where s': "s' = s\<lparr>error_list := el, error_descs := ed\<rparr>"
    using set_error_shape [OF assms] .
  show "same_cpu s s'"
    unfolding same_cpu_def s'
    by (rule exI [of _ el], rule exI [of _ ed], rule exI [of _ "FRAME_ALLOC_LOCK s"],
        rule exI [of _ "FRAME_BITMAP s"], rule exI [of _ "pmem s"]) simp
  show "pmem s' = pmem s" "wf_frames s' = wf_frames s" "frames_in_use s' = frames_in_use s"
    by (simp_all add: s' wf_frames_def frames_in_use_def)
qed

end
