(* ===== verification/Paging_Maps.thy ===== *)
theory Paging_Maps
  imports Paging_Pages
begin

text \<open>
  \<open>map_page_in\<close> and \<open>unmap_page_in\<close> as updates of the views of the address spaces. They hold for the address
  space the cpu uses, which the code edits through the recursive entry, for any other, which it edits through
  temporary mappings, and before paging is enabled.
\<close>

subsection \<open>Page tables come and go\<close>

lemma below_special: "i < 1022 \<Longrightarrow> i < (1023 :: u32)" "i < 1022 \<Longrightarrow> i < (1024 :: u32)"
  by (simp_all add: word_bounds)

lemma frame_number_drop: "frame_number f = unat (drop_bit 12 f)"
  by (simp add: frame_number_def drop_bit_eq_div unat_div_distrib)

lemma alloc_frame_step:
  assumes wf: "wf_frames s" and run: "alloc_frame s = Some (f, s')"
  shows "same_cpu s s'" "pmem s' = pmem s" "wf_frames s'"
    "f \<noteq> NO_FRAME \<Longrightarrow> is_4kib_aligned f \<and> unat (drop_bit 12 f) \<notin> frames_in_use s \<and>
       frames_in_use s' = insert (unat (drop_bit 12 f)) (frames_in_use s) \<and> error_list s' = error_list s \<and>
       error_descs s' = error_descs s"
    "f = NO_FRAME \<Longrightarrow> frames_in_use s' = frames_in_use s \<and> (error_list s \<noteq> [] \<or> next_desc s \<longrightarrow> error_list s' \<noteq> [])"
    "bm_size (FRAME_BITMAP s') = bm_size (FRAME_BITMAP s)"
proof -
  have "same_cpu s s' \<and> pmem s' = pmem s \<and> wf_frames s' \<and> bm_size (FRAME_BITMAP s') = bm_size (FRAME_BITMAP s) \<and>
    (f \<noteq> NO_FRAME \<longrightarrow> is_4kib_aligned f \<and> unat (drop_bit 12 f) \<notin> frames_in_use s \<and>
       frames_in_use s' = insert (unat (drop_bit 12 f)) (frames_in_use s) \<and> error_list s' = error_list s \<and>
       error_descs s' = error_descs s) \<and>
    (f = NO_FRAME \<longrightarrow> frames_in_use s' = frames_in_use s \<and> (error_list s \<noteq> [] \<or> next_desc s \<longrightarrow> error_list s' \<noteq> []))"
  proof (cases "f = NO_FRAME")
    case True
    then have s': "s' = log_enomem (with_bitmap (FRAME_BITMAP s) s)"
      using alloc_frame_none [OF wf] run by blast
    have "same_cpu s s'"
      unfolding s' using same_cpu_alloc(1) same_cpu_alloc(2) by (rule same_cpu_trans)
    moreover have "wf_frames s'" "frames_in_use s' = frames_in_use s"
      using wf by (simp_all add: s' frames_in_use_def [of s] wf_frames_def [of s])
    moreover have "error_list s \<noteq> [] \<or> next_desc s \<longrightarrow> error_list s' \<noteq> []"
      by (auto simp: s' log_enomem_def)
    ultimately show ?thesis using True by (simp add: s')
  next
    case False
    then show ?thesis
      using alloc_frame_got [OF wf run False] by (auto simp: frame_number_drop)
  qed
  then show "same_cpu s s'" "pmem s' = pmem s" "wf_frames s'"
    "f \<noteq> NO_FRAME \<Longrightarrow> is_4kib_aligned f \<and> unat (drop_bit 12 f) \<notin> frames_in_use s \<and>
       frames_in_use s' = insert (unat (drop_bit 12 f)) (frames_in_use s) \<and> error_list s' = error_list s \<and>
       error_descs s' = error_descs s"
    "f = NO_FRAME \<Longrightarrow> frames_in_use s' = frames_in_use s \<and> (error_list s \<noteq> [] \<or> next_desc s \<longrightarrow> error_list s' \<noteq> [])"
    "bm_size (FRAME_BITMAP s') = bm_size (FRAME_BITMAP s)"
    by blast+
qed

lemma free_frame_step:
  assumes wf: "wf_frames s" and use: "unat f \<in> frames_in_use s" and f: "f = drop_bit 12 p"
  obtains s' where "free_frame (push_bit 12 f) s = Some s'" and "same_cpu s s'" and "pmem s' = pmem s"
    and "wf_frames s'" and "frames_in_use s' = frames_in_use s - {unat f}"
    and "error_list s' = error_list s"
proof -
  have al: "is_4kib_aligned (push_bit 12 f)"
    by (simp add: is_4kib_aligned_take_bit take_bit_push_bit)
  have n: "frame_number (push_bit 12 f) = unat f" by (simp add: frame_number_drop f)
  obtain b where b: "free_frame (push_bit 12 f) s = Some (with_bitmap b s)" "wf_bitmap b"
    "bm_size b = bm_size (FRAME_BITMAP s)" "set_bits_of b = frames_in_use s - {unat f}"
    using free_frame_in_use [OF wf al] use n by metis
  show thesis
    by (rule that [OF b(1)]) (use b wf in \<open>simp_all add: wf_frames_def [of s]\<close>)
qed

lemma mm_ok_add_table:
  assumes mm: "mm_ok DS s" and same: "same_cpu s s'" and wf: "wf_frames s'"
    and use: "frames_in_use s' = insert (unat T) (frames_in_use s)" and fresh: "unat T \<notin> frames_in_use s"
    and D: "D \<in> DS" and i: "i < 1022"
    and tab: "\<And>D' j. D' \<in> DS \<Longrightarrow> table s' D' j = (if D' = D \<and> j = i then Some T else table s D' j)"
  shows "mm_ok DS s'"
proof -
  note ok = mm_okD [OF mm]
  note old = tables_okD [OF ok(2)]
  have notT: "D' \<in> DS \<Longrightarrow> j < 1023 \<Longrightarrow> table s D' j \<noteq> Some T" for D' j
    using old(2) fresh by blast
  have "tables_ok DS s'"
  proof (rule tables_okI)
    show "unat ` DS \<subseteq> frames_in_use s'" using ok(3) use by auto
    fix D1 i1 T1
    assume a: "D1 \<in> DS" "i1 < 1023" "table s' D1 i1 = Some T1"
    show "T1 \<notin> DS"
    proof (cases "D1 = D \<and> i1 = i")
      case True
      then have "T1 = T" using a tab by simp
      then show ?thesis using fresh ok(3) by blast
    next
      case False
      then show ?thesis using a tab old(1) by metis
    qed
    show "unat T1 \<in> frames_in_use s'"
      using a tab old(2) use by (metis insertI1 insertI2 option.inject)
    fix D2 i2
    assume b: "D2 \<in> DS" "i2 < 1023" "table s' D2 i2 = Some T1"
    show "i1 = i2 \<and> (D1 = D2 \<or> 768 \<le> i1)"
      using a b tab notT old(3) by (metis option.inject)
  qed
  moreover have "paged_ok DS s'" if "paging_on s"
    by (rule paged_ok_same [OF _ same]) (use that mm tab i in \<open>auto simp: mm_ok_def\<close>)
  ultimately show ?thesis using wf same_cpu_sel(1) [OF same] by (simp add: mm_ok_def)
qed

lemma alloc_frame_slot:
  assumes "mm_ok DS s" and "slot_step s s'"
  shows "alloc_frame s' = None \<longleftrightarrow> alloc_frame s = None"
  using alloc_frame_stuck_iff [of s] alloc_frame_stuck_iff [of s'] mm_okD(1) [OF assms(1)]
    slot_step_same [OF assms(2)] same_cpu_sel(11) [OF slot_step_same(1) [OF assms(2)]] by simp

lemma set_error_again:
  assumes "error_list s \<noteq> []"
  obtains s' where "set_error ENONE s = Some s'" and "error_list s' \<noteq> []"
  using assms by (cases "next_desc s") (auto simp: set_error_def Let_def)

subsection \<open>Mapping a page\<close>

text \<open>Memory is the same but for some frames and, with paging on, the entry of the temporary mapping.\<close>

definition mem_same :: "u32 set \<Rightarrow> 'a paging_state_scheme \<Rightarrow> 'a paging_state_scheme \<Rightarrow> bool" where
  "mem_same F s s' \<longleftrightarrow> (\<forall>f. f \<notin> F \<and> \<not> (paging_on s \<and> f = temp_frame s) \<longrightarrow> pmem s' f = pmem s f)"

lemma mem_same_refl [simp]: "mem_same F s s"
  by (simp add: mem_same_def)

lemma mem_same_trans:
  assumes "mem_same F s s'" and "mem_same G s' s''" and "paging_on s' = paging_on s"
    and "paging_on s \<Longrightarrow> temp_frame s' = temp_frame s" and "F \<subseteq> H" and "G \<subseteq> H"
  shows "mem_same H s s''"
  using assms unfolding mem_same_def by (metis subsetD)

lemma slot_step_mem_same: "slot_step s s' \<Longrightarrow> mem_same F s s'"
  by (auto simp: mem_same_def slot_step_def)

text \<open>The page of \<open>v\<close> is mapped by the entry \<open>pte\<close> of the table \<open>T\<close> of the directory \<open>D\<close>.\<close>

definition maps_page ::
  "u32 set \<Rightarrow> u32 \<Rightarrow> addr \<Rightarrow> u32 \<Rightarrow> u32 \<Rightarrow> 'a paging_state_scheme \<Rightarrow> 'a paging_state_scheme \<Rightarrow> bool" where
  "maps_page DS D v T pte s s' \<longleftrightarrow> mm_ok DS s' \<and> same_cpu s s' \<and> error_list s' = error_list s \<and>
     error_descs s' = error_descs s \<and> bm_size (FRAME_BITMAP s') = bm_size (FRAME_BITMAP s) \<and>
     (\<forall>D' \<in> DS. \<forall>j. table s' D' j = (if D' = D \<and> j = pde_index v then Some T else table s D' j)) \<and>
     (\<forall>j < 1024. entry_at s' T j =
        (if j = pte_index v then Some pte else if table s D (pde_index v) = Some T then entry_at s T j else None)) \<and>
     mem_same {D, T} s s' \<and> frames_in_use s' = insert (unat T) (frames_in_use s) \<and>
     (table s D (pde_index v) = Some T \<or> table s D (pde_index v) = None \<and> unat T \<notin> frames_in_use s)"

lemma map_page_existing:
  assumes mm: "mm_ok DS s" and as: "as_ok DS s as" and T: "table s (dir_of s as) (pde_index v) = Some T"
    and al: "is_4kib_aligned p" "is_4kib_aligned v" and perm: "as = kernel_as s \<or> is_user_addr v"
    and i: "pde_index v < 1022" and free: "entry_at s T (pte_index v) = None"
  obtains s' where "map_page_in as p v flags s = Some (True, s')"
    and "maps_page DS (dir_of s as) v T (make_pte (garbage s) flags p) s s'"
proof -
  let ?D = "dir_of s as" and ?i = "pde_index v" and ?j = "pte_index v"
  let ?pte = "make_pte (garbage s) flags p"
  have D: "?D \<in> DS" using as by (simp add: as_ok_def)
  have i3: "?i < 1023" using i by (simp add: word_bounds)
  note Tok = tables_okD [OF mm_okD(2) [OF mm] D i3 T]
  obtain pd s1 where s1: "get_page_dir create_temp_mapping as s = Some (pd, s1)" "slot_step s s1"
    "reaches pd as s1" "paging_on s \<Longrightarrow> is_higher_half pd" using get_page_dir_ok [OF mm as] by blast
  note sel1 = same_cpu_sel [OF slot_step_same(1) [OF s1(2)]]
  note mm1 = slot_step_mm [OF mm s1(2)]
  have as1: "as_ok DS s1 as" and D1: "dir_of s1 as = ?D" using as sel1 by simp_all
  have T1: "table s1 (dir_of s1 as) ?i = Some T" using mm1(2) [OF D] T D1 by simp
  obtain pt s2 where s2: "get_page_table create_temp_mapping pd ?i s1 = Some (pt, s2)" "slot_step s1 s2"
    "window s2 pt T" using get_page_table_ok [OF mm1(1) as1 s1(3) T1 i] by blast
  have step: "slot_step s s2" using slot_step_trans [OF mm s1(2) s2(2)] .
  note mm2 = slot_step_mm [OF mm step] and same2 = slot_step_same [OF step]
  have tf: "paging_on s \<Longrightarrow> T \<noteq> temp_frame s" using temp_frame_not_table [OF mm _ D T i] by blast
  have memT: "pmem s2 T = pmem s T" using slot_step_mem_same [OF step, of "{}"] tf by (simp add: mem_same_def)
  have pde: "present (pmem s1 ?D ?i)" using T1 D1 by (simp add: table_Some)
  have "map_page_in as p v flags s = Some (True, upd T ?j ?pte s2)"
    using s1(1,4) s2(1) al perm pde free memT window_load [OF s2(3) index_bounds(2)] window_store [OF s2(3) index_bounds(2)]
      reaches_access(1) [OF mm1(1) as1 s1(3), of ?i] D1 sel1 same_cpu_sel(5) [OF same2(1)]
    by (auto simp: map_page_in_def map_page_with_def entry_at_None)
  moreover have "maps_page DS ?D v T ?pte s (upd T ?j ?pte s2)"
  proof -
    have "mm_ok DS (upd T ?j ?pte s2)" using mm2(1) Tok(1) by (simp add: upd_frame mm_ok_set_frame)
    moreover have "same_cpu s (upd T ?j ?pte s2)" using same2(1) same_cpu_upd(1) by (rule same_cpu_trans)
    moreover have "table (upd T ?j ?pte s2) D' k = (if D' = ?D \<and> k = ?i then Some T else table s D' k)"
      if "D' \<in> DS" for D' k using that Tok(1) mm2(2) [OF that] T by (auto simp: table_upd)
    moreover have "entry_at s2 T k = entry_at s T k" for k using memT by (rule entry_at_cong)
    moreover have "mem_same {?D, T} s (upd T ?j ?pte s2)"
      using slot_step_mem_same [OF step, of "{}"] by (auto simp: mem_same_def)
    ultimately show ?thesis
      using T Tok(2) same2 by (auto simp: maps_page_def entry_at_upd)
  qed
  ultimately show thesis by (rule that)
qed

text \<open>An address whose table is missing, up to the allocation.\<close>

lemma missing_table:
  assumes mm: "mm_ok DS s" and as: "as_ok DS s as" and none: "table s (dir_of s as) (pde_index v) = None"
    and returns: "alloc_frame s \<noteq> None"
  obtains pd s1 f s2 where "get_page_dir create_temp_mapping as s = Some (pd, s1)" and "slot_step s s1"
    and "reaches pd as s1" and "paging_on s1 \<Longrightarrow> is_higher_half pd" and "alloc_frame s1 = Some (f, s2)"
    and "load (entry_addr pd (pde_index v)) s1 = Some (pmem s1 (dir_of s as) (pde_index v))"
    and "\<not> present (pmem s1 (dir_of s as) (pde_index v))"
proof -
  let ?D = "dir_of s as" and ?i = "pde_index v"
  obtain pd s1 where s1: "get_page_dir create_temp_mapping as s = Some (pd, s1)" "slot_step s s1"
    "reaches pd as s1" "paging_on s \<Longrightarrow> is_higher_half pd" using get_page_dir_ok [OF mm as] by blast
  note sel1 = same_cpu_sel [OF slot_step_same(1) [OF s1(2)]]
  note mm1 = slot_step_mm [OF mm s1(2)]
  obtain f s2 where "alloc_frame s1 = Some (f, s2)" using alloc_frame_slot [OF mm s1(2)] returns by auto
  moreover have "?D \<in> DS" using as by (simp add: as_ok_def)
  then have "\<not> present (pmem s1 ?D ?i)" using none mm1(2) by (simp add: table_None [symmetric])
  ultimately show thesis
    using that [OF s1(1,2,3)] s1(4) sel1 reaches_access(1) [OF mm1(1) _ s1(3), of ?i] as by simp
qed

lemma map_page_full:
  assumes mm: "mm_ok DS s" and as: "as_ok DS s as" and none: "table s (dir_of s as) (pde_index v) = None"
    and al: "is_4kib_aligned p" "is_4kib_aligned v" and perm: "as = kernel_as s \<or> is_user_addr v"
    and out: "alloc_frame s \<noteq> None" "OOM_SIMULATION s \<or> frames_in_use s = {..<unat (bm_size (FRAME_BITMAP s))}"
    and report: "error_list s \<noteq> [] \<or> next_desc s"
  obtains s' where "map_page_in as p v flags s = Some (False, s')" and "mm_ok DS s'" and "same_cpu s s'"
    and "mem_same {} s s'" and "frames_in_use s' = frames_in_use s" and "error_list s' \<noteq> []"
    and "\<forall>D \<in> DS. \<forall>i. table s' D i = table s D i"
proof -
  obtain pd s1 f s2 where s1: "get_page_dir create_temp_mapping as s = Some (pd, s1)" "slot_step s s1"
    "reaches pd as s1" "paging_on s1 \<Longrightarrow> is_higher_half pd" "alloc_frame s1 = Some (f, s2)"
    "load (entry_addr pd (pde_index v)) s1 = Some (pmem s1 (dir_of s as) (pde_index v))"
    "\<not> present (pmem s1 (dir_of s as) (pde_index v))"
    using missing_table [OF mm as none out(1)] by blast
  note sel1 = same_cpu_sel [OF slot_step_same(1) [OF s1(2)]] and same1 = slot_step_same [OF s1(2)]
  note mm1 = slot_step_mm [OF mm s1(2)]
  note step = alloc_frame_step [OF mm_okD(1) [OF mm1(1)] s1(5)]
  have "f = NO_FRAME"
  proof (rule ccontr)
    assume f: "f \<noteq> NO_FRAME"
    have "frame_number f \<notin> frames_in_use s1" "frame_number f < unat (bm_size (FRAME_BITMAP s1))"
      using alloc_frame_got [OF mm_okD(1) [OF mm1(1)] s1(5) f] by simp_all
    moreover have "\<not> OOM_SIMULATION s1"
      using s1(5) f mm_okD(1) [OF mm1(1)] by (auto simp: alloc_frame_def do_allocation_locked wf_frames_def)
    ultimately show False using out(2) same1 sel1(11) by auto
  qed
  have el: "error_list s2 \<noteq> []"
    using step(5) [OF \<open>f = NO_FRAME\<close>] report same1 by (simp add: next_desc_def)
  then obtain s3 where s3: "set_error ENONE s2 = Some s3" "error_list s3 \<noteq> []"
    by (rule set_error_again)
  note fin = same_cpu_set_error [OF s3(1)]
  have same: "same_cpu s s3" using same_cpu_trans [OF same_cpu_trans [OF same1(1) step(1)] fin(1)] .
  have "pmem s3 = pmem s1" using step(2) fin(2) by simp
  then have tab: "table s3 D i = table s D i" if "D \<in> DS" for D i
    using mm1(2) [OF that, of i] by (metis table_cong)
  have use: "frames_in_use s3 = frames_in_use s" using step(5) [OF \<open>f = NO_FRAME\<close>] fin(4) same1(2) by simp
  have "mm_ok DS s3"
    by (rule mm_ok_same_tables [OF mm same])
      (use step(3) fin(3) tab use mm_okD(3) [OF mm] tables_okD(2) [OF mm_okD(2) [OF mm]] in auto)
  moreover have "mem_same {} s s3"
    using slot_step_mem_same [OF s1(2), of "{}"] \<open>pmem s3 = pmem s1\<close> by (simp add: mem_same_def)
  moreover have "map_page_in as p v flags s = Some (False, s3)"
    using s1 s3(1) al perm \<open>f = NO_FRAME\<close> by (auto simp: map_page_in_def map_page_with_def)
  ultimately show thesis using that same use s3(2) tab by blast
qed

text \<open>A fresh page table is entered in the directory.\<close>

definition new_pde :: "'a paging_state_scheme \<Rightarrow> u32 \<Rightarrow> addr \<Rightarrow> u32" where
  "new_pde s flags f = make_pde (garbage s AND 0xFC0) True (flags AND VM_USER \<noteq> 0) False False (drop_bit 12 f)"

lemma new_pde_entry [simp]: "present (new_pde s flags f)" "entry_frame (new_pde s flags f) = drop_bit 12 f"
proof -
  have "(garbage s AND 0xFC0) AND 0xFFF = garbage s AND 0xFC0" by (simp add: and.assoc)
  from make_pde_entry [OF this] show "present (new_pde s flags f)" "entry_frame (new_pde s flags f) = drop_bit 12 f"
    by (simp_all add: new_pde_def)
qed

lemma enter_table:
  assumes mm: "mm_ok DS s" and as: "as_ok DS s as" and pd: "reaches pd as s" and i: "i < 1022"
    and alloc: "alloc_frame s = Some (f, s1)" "f \<noteq> NO_FRAME"
  obtains s2 where "store (entry_addr pd i) (new_pde s1 flags f) s1 = Some s2" and "mm_ok DS s2" and "same_cpu s s2"
    and "\<And>D' j. D' \<in> DS \<Longrightarrow>
      table s2 D' j = (if D' = dir_of s as \<and> j = i then Some (drop_bit 12 f) else table s D' j)"
    and "reaches pd as s2" and "mem_same {dir_of s as} s s2" and "error_list s2 = error_list s"
    and "frames_in_use s2 = insert (unat (drop_bit 12 f)) (frames_in_use s)"
    and "paging_on s \<Longrightarrow> temp_frame s2 = temp_frame s"
    and "bm_size (FRAME_BITMAP s2) = bm_size (FRAME_BITMAP s)" and "error_descs s2 = error_descs s"
proof -
  let ?D = "dir_of s as"
  define s2 where "s2 = upd ?D i (new_pde s1 flags f) s1"
  have D: "?D \<in> DS" using as by (simp add: as_ok_def)
  have ib: "i < 1024" "i \<noteq> 1022" using i by (auto simp: word_bounds)
  note step = alloc_frame_step [OF mm_okD(1) [OF mm] alloc(1)]
  note fresh = step(4) [OF alloc(2)]
  note sel = same_cpu_sel [OF step(1)] and cong = mem_cong [OF step(1,2)]
  have mm1: "mm_ok DS s1"
    by (rule mm_ok_same_tables [OF mm step(1,3)])
      (use fresh cong(3) mm_okD(3) [OF mm] tables_okD(2) [OF mm_okD(2) [OF mm]] in auto)
  have run: "store (entry_addr pd i) (new_pde s1 flags f) s1 = Some s2"
    unfolding s2_def using reaches_access(2) [OF mm1, of as pd i] as pd ib(1) sel cong by metis
  have same: "same_cpu s s2" unfolding s2_def using step(1) same_cpu_upd(1) by (rule same_cpu_trans)
  have tab: "table s2 D' j = (if D' = ?D \<and> j = i then Some (drop_bit 12 f) else table s D' j)" for D' j
    by (simp add: s2_def table_upd cong(3))
  have use: "frames_in_use s2 = insert (unat (drop_bit 12 f)) (frames_in_use s)"
    using fresh by (simp add: s2_def)
  have mm2: "mm_ok DS s2"
    by (rule mm_ok_add_table [OF mm same _ use _ D i]) (use step(3) fresh tab in \<open>auto simp: s2_def\<close>)
  have tf: "temp_frame s2 = temp_frame s" using ib(2) cong(1) sel(4)
    by (auto simp: s2_def temp_frame_def step(2))
  have reach: "reaches pd as s2"
  proof (cases "paging_on s")
    case True
    then have "?D \<noteq> temp_frame s" using mm_paged(4) [OF mm True] D by metis
    then show ?thesis
      using pd True tab tf same_cpu_sel [OF same] by (simp add: reaches_def)
  qed (use pd same_cpu_sel [OF same] in \<open>simp add: reaches_def\<close>)
  have "mem_same {?D} s s2" by (simp add: mem_same_def s2_def step(2))
  with run mm2 same tab reach use tf fresh step(6) show thesis by (intro that [of s2]) (auto simp: s2_def)
qed

lemma map_page_new:
  assumes mm: "mm_ok DS s" and as: "as_ok DS s as" and none: "table s (dir_of s as) (pde_index v) = None"
    and al: "is_4kib_aligned p" "is_4kib_aligned v" and perm: "as = kernel_as s \<or> is_user_addr v"
    and i: "pde_index v < 1022" and returns: "alloc_frame s \<noteq> None"
    and more: "\<not> OOM_SIMULATION s" "frames_in_use s \<noteq> {..<unat (bm_size (FRAME_BITMAP s))}"
  obtains s' T where "map_page_in as p v flags s = Some (True, s')"
    and "maps_page DS (dir_of s as) v T (make_pte (garbage s) flags p) s s'"
proof -
  let ?D = "dir_of s as" and ?i = "pde_index v" and ?j = "pte_index v"
  let ?pte = "make_pte (garbage s) flags p"
  obtain pd s1 f s2 where s1: "get_page_dir create_temp_mapping as s = Some (pd, s1)" "slot_step s s1"
    "reaches pd as s1" "paging_on s1 \<Longrightarrow> is_higher_half pd" "alloc_frame s1 = Some (f, s2)"
    "load (entry_addr pd ?i) s1 = Some (pmem s1 ?D ?i)" "\<not> present (pmem s1 ?D ?i)"
    using missing_table [OF mm as none returns] by blast
  note sel1 = same_cpu_sel [OF slot_step_same(1) [OF s1(2)]] and same1 = slot_step_same [OF s1(2)]
  note mm1 = slot_step_mm [OF mm s1(2)]
  have as1: "as_ok DS s1 as" and D1: "dir_of s1 as = ?D" and D: "?D \<in> DS"
    using as sel1 by (simp_all add: as_ok_def)
  have f: "f \<noteq> NO_FRAME"
    using alloc_frame_none [OF mm_okD(1) [OF mm1(1)]] s1(5) more same1 sel1(11) by metis
  let ?T = "drop_bit 12 f"
  have fresh: "unat ?T \<notin> frames_in_use s"
    using alloc_frame_step(4) [OF mm_okD(1) [OF mm1(1)] s1(5) f] same1(2) by simp
  obtain s3 where s3: "store (entry_addr pd ?i) (new_pde s2 flags f) s2 = Some s3" "mm_ok DS s3" "same_cpu s1 s3"
    "\<And>D' j. D' \<in> DS \<Longrightarrow> table s3 D' j = (if D' = ?D \<and> j = ?i then Some ?T else table s1 D' j)"
    "reaches pd as s3" "mem_same {?D} s1 s3" "error_list s3 = error_list s1"
    "frames_in_use s3 = insert (unat ?T) (frames_in_use s1)" "paging_on s1 \<Longrightarrow> temp_frame s3 = temp_frame s1"
    "bm_size (FRAME_BITMAP s3) = bm_size (FRAME_BITMAP s1)" "error_descs s3 = error_descs s1"
    using enter_table [OF mm1(1) as1 s1(3) i s1(5) f] D1 by metis
  note sel3 = same_cpu_sel [OF s3(3)]
  have as3: "as_ok DS s3 as" and T3: "table s3 (dir_of s3 as) ?i = Some ?T" using as1 sel3 D1 s3(4) D by simp_all
  obtain pt s4 where s4: "get_page_table create_temp_mapping pd ?i s3 = Some (pt, s4)" "slot_step s3 s4"
    "window s4 pt ?T" using get_page_table_ok [OF s3(2) as3 s3(5) T3 i] by blast
  note mm4 = slot_step_mm [OF s3(2) s4(2)] and same4 = slot_step_same [OF s4(2)]
  define s5 where "s5 = set_frame ?T (\<lambda>k. if k < 1024 then 0 else pmem s4 ?T k) s4"
  have win5: "window s5 pt ?T" using s4(3) by (simp add: s5_def)
  have g: "garbage s5 = garbage s" using sel1 sel3 same_cpu_sel [OF same4(1)] by (simp add: s5_def)
  have "map_page_in as p v flags s = Some (True, upd ?T ?j ?pte s5)"
    using s1 s3(1) s4(1) al perm f memzero_page_window [OF s4(3)] window_load [OF win5 index_bounds(2), of v]
      window_store [OF win5 index_bounds(2)] g
    by (auto simp: map_page_in_def map_page_with_def new_pde_def [symmetric] s5_def [symmetric])
      (auto simp: s5_def)
  moreover have "maps_page DS ?D v ?T ?pte s (upd ?T ?j ?pte s5)"
  proof -
    have TD: "?T \<notin> DS" using fresh mm_okD(3) [OF mm] by blast
    have same: "same_cpu s (upd ?T ?j ?pte s5)"
      using same_cpu_trans [OF same_cpu_trans [OF same_cpu_trans [OF same1(1) s3(3)] same4(1)] same_cpu_upd(2)]
      by (simp add: s5_def)
    have "mm_ok DS (upd ?T ?j ?pte s5)" using mm4(1) TD by (simp add: s5_def mm_ok_set_frame)
    moreover have "table (upd ?T ?j ?pte s5) D' k = (if D' = ?D \<and> k = ?i then Some ?T else table s D' k)"
      if "D' \<in> DS" for D' k
    proof -
      have "D' \<noteq> ?T" using TD that by metis
      then show ?thesis using mm4(2) [OF that] s3(4) [OF that] mm1(2) [OF that] by (simp add: s5_def table_upd)
    qed
    moreover have "entry_at (upd ?T ?j ?pte s5) ?T k = (if k = ?j then Some ?pte else None)" if "k < 1024" for k
      using that by (simp add: entry_at_upd s5_def entry_at_set_frame)
    moreover have "mem_same {?D, ?T} s (upd ?T ?j ?pte s5)"
      using slot_step_mem_same [OF s1(2), of "{}"] s3(6,9) slot_step_mem_same [OF s4(2), of "{}"] mm1(3) sel1(1) sel3(1)
      unfolding mem_same_def s5_def by auto
    moreover have "unat ?T \<notin> frames_in_use s" by (rule fresh)
    ultimately show ?thesis
      using none same s3(7,8,10,11) same1 same4 by (auto simp: maps_page_def s5_def)
  qed
  ultimately show thesis by (rule that)
qed

lemma maps_page_view:
  assumes mm: "mm_ok DS s" and maps: "maps_page DS D v T pte s s'" and D: "D \<in> DS" "D' \<in> DS"
    and i: "pde_index v < 1022" "pde_index v' < 1022"
  shows "page_entry s' D' v' =
    (if table s' D' (pde_index v') = Some T \<and> pte_index v' = pte_index v then Some pte else page_entry s D' v')"
proof (cases "table s' D' (pde_index v')")
  case None
  then have "table s D' (pde_index v') = None" using maps D(2) by (auto simp: maps_page_def split: if_splits)
  with None show ?thesis by (simp add: page_entry_def)
next
  case (Some T')
  have tab: "table s' D' (pde_index v') = (if D' = D \<and> pde_index v' = pde_index v then Some T else table s D' (pde_index v'))"
    using maps D(2) by (simp add: maps_page_def)
  have was: "table s D (pde_index v) = Some T \<or> table s D (pde_index v) = None \<and> unat T \<notin> frames_in_use s"
    and at: "entry_at s' T (pte_index v') = (if pte_index v' = pte_index v then Some pte
      else if table s D (pde_index v) = Some T then entry_at s T (pte_index v') else None)"
    using maps by (simp_all add: maps_page_def)
  show ?thesis
  proof (cases "T' = T")
    case True
    show ?thesis
    proof (cases "D' = D \<and> pde_index v' = pde_index v")
      case True
      with \<open>T' = T\<close> Some was at show ?thesis by (auto simp: page_entry_def)
    next
      case False
      then have "table s D' (pde_index v') = Some T" using tab Some True by (simp split: if_splits)
      moreover from this have "unat T \<in> frames_in_use s"
        using tables_okD(2) [OF mm_okD(2) [OF mm] D(2) below_special(1) [OF i(2)]] by blast
      ultimately show ?thesis using was at Some True by (auto simp: page_entry_def)
    qed
  next
    case False
    then have T': "table s D' (pde_index v') = Some T'" using tab Some by (metis option.inject)
    have "pde_index v' < 1023" using i(2) by (simp add: word_bounds)
    then have "T' \<notin> DS" using tables_okD(1) [OF mm_okD(2) [OF mm] D(2) _ T'] by blast
    moreover have "\<not> (paging_on s \<and> T' = temp_frame s)" using temp_frame_not_table [OF mm _ D(2) T' i(2)] by blast
    moreover have "mem_same {D, T} s s'" using maps by (simp add: maps_page_def)
    ultimately have "pmem s' T' = pmem s T'" using False D(1) unfolding mem_same_def by auto
    then show ?thesis using Some T' False entry_at_cong [of s' T' s] by (simp add: page_entry_def)
  qed
qed

subsection \<open>Unmapping a page\<close>

lemma window_cong:
  assumes "same_cpu s s'" and "pmem s' = pmem s" and "window s page f"
  shows "window s' page f"
proof -
  have "walk (set_frame f g s') v = walk (set_frame f g s) v" for g v
    using same_cpu_sel(1,2) [OF assms(1)] assms(2) by (simp add: walk_def Let_def cong: if_cong)
  then show ?thesis using assms(3) by (simp add: window_def)
qed

lemma mm_ok_drop_table:
  assumes mm: "mm_ok DS s" and same: "same_cpu s s'" and wf: "wf_frames s'"
    and D: "D \<in> DS" and i: "i < 1022" and T: "table s D i = Some T"
    and priv: "\<And>D'. D' \<in> DS \<Longrightarrow> D' \<noteq> D \<Longrightarrow> table s D' i \<noteq> Some T"
    and use: "frames_in_use s' = frames_in_use s - {unat T}"
    and tab: "\<And>D' j. D' \<in> DS \<Longrightarrow> table s' D' j = (if D' = D \<and> j = i then None else table s D' j)"
  shows "mm_ok DS s'"
proof -
  note ok = mm_okD [OF mm]
  note old = tables_okD [OF ok(2)]
  have i3: "i < 1023" using i by (simp add: word_bounds)
  have was: "table s D' j = Some T'" "T' \<noteq> T" if "D' \<in> DS" "j < 1023" "table s' D' j = Some T'" for D' j T'
  proof -
    show *: "table s D' j = Some T'" using that tab by (metis option.distinct(1))
    show "T' \<noteq> T"
    proof
      assume "T' = T"
      then have "j = i" using old(3) [OF that(1,2) * D i3] T by blast
      then show False using priv that tab * \<open>T' = T\<close> by (metis option.distinct(1))
    qed
  qed
  have "tables_ok DS s'"
  proof (rule tables_okI)
    have "T \<notin> DS" using old(1) [OF D i3 T] .
    then show "unat ` DS \<subseteq> frames_in_use s'" using ok(3) use by (auto simp: word_unat_eq_iff [symmetric])
    fix D1 i1 T1
    assume a: "D1 \<in> DS" "i1 < 1023" "table s' D1 i1 = Some T1"
    note w = was [OF a]
    show "T1 \<notin> DS" using old(1) [OF a(1,2) w(1)] .
    show "unat T1 \<in> frames_in_use s'" using old(2) [OF a(1,2) w(1)] w(2) use by (simp add: word_unat_eq_iff [symmetric])
    show "i1 = i2 \<and> (D1 = D2 \<or> 768 \<le> i1)" if b: "D2 \<in> DS" "i2 < 1023" "table s' D2 i2 = Some T1" for D2 i2
      using old(3) [OF a(1,2) w(1) b(1,2)] was(1) [OF b] by blast
  qed
  moreover have "paged_ok DS s'" if "paging_on s"
    by (rule paged_ok_same [OF _ same]) (use that mm tab i in \<open>auto simp: mm_ok_def\<close>)
  ultimately show ?thesis using wf same_cpu_sel(1) [OF same] by (simp add: mm_ok_def)
qed

text \<open>The page of \<open>v\<close> is unmapped; its table goes too when it was the last page of the table.\<close>

definition last_page :: "'a paging_state_scheme \<Rightarrow> u32 \<Rightarrow> addr \<Rightarrow> bool" where
  "last_page s T v \<longleftrightarrow> (\<forall>k < 1024. k \<noteq> pte_index v \<longrightarrow> entry_at s T k = None)"

definition unmaps_page ::
  "u32 set \<Rightarrow> u32 \<Rightarrow> addr \<Rightarrow> u32 \<Rightarrow> nat set \<Rightarrow> 'a paging_state_scheme \<Rightarrow> 'a paging_state_scheme \<Rightarrow> bool" where
  "unmaps_page DS D v T freed s s' \<longleftrightarrow> mm_ok DS s' \<and> same_cpu s s' \<and> error_list s' = error_list s \<and>
     (\<forall>D' \<in> DS. \<forall>j. table s' D' j = (if last_page s T v \<and> D' = D \<and> j = pde_index v then None else table s D' j)) \<and>
     (\<forall>j < 1024. entry_at s' T j = (if j = pte_index v then None else entry_at s T j)) \<and>
     mem_same {D, T} s s' \<and>
     frames_in_use s' = frames_in_use s - freed - (if last_page s T v then {unat T} else {})"

text \<open>The frames that unmapping may free: they are in use, and no page table and no directory.\<close>

definition data_frame :: "u32 set \<Rightarrow> 'a paging_state_scheme \<Rightarrow> u32 \<Rightarrow> bool" where
  "data_frame DS s f \<longleftrightarrow> unat f \<in> frames_in_use s \<and> f \<notin> DS \<and> (\<forall>D \<in> DS. \<forall>i < 1023. table s D i \<noteq> Some f)"

lemma mm_ok_free_data:
  assumes mm: "mm_ok DS s" and f: "data_frame DS s f" and same: "same_cpu s s'" "pmem s' = pmem s"
    and wf: "wf_frames s'" and use: "frames_in_use s' = frames_in_use s - {unat f}"
  shows "mm_ok DS s'"
proof (rule mm_ok_same_tables [OF mm same(1) wf])
  show "\<forall>D \<in> DS. \<forall>i. table s' D i = table s D i" using mem_cong(3) [OF same] by blast
  show "\<forall>D \<in> DS. \<forall>i < 1023. \<forall>T. table s D i = Some T \<longrightarrow> unat T \<in> frames_in_use s'"
    using tables_okD(2) [OF mm_okD(2) [OF mm]] f use by (auto simp: data_frame_def word_unat_eq_iff [symmetric])
  show "unat ` DS \<subseteq> frames_in_use s'" using mm_okD(3) [OF mm] f use by (auto simp: data_frame_def word_unat_eq_iff [symmetric])
qed

lemma unmap_free_step:
  assumes mm: "mm_ok DS s" and f: "free \<Longrightarrow> data_frame DS s (entry_frame e)"
  obtains s' where "(if free then free_frame (push_bit 12 (entry_frame e)) s else Some s) = Some s'"
    and "mm_ok DS s'" and "same_cpu s s'" and "pmem s' = pmem s" and "error_list s' = error_list s"
    and "frames_in_use s' = frames_in_use s - (if free then {unat (entry_frame e)} else {})"
proof (cases free)
  case True
  note f = f [OF True]
  obtain s' where s': "free_frame (push_bit 12 (entry_frame e)) s = Some s'" "same_cpu s s'" "pmem s' = pmem s"
    "wf_frames s'" "frames_in_use s' = frames_in_use s - {unat (entry_frame e)}" "error_list s' = error_list s"
    using free_frame_step [OF mm_okD(1) [OF mm] _ entry_frame_def [of e]] f unfolding data_frame_def by metis
  show thesis
    by (rule that [of s']) (use s' mm_ok_free_data [OF mm f s'(2-5)] True in simp_all)
qed (use mm that [of s] in simp)

text \<open>The end of \<open>unmap_page_in\<close>: the empty table is taken out of the directory and freed.\<close>

definition drop_table :: "addr \<Rightarrow> u32 \<Rightarrow> 'a paging_state_scheme \<Rightarrow> 'a paging_state_scheme option" where
  "drop_table as i s = do {
     (page_dir, s) \<leftarrow> get_page_dir create_temp_mapping as s;
     pde \<leftarrow> load (entry_addr page_dir i) s;
     s \<leftarrow> store (entry_addr page_dir i) (clear_present pde) s;
     pde \<leftarrow> load (entry_addr page_dir i) s;
     free_frame (push_bit 12 (entry_frame pde)) s }"

lemma reaches_upd:
  assumes mm: "mm_ok DS s" and as: "as_ok DS s as" and pd: "reaches pd as s" and i: "i \<noteq> 1022"
  shows "reaches pd as (upd (dir_of s as) i x s)" "temp_frame (upd (dir_of s as) i x s) = temp_frame s"
proof -
  show tf: "temp_frame (upd (dir_of s as) i x s) = temp_frame s" using i by (auto simp: temp_frame_def)
  show "reaches pd as (upd (dir_of s as) i x s)"
  proof (cases "paging_on s")
    case True
    have "dir_of s as \<noteq> temp_frame s" using mm_paged(4) [OF mm True] as unfolding as_ok_def by metis
    then show ?thesis using pd True tf by (simp add: reaches_def table_upd)
  qed (use pd in \<open>simp add: reaches_def\<close>)
qed

lemma load_back:
  assumes mm: "mm_ok DS s" and as: "as_ok DS s as" and pd: "reaches pd as s" and i: "i < 1022"
  shows "load (entry_addr pd i) (upd (dir_of s as) i x s) = Some x"
proof (cases "paging_on s \<and> get_curr_addr_space s = as")
  case True
  note d = mm_paged [OF mm conjunct1 [OF True]]
  have "dir_of s as = top_dir s" using current_dir [OF mm] True by auto
  moreover have "i \<noteq> 1023" using i by auto
  ultimately show ?thesis
    using recursive_dir(1) [of "upd (dir_of s as) i x s" i] d(1,2) True pd below_special(2) [OF i]
    by (simp add: reaches_def table_upd)
next
  case False
  then have "window s pd (dir_of s as)" using dir_window [OF mm as pd] by blast
  then show ?thesis
    using below_special(2) [OF i] window_load [of "upd (dir_of s as) i x s" pd "dir_of s as" i] by simp
qed

lemma drop_table_run:
  assumes mm: "mm_ok DS s" and as: "as_ok DS s as" and T: "table s (dir_of s as) i = Some T" and i: "i < 1022"
  obtains s' where "drop_table as i s = Some s'" and "same_cpu s s'" and "wf_frames s'"
    and "\<And>D' j. D' \<in> DS \<Longrightarrow> table s' D' j = (if D' = dir_of s as \<and> j = i then None else table s D' j)"
    and "mem_same {dir_of s as} s s'" and "frames_in_use s' = frames_in_use s - {unat T}"
    and "error_list s' = error_list s"
proof -
  let ?D = "dir_of s as"
  have D: "?D \<in> DS" using as by (simp add: as_ok_def)
  obtain pd s1 where s1: "get_page_dir create_temp_mapping as s = Some (pd, s1)" "slot_step s s1"
    "reaches pd as s1" using get_page_dir_ok [OF mm as] by blast
  note sel1 = same_cpu_sel [OF slot_step_same(1) [OF s1(2)]] and same1 = slot_step_same [OF s1(2)]
  note mm1 = slot_step_mm [OF mm s1(2)]
  have as1: "as_ok DS s1 as" and D1: "dir_of s1 as = ?D" using as sel1 by simp_all
  define e where "e = pmem s1 ?D i"
  define s2 where "s2 = upd ?D i (clear_present e) s1"
  have "table s1 ?D i = Some T" using T mm1(2) [OF D, of i] by simp
  then have e: "present e" "T = entry_frame e" by (simp_all add: e_def table_Some)
  note access = reaches_access [OF mm1(1) as1 s1(3) below_special(2) [OF i]]
  have use2: "unat T \<in> frames_in_use s2"
    using tables_okD(2) [OF mm_okD(2) [OF mm] D below_special(1) [OF i] T] same1(2) by (simp add: s2_def)
  have wf2: "wf_frames s2" using mm_okD(1) [OF mm1(1)] by (simp add: s2_def)
  obtain s3 where s3: "free_frame (push_bit 12 T) s2 = Some s3" "same_cpu s2 s3" "pmem s3 = pmem s2"
    "wf_frames s3" "frames_in_use s3 = frames_in_use s2 - {unat T}" "error_list s3 = error_list s2"
    using free_frame_step [OF wf2 use2 e(2) [unfolded entry_frame_def]] by metis
  have run: "drop_table as i s = Some s3"
    using s1(1) access load_back [OF mm1(1) as1 s1(3) i] s3(1) e
    by (simp add: drop_table_def D1 e_def [symmetric]) (simp add: s2_def)
  have tab: "table s3 D' j = (if D' = ?D \<and> j = i then None else table s D' j)" if "D' \<in> DS" for D' j
    using mem_cong(3) [OF s3(2,3)] mm1(2) [OF that] by (simp add: s2_def table_upd)
  have same: "same_cpu s s3"
    using same_cpu_trans [OF same_cpu_trans [OF same1(1) same_cpu_upd(1)] s3(2) [unfolded s2_def]] .
  have use: "frames_in_use s3 = frames_in_use s - {unat T}" using s3(5) same1(2) by (simp add: s2_def)
  have "mem_same {?D} s s3"
    using slot_step_mem_same [OF s1(2), of "{}"] by (simp add: mem_same_def s3(3)) (simp add: s2_def)
  moreover have "error_list s3 = error_list s" using s3(6) same1(6) by (simp add: s2_def)
  ultimately show thesis using that [OF run same s3(4) tab _ use] by blast
qed

lemma drop_table_ok:
  assumes mm: "mm_ok DS s" and as: "as_ok DS s as" and T: "table s (dir_of s as) i = Some T" and i: "i < 1022"
    and priv: "\<And>D'. D' \<in> DS \<Longrightarrow> D' \<noteq> dir_of s as \<Longrightarrow> table s D' i \<noteq> Some T"
  obtains s' where "drop_table as i s = Some s'" and "mm_ok DS s'" and "same_cpu s s'"
    and "\<And>D' j. D' \<in> DS \<Longrightarrow> table s' D' j = (if D' = dir_of s as \<and> j = i then None else table s D' j)"
    and "mem_same {dir_of s as} s s'" and "frames_in_use s' = frames_in_use s - {unat T}"
    and "error_list s' = error_list s"
proof -
  have D: "dir_of s as \<in> DS" using as by (simp add: as_ok_def)
  obtain s' where s': "drop_table as i s = Some s'" "same_cpu s s'" "wf_frames s'"
    "\<And>D' j. D' \<in> DS \<Longrightarrow> table s' D' j = (if D' = dir_of s as \<and> j = i then None else table s D' j)"
    "mem_same {dir_of s as} s s'" "frames_in_use s' = frames_in_use s - {unat T}" "error_list s' = error_list s"
    using drop_table_run [OF mm as T i] by metis
  have "mm_ok DS s'"
    by (rule mm_ok_drop_table [OF mm s'(2,3) D i T _ s'(6) s'(4)]) (use priv in auto)
  from that [OF s'(1) this s'(2) s'(4-7)] show thesis by blast
qed

lemma clear_entry:
  assumes mm: "mm_ok DS s" and as: "as_ok DS s as" and T: "table s (dir_of s as) (pde_index v) = Some T"
    and e: "entry_at s T (pte_index v) = Some e" and i: "pde_index v < 1022"
    and f: "free \<Longrightarrow> data_frame DS s (entry_frame e)"
    and al: "is_4kib_aligned v" and perm: "as = kernel_as s \<or> is_user_addr v"
  obtains s' where "unmap_page_in as v free s = (if last_page s T v then drop_table as (pde_index v) s' else Some s')"
    and "mm_ok DS s'" and "same_cpu s s'" and "mem_same {T} s s'" and "pmem s' T = (pmem s T)(pte_index v := 0)"
    and "\<And>D j. D \<in> DS \<Longrightarrow> table s' D j = table s D j" and "error_list s' = error_list s"
    and "frames_in_use s' = frames_in_use s - (if free then {unat (entry_frame e)} else {})"
proof -
  let ?D = "dir_of s as" and ?i = "pde_index v" and ?j = "pte_index v"
  have D: "?D \<in> DS" using as by (simp add: as_ok_def)
  obtain pd s1 where s1: "get_page_dir create_temp_mapping as s = Some (pd, s1)" "slot_step s s1"
    "reaches pd as s1" using get_page_dir_ok [OF mm as] by blast
  note sel1 = same_cpu_sel [OF slot_step_same(1) [OF s1(2)]] and mm1 = slot_step_mm [OF mm s1(2)]
  have as1: "as_ok DS s1 as" and D1: "dir_of s1 as = ?D" using as sel1 by simp_all
  have T1: "table s1 (dir_of s1 as) ?i = Some T" using mm1(2) [OF D] T D1 by simp
  obtain pt s2 where s2: "get_page_table create_temp_mapping pd ?i s1 = Some (pt, s2)" "slot_step s1 s2"
    "window s2 pt T" using get_page_table_ok [OF mm1(1) as1 s1(3) T1 i] by blast
  have step: "slot_step s s2" using slot_step_trans [OF mm s1(2) s2(2)] .
  note mm2 = slot_step_mm [OF mm step] and same2 = slot_step_same [OF step]
  have tf: "paging_on s \<Longrightarrow> T \<noteq> temp_frame s" using temp_frame_not_table [OF mm _ D T i] by blast
  have memT: "pmem s2 T = pmem s T" using slot_step_mem_same [OF step, of "{}"] tf by (simp add: mem_same_def)
  have f2: "data_frame DS s2 (entry_frame e)" if free
    using f [OF that] same2(2) mm2(2) by (simp add: data_frame_def)
  obtain s3 where s3: "(if free then free_frame (push_bit 12 (entry_frame e)) s2 else Some s2) = Some s3"
    "mm_ok DS s3" "same_cpu s2 s3" "pmem s3 = pmem s2" "error_list s3 = error_list s2"
    "frames_in_use s3 = frames_in_use s2 - (if free then {unat (entry_frame e)} else {})"
    using unmap_free_step [OF mm2(1) f2] by blast
  define s4 where "s4 = upd T ?j 0 s3"
  have win3: "window s3 pt T" using window_cong [OF s3(3,4) s2(3)] .
  then have win4: "window s4 pt T" by (simp add: s4_def)
  have notD: "T \<notin> DS" using tables_okD(1) [OF mm_okD(2) [OF mm] D below_special(1) [OF i] T] .
  have empty: "page_table_is_empty pt s4 = Some (last_page s T v)"
    using page_table_is_empty_window [OF win4] memT s3(4)
    by (auto simp: s4_def last_page_def entry_at_None)
  have pde: "load (entry_addr pd ?i) s1 = Some (pmem s1 ?D ?i)" "present (pmem s1 ?D ?i)"
    using reaches_access(1) [OF mm1(1) as1 s1(3) below_special(2) [OF i]] D1 T1 by (simp_all add: table_Some)
  have pte: "load (entry_addr pt ?j) s2 = Some e" "present e"
    using window_load [OF s2(3) index_bounds(2)] memT e by (simp_all add: entry_at_Some)
  have "unmap_page_in as v free s = (if last_page s T v then drop_table as ?i s4 else Some s4)"
    using s1(1) s2(1) s3(1) al perm pde pte window_store [OF win3 index_bounds(2), of v 0] empty
    by (auto simp: unmap_page_in_def s4_def [symmetric] drop_table_def Let_def)
  moreover have "mm_ok DS s4" using s3(2) notD by (simp add: s4_def upd_frame mm_ok_set_frame)
  moreover have "same_cpu s s4"
    unfolding s4_def using same_cpu_trans [OF same_cpu_trans [OF same2(1) s3(3)] same_cpu_upd(1)] .
  moreover have "mem_same {T} s s4"
    using slot_step_mem_same [OF step, of "{}"] s3(4) by (simp add: mem_same_def s4_def)
  moreover have "table s4 D' j = table s D' j" if "D' \<in> DS" for D' j
  proof -
    have "D' \<noteq> T" using notD that by metis
    then show ?thesis using mem_cong(3) [OF s3(3,4)] mm2(2) [OF that] by (simp add: s4_def table_upd)
  qed
  ultimately show thesis
    using that [of s4] memT s3(4-6) same2 by (simp add: s4_def)
qed

lemma unmap_page_ok:
  assumes mm: "mm_ok DS s" and as: "as_ok DS s as" and T: "table s (dir_of s as) (pde_index v) = Some T"
    and e: "entry_at s T (pte_index v) = Some e" and i: "pde_index v < 1022"
    and f: "free \<Longrightarrow> data_frame DS s (entry_frame e)"
    and al: "is_4kib_aligned v" and perm: "as = kernel_as s \<or> is_user_addr v"
    and priv: "\<And>D'. last_page s T v \<Longrightarrow> D' \<in> DS \<Longrightarrow> D' \<noteq> dir_of s as \<Longrightarrow> table s D' (pde_index v) \<noteq> Some T"
  obtains s' where "unmap_page_in as v free s = Some s'"
    and "unmaps_page DS (dir_of s as) v T (if free then {unat (entry_frame e)} else {}) s s'"
proof -
  let ?D = "dir_of s as"
  obtain s1 where s1: "unmap_page_in as v free s = (if last_page s T v then drop_table as (pde_index v) s1 else Some s1)"
    "mm_ok DS s1" "same_cpu s s1" "mem_same {T} s s1" "pmem s1 T = (pmem s T)(pte_index v := 0)"
    "\<And>D j. D \<in> DS \<Longrightarrow> table s1 D j = table s D j" "error_list s1 = error_list s"
    "frames_in_use s1 = frames_in_use s - (if free then {unat (entry_frame e)} else {})"
    using clear_entry [OF mm as T e i f al perm] by blast
  have D: "?D \<in> DS" using as by (simp add: as_ok_def)
  have at: "entry_at s1 T j = (if j = pte_index v then None else entry_at s T j)" for j
    using s1(5) by (simp add: entry_at_def)
  have weaken: "mem_same {?D, T} s s1" using s1(4) by (auto simp: mem_same_def)
  show thesis
  proof (cases "last_page s T v")
    case False
    then have "unmaps_page DS ?D v T (if free then {unat (entry_frame e)} else {}) s s1"
      using s1 at weaken by (simp add: unmaps_page_def)
    with False s1(1) show thesis by (intro that [of s1]) simp_all
  next
    case True
    note sel1 = same_cpu_sel [OF s1(3)]
    have as1: "as_ok DS s1 as" and D1: "dir_of s1 as = ?D" using as sel1 by simp_all
    have T1: "table s1 (dir_of s1 as) (pde_index v) = Some T" using s1(6) [OF D] T D1 by simp
    obtain s2 where s2: "drop_table as (pde_index v) s1 = Some s2" "mm_ok DS s2" "same_cpu s1 s2"
      "\<And>D' j. D' \<in> DS \<Longrightarrow> table s2 D' j = (if D' = ?D \<and> j = pde_index v then None else table s1 D' j)"
      "mem_same {?D} s1 s2" "frames_in_use s2 = frames_in_use s1 - {unat T}" "error_list s2 = error_list s1"
      using drop_table_ok [OF s1(2) as1 T1 i] priv [OF True] s1(6) D1 by metis
    have tf: "temp_frame s1 = temp_frame s" if "paging_on s"
      using mm_paged(3) [OF mm that D] mm_paged(3) [OF s1(2) _ D] s1(6) [OF D] that sel1(1) by simp
    have notT: "T \<noteq> ?D" "paging_on s \<Longrightarrow> T \<noteq> temp_frame s"
      using tables_okD(1) [OF mm_okD(2) [OF mm] D below_special(1) [OF i] T] D temp_frame_not_table [OF mm _ D T i] by auto
    then have "pmem s2 T = pmem s1 T" using s2(5) tf sel1(1) by (auto simp: mem_same_def)
    then have "entry_at s2 T j = (if j = pte_index v then None else entry_at s T j)" for j
      using at [of j] entry_at_cong [of s2 T s1 j] by simp
    moreover have "mem_same {?D, T} s s2"
      using mem_same_trans [OF s1(4) s2(5) sel1(1) tf, of "{?D, T}"] by simp
    moreover have "same_cpu s s2" using s1(3) s2(3) by (rule same_cpu_trans)
    ultimately have "unmaps_page DS ?D v T (if free then {unat (entry_frame e)} else {}) s s2"
      using s1 s2 True by (simp add: unmaps_page_def)
    with True s1(1) s2(1) show thesis by (intro that [of s2]) simp_all
  qed
qed

lemma unmaps_page_view:
  assumes mm: "mm_ok DS s" and unmaps: "unmaps_page DS D v T freed s s'" and D: "D \<in> DS" "D' \<in> DS"
    and T: "table s D (pde_index v) = Some T"
    and i: "pde_index v < 1022" "pde_index v' < 1022"
    and priv: "\<And>D'. last_page s T v \<Longrightarrow> D' \<in> DS \<Longrightarrow> D' \<noteq> D \<Longrightarrow> table s D' (pde_index v) \<noteq> Some T"
  shows "page_entry s' D' v' =
    (if table s D' (pde_index v') = Some T \<and> pte_index v' = pte_index v then None else page_entry s D' v')"
proof (cases "table s D' (pde_index v')")
  case None
  then have "table s' D' (pde_index v') = None" using unmaps D(2) by (auto simp: unmaps_page_def)
  with None show ?thesis by (simp add: page_entry_def)
next
  case (Some T')
  have tab: "table s' D' (pde_index v') =
      (if last_page s T v \<and> D' = D \<and> pde_index v' = pde_index v then None else Some T')"
    and at: "entry_at s' T (pte_index v') = (if pte_index v' = pte_index v then None else entry_at s T (pte_index v'))"
    using unmaps D(2) Some by (simp_all add: unmaps_page_def)
  show ?thesis
  proof (cases "T' = T")
    case True
    have here: "pde_index v = pde_index v'"
      using tables_okD(3) [OF mm_okD(2) [OF mm] D(1) below_special(1) [OF i(1)] T D(2) below_special(1) [OF i(2)]] Some True
      by simp
    show ?thesis
    proof (cases "last_page s T v")
      case lp: True
      then have "D' = D" using priv Some True D(2) here by metis
      then have "page_entry s' D' v' = None" using tab lp here by (simp add: page_entry_def)
      moreover have "entry_at s T (pte_index v') = None" if "pte_index v' \<noteq> pte_index v"
        using lp that unfolding last_page_def by simp
      ultimately show ?thesis using Some True by (simp add: page_entry_def)
    qed (use tab at Some True in \<open>simp add: page_entry_def\<close>)
  next
    case False
    have "T' \<notin> DS" using tables_okD(1) [OF mm_okD(2) [OF mm] D(2) below_special(1) [OF i(2)] Some] .
    moreover have "\<not> (paging_on s \<and> T' = temp_frame s)" using temp_frame_not_table [OF mm _ D(2) Some i(2)] by blast
    moreover have "mem_same {D, T} s s'" using unmaps by (simp add: unmaps_page_def)
    ultimately have "pmem s' T' = pmem s T'" using False D(1) unfolding mem_same_def by auto
    moreover have "table s' D' (pde_index v') = Some T'" using tab Some T False by (metis option.inject)
    ultimately show ?thesis using Some False entry_at_cong [of s' T' s] by (simp add: page_entry_def)
  qed
qed

lemma page_entry_cases:
  assumes "page_entry s D v = Some e"
  obtains T where "table s D (pde_index v) = Some T" and "entry_at s T (pte_index v) = Some e"
  using assms by (auto simp: page_entry_def bind_eq_Some_conv)

lemma page_entry_free:
  assumes "page_entry s D v = None" and "table s D (pde_index v) = Some T"
  shows "entry_at s T (pte_index v) = None"
  using assms by (simp add: page_entry_def)

lemma mem_same_view:
  assumes mm: "mm_ok DS s" and mem: "mem_same {} s s'" and D: "D \<in> DS" and i: "pde_index v < 1022"
  shows "page_entry s' D v = page_entry s D v"
proof -
  have "paging_on s \<Longrightarrow> D \<noteq> temp_frame s" using mm_paged(4) [OF mm] D by metis
  then have "table s' D (pde_index v) = table s D (pde_index v)"
    using mem by (intro table_cong) (auto simp: mem_same_def)
  moreover have "entry_at s' T (pte_index v) = entry_at s T (pte_index v)" if "table s D (pde_index v) = Some T" for T
    using mem temp_frame_not_table [OF mm _ D that i] by (intro entry_at_cong) (auto simp: mem_same_def)
  ultimately show ?thesis by (cases "table s D (pde_index v)") (simp_all add: page_entry_def)
qed

subsection \<open>One page, all cases\<close>

definition no_frames :: "'a frame_state_scheme \<Rightarrow> bool" where
  "no_frames s \<longleftrightarrow> OOM_SIMULATION s \<or> frames_in_use s = {..<unat (bm_size (FRAME_BITMAP s))}"

text \<open>
  The allocator's search for a high frame comes back: by simulation, on a small machine or when no low frame
  is left for it to overlook.
\<close>

definition alloc_returns :: "'a frame_state_scheme \<Rightarrow> bool" where
  "alloc_returns s \<longleftrightarrow> OOM_SIMULATION s \<or> unat (bm_size (FRAME_BITMAP s)) \<le> 255 \<or> {..<255} \<subseteq> frames_in_use s"

lemma alloc_returns_ok:
  assumes "wf_frames s" and "alloc_returns s"
  shows "alloc_frame s \<noteq> None"
proof
  assume "alloc_frame s = None"
  then have stuck: "\<not> OOM_SIMULATION s" "255 < unat (bm_size (FRAME_BITMAP s))"
    "{..<unat (bm_size (FRAME_BITMAP s))} - frames_in_use s \<noteq> {}"
    "{255..<unat (bm_size (FRAME_BITMAP s))} \<subseteq> frames_in_use s"
    using alloc_frame_stuck_iff [OF assms(1)] by simp_all
  then have "{..<255} \<subseteq> frames_in_use s" using assms(2) by (simp add: alloc_returns_def)
  moreover obtain x where "x < unat (bm_size (FRAME_BITMAP s))" "x \<notin> frames_in_use s" using stuck(3) by blast
  ultimately show False using stuck(4) by (meson atLeastLessThan_iff lessThan_iff not_le subsetD)
qed

definition can_map :: "u32 set \<Rightarrow> addr \<Rightarrow> 'a paging_state_scheme \<Rightarrow> bool" where
  "can_map DS as s \<longleftrightarrow> mm_ok DS s \<and> as_ok DS s as \<and> alloc_returns s \<and> (error_list s \<noteq> [] \<or> next_desc s)"

lemma map_page_cases:
  assumes can: "can_map DS as s" and al: "is_4kib_aligned p" "is_4kib_aligned v"
    and perm: "as = kernel_as s \<or> is_user_addr v" and i: "pde_index v < 1022"
    and free: "page_entry s (dir_of s as) v = None"
  obtains (mapped) s' T where "map_page_in as p v flags s = Some (True, s')"
      and "maps_page DS (dir_of s as) v T (make_pte (garbage s) flags p) s s'" and "alloc_returns s'"
  | (full) s' where "map_page_in as p v flags s = Some (False, s')" and "mm_ok DS s'" and "same_cpu s s'"
      and "mem_same {} s s'" and "frames_in_use s' = frames_in_use s" and "error_list s' \<noteq> []"
      and "no_frames s" and "table s (dir_of s as) (pde_index v) = None"
      and "\<forall>D \<in> DS. \<forall>i. table s' D i = table s D i"
proof -
  have mm: "mm_ok DS s" and as: "as_ok DS s as" and ret: "alloc_returns s"
    and report: "error_list s \<noteq> [] \<or> next_desc s" using can by (simp_all add: can_map_def)
  have some: "alloc_frame s \<noteq> None" using alloc_returns_ok [OF mm_okD(1) [OF mm] ret] .
  have returns: "alloc_returns s'" if "maps_page DS (dir_of s as) v T pte s s'" for T pte s'
  proof -
    have "same_cpu s s'" using that by (simp add: maps_page_def)
    from same_cpu_sel(11) [OF this] show ?thesis using that ret by (auto simp: maps_page_def alloc_returns_def)
  qed
  show thesis
  proof (cases "table s (dir_of s as) (pde_index v)")
    case (Some T)
    then obtain s' where "map_page_in as p v flags s = Some (True, s')"
      "maps_page DS (dir_of s as) v T (make_pte (garbage s) flags p) s s'"
      using map_page_existing [OF mm as Some al perm i page_entry_free [OF free Some]] by blast
    then show thesis using mapped returns by blast
  next
    case None
    show thesis
    proof (cases "no_frames s")
      case True
      then show thesis
        using map_page_full [OF mm as None al perm some _ report] full None unfolding no_frames_def by metis
    next
      case False
      then have more: "\<not> OOM_SIMULATION s" "frames_in_use s \<noteq> {..<unat (bm_size (FRAME_BITMAP s))}"
        by (simp_all add: no_frames_def)
      obtain s' T where "map_page_in as p v flags s = Some (True, s')"
        "maps_page DS (dir_of s as) v T (make_pte (garbage s) flags p) s s'"
        using map_page_new [OF mm as None al perm i some more] by blast
      then show thesis using mapped returns by blast
    qed
  qed
qed

end
