(* ===== verification/Paging_Ranges.thy ===== *)
theory Paging_Ranges
  imports Paging_Maps
begin

text \<open>
  Mapping and unmapping ranges of user pages: \<open>paging_map_in\<close> maps all the pages of a range or none,
  \<open>paging_unmap_in\<close> takes a mapping back, and neither touches another page or another address space.
\<close>

subsection \<open>The pages of a range\<close>

definition pgno :: "addr \<Rightarrow> nat" where
  "pgno v = unat v div 4096"

lemma pgno_indices: "unat (pde_index v) = pgno v div 1024" "unat (pte_index v) = pgno v mod 1024"
proof -
  have "unat v div (4096 * 1024) = unat v div 4096 div 1024" by (rule div_mult2_eq)
  then show "unat (pde_index v) = pgno v div 1024" by (simp add: unat_pde_index pgno_def)
  show "unat (pte_index v) = pgno v mod 1024" by (simp add: unat_pte_index pgno_def)
qed

lemma same_page_iff: "pde_index v = pde_index w \<and> pte_index v = pte_index w \<longleftrightarrow> pgno v = pgno w"
proof
  assume "pde_index v = pde_index w \<and> pte_index v = pte_index w"
  then have "pgno v div 1024 = pgno w div 1024" "pgno v mod 1024 = pgno w mod 1024"
    by (simp_all add: word_unat_eq_iff pgno_indices)
  then show "pgno v = pgno w" by (metis div_mult_mod_eq)
qed (simp add: word_unat_eq_iff pgno_indices)

lemma page_entry_pgno: "pgno v = pgno w \<Longrightarrow> page_entry s D v = page_entry s D w"
  using same_page_iff [of v w] by (simp add: page_entry_def)

text \<open>A page aligned address with \<open>n\<close> pages below the kernel.\<close>

definition user_range :: "addr \<Rightarrow> nat \<Rightarrow> bool" where
  "user_range start n \<longleftrightarrow> is_4kib_aligned start \<and> unat start + n * 4096 \<le> 0xC0000000"

lemma aligned_mod: "is_4kib_aligned v \<longleftrightarrow> unat v mod 4096 = 0"
  by (simp add: is_4kib_aligned_take_bit take_bit_eq_mod word_unat_eq_iff unat_mod_distrib)

lemma chunk_ok:
  assumes "user_range start n" and "k < n"
  shows "unat (chunk start k) = unat start + k * 4096" "is_4kib_aligned (chunk start k)"
    "is_user_addr (chunk start k)" "pgno (chunk start k) = pgno start + k" "pde_index (chunk start k) < 768"
proof -
  have bound: "unat start + k * 4096 < 0xC0000000" and al: "unat start mod 4096 = 0"
    using assms by (auto simp: user_range_def aligned_mod)
  have k: "unat (of_nat k * PAGE_SIZE) = k * 4096"
    using bound by (subst unat_mult_no_overflow) (simp_all add: PAGE_SIZE_def unat_of_nat_bounded)
  show u: "unat (chunk start k) = unat start + k * 4096"
    unfolding chunk_def using bound k by (subst unat_add_no_overflow) simp_all
  have "(unat start + k * 4096) mod 4096 = 0" using al by simp
  then show "is_4kib_aligned (chunk start k)" by (simp add: aligned_mod u)
  show "is_user_addr (chunk start k)"
    using bound u by (simp add: is_user_addr_def is_kernel_addr_def KERNEL_PHY_OFFSET_def word_bounds)
  show "pgno (chunk start k) = pgno start + k" by (simp add: pgno_def u)
  show "pde_index (chunk start k) < 768" using bound u by (simp add: word_bounds unat_pde_index)
qed

lemma chunk_aligned:
  assumes "is_4kib_aligned p"
  shows "is_4kib_aligned (chunk p k)"
proof -
  have "unat (of_nat k * PAGE_SIZE :: u32) mod 4096 = 0"
    by (simp add: unat_word_ariths(2) PAGE_SIZE_def mod_mod_cancel)
  then have "(unat p + unat (of_nat k * PAGE_SIZE :: u32)) mod 4096 = 0"
    using assms unfolding aligned_mod by (simp add: mod_add_eq [symmetric])
  then show ?thesis
    unfolding aligned_mod chunk_def unat_word_ariths(1) [of p "of_nat k * PAGE_SIZE"] by (simp add: mod_mod_cancel)
qed

lemma below_user: "i < 768 \<Longrightarrow> i < (1022 :: u32)"
  by (simp add: word_bounds)

text \<open>User page tables are not shared.\<close>

lemma user_private:
  assumes "mm_ok DS s" and "D \<in> DS" and "D' \<in> DS" and "i < 768" and "j < 1022"
    and "table s D i = Some T" and "table s D' j = Some T"
  shows "D' = D" "j = i"
proof -
  have "i = j \<and> (D = D' \<or> 768 \<le> i)"
    by (rule tables_okD(3) [OF mm_okD(2) [OF assms(1)] assms(2) _ assms(6) assms(3) _ assms(7)])
      (use assms(4,5) in \<open>simp_all add: word_bounds\<close>)
  then show "D' = D" "j = i" using assms(4) by auto
qed

lemma maps_user_view:
  assumes mm: "mm_ok DS s" and maps: "maps_page DS D v T pte s s'" and D: "D \<in> DS" "D' \<in> DS"
    and i: "pde_index v < 768" "pde_index v' < 1022"
  shows "page_entry s' D' v' = (if D' = D \<and> pgno v' = pgno v then Some pte else page_entry s D' v')"
proof -
  have mm': "mm_ok DS s'" and T: "table s' D (pde_index v) = Some T" using maps D(1) by (simp_all add: maps_page_def)
  have "table s' D' (pde_index v') = Some T \<longleftrightarrow> D' = D \<and> pde_index v' = pde_index v"
    using user_private [OF mm' D i T] T by metis
  then show ?thesis
    using maps_page_view [OF mm maps D below_user [OF i(1)] i(2)] same_page_iff [of v' v] by metis
qed

lemma unmaps_user_view:
  assumes mm: "mm_ok DS s" and unmaps: "unmaps_page DS D v T freed s s'" and D: "D \<in> DS" "D' \<in> DS"
    and T: "table s D (pde_index v) = Some T" and i: "pde_index v < 768" "pde_index v' < 1022"
  shows "page_entry s' D' v' = (if D' = D \<and> pgno v' = pgno v then None else page_entry s D' v')"
proof -
  have priv: "table s D'' (pde_index v) \<noteq> Some T" if "D'' \<in> DS" "D'' \<noteq> D" for D''
    using user_private(1) [OF mm D(1) that(1) i(1) below_user [OF i(1)] T] that(2) by blast
  have "table s D' (pde_index v') = Some T \<longleftrightarrow> D' = D \<and> pde_index v' = pde_index v"
    using user_private [OF mm D i T] T by metis
  then show ?thesis
    using unmaps_page_view [OF mm unmaps D T below_user [OF i(1)] i(2) priv] same_page_iff [of v' v] by metis
qed

subsection \<open>Unmapping a range\<close>

text \<open>The frames a range gives back when it is unmapped: those of its pages if asked for, and page tables.\<close>

definition table_frames :: "'a paging_state_scheme \<Rightarrow> u32 \<Rightarrow> nat set" where
  "table_frames s D = {unat T | T i. i < 768 \<and> table s D i = Some T}"

definition in_pages :: "addr \<Rightarrow> nat \<Rightarrow> nat \<Rightarrow> addr \<Rightarrow> bool" where
  "in_pages start k n v \<longleftrightarrow> pgno start + k \<le> pgno v \<and> pgno v < pgno start + n"

definition unmapped_range ::
  "u32 set \<Rightarrow> u32 \<Rightarrow> addr \<Rightarrow> nat \<Rightarrow> nat \<Rightarrow> nat set \<Rightarrow> 'a paging_state_scheme \<Rightarrow> 'a paging_state_scheme \<Rightarrow> bool" where
  "unmapped_range DS D start k n freed s s' \<longleftrightarrow> mm_ok DS s' \<and> same_cpu s s' \<and> error_list s' = error_list s \<and>
     (\<forall>D' \<in> DS. \<forall>v. pde_index v < 1022 \<longrightarrow>
        page_entry s' D' v = (if D' = D \<and> in_pages start k n v then None else page_entry s D' v)) \<and>
     frames_in_use s' \<subseteq> frames_in_use s - freed \<and>
     frames_in_use s - frames_in_use s' \<subseteq> freed \<union> table_frames s D"

lemma unmapped_range_view:
  assumes "unmapped_range DS D start k n freed s s'" and "D' \<in> DS" and "pde_index v < 1022"
  shows "page_entry s' D' v = (if D' = D \<and> in_pages start k n v then None else page_entry s D' v)"
  using assms unfolding unmapped_range_def by blast

lemma unmapped_range_trans:
  assumes r1: "unmapped_range DS D start k m A s s1" and r2: "unmapped_range DS D start m n B s1 s'"
    and "k \<le> m" and "m \<le> n" and tabs: "table_frames s1 D \<subseteq> table_frames s D"
  shows "unmapped_range DS D start k n (A \<union> B) s s'"
  unfolding unmapped_range_def
proof (intro conjI ballI allI impI)
  show "mm_ok DS s'" "error_list s' = error_list s" using r1 r2 by (simp_all add: unmapped_range_def)
  show "same_cpu s s'" using r1 r2 same_cpu_trans unfolding unmapped_range_def by metis
  have "in_pages start k n v \<longleftrightarrow> in_pages start k m v \<or> in_pages start m n v" for v
    using assms(3,4) by (auto simp: in_pages_def)
  then show "page_entry s' D' v = (if D' = D \<and> in_pages start k n v then None else page_entry s D' v)"
    if "D' \<in> DS" "pde_index v < 1022" for D' v
    using unmapped_range_view [OF r1 that] unmapped_range_view [OF r2 that] by auto
  have "frames_in_use s1 \<subseteq> frames_in_use s - A" "frames_in_use s' \<subseteq> frames_in_use s1 - B"
    "frames_in_use s - frames_in_use s1 \<subseteq> A \<union> table_frames s D"
    "frames_in_use s1 - frames_in_use s' \<subseteq> B \<union> table_frames s1 D"
    using r1 r2 by (simp_all add: unmapped_range_def)
  then show "frames_in_use s' \<subseteq> frames_in_use s - (A \<union> B)"
    "frames_in_use s - frames_in_use s' \<subseteq> A \<union> B \<union> table_frames s D" using tabs by blast+
qed

lemma unmap_pages_step:
  assumes mm: "mm_ok DS s" and as: "as_ok DS s as" and range: "user_range start n" and k: "k < n"
    and e: "page_entry s (dir_of s as) (chunk start k) = Some e"
    and f: "free \<Longrightarrow> data_frame DS s (entry_frame e)"
  obtains s' where "unmap_page_in as (chunk start k) free s = Some s'"
    and "unmapped_range DS (dir_of s as) start k (Suc k) (if free then {unat (entry_frame e)} else {}) s s'"
    and "\<And>D i T. D \<in> DS \<Longrightarrow> table s' D i = Some T \<Longrightarrow> table s D i = Some T"
    and "\<And>f. data_frame DS s f \<Longrightarrow> free \<longrightarrow> f \<noteq> entry_frame e \<Longrightarrow> data_frame DS s' f"
proof -
  let ?D = "dir_of s as" and ?v = "chunk start k"
  let ?freed = "if free then {unat (entry_frame e)} else {}"
  note ck = chunk_ok [OF range k]
  have D: "?D \<in> DS" using as by (simp add: as_ok_def)
  obtain T where T: "table s ?D (pde_index ?v) = Some T" "entry_at s T (pte_index ?v) = Some e"
    using page_entry_cases [OF e] .
  have priv: "table s D' (pde_index ?v) \<noteq> Some T" if "D' \<in> DS" "D' \<noteq> ?D" for D'
    using user_private(1) [OF mm D that(1) ck(5) below_user [OF ck(5)] T(1)] that(2) by blast
  obtain s' where s': "unmap_page_in as ?v free s = Some s'" "unmaps_page DS ?D ?v T ?freed s s'"
    using unmap_page_ok [OF mm as T below_user [OF ck(5)] f ck(2)] ck(3) priv by metis
  have tab: "table s D' i = Some T'" if "D' \<in> DS" "table s' D' i = Some T'" for D' i T'
    using s'(2) that by (auto simp: unmaps_page_def split: if_splits)
  have use: "frames_in_use s' = frames_in_use s - ?freed - (if last_page s T ?v then {unat T} else {})"
    using s'(2) by (simp add: unmaps_page_def)
  have "unmapped_range DS ?D start k (Suc k) ?freed s s'"
    unfolding unmapped_range_def
  proof (intro conjI ballI allI impI)
    show "mm_ok DS s'" "same_cpu s s'" "error_list s' = error_list s" using s'(2) by (simp_all add: unmaps_page_def)
    show "frames_in_use s' \<subseteq> frames_in_use s - ?freed" using use by auto
    have "unat T \<in> table_frames s ?D" using T(1) ck(5) unfolding table_frames_def by blast
    then show "frames_in_use s - frames_in_use s' \<subseteq> ?freed \<union> table_frames s ?D" using use by auto
    show "page_entry s' D' v = (if D' = ?D \<and> in_pages start k (Suc k) v then None else page_entry s D' v)"
      if "D' \<in> DS" "pde_index v < 1022" for D' v
      using unmaps_user_view [OF mm s'(2) D that(1) T(1) ck(5) that(2)] ck(4) by (auto simp: in_pages_def)
  qed
  moreover have "data_frame DS s' f'" if "data_frame DS s f'" "free \<longrightarrow> f' \<noteq> entry_frame e" for f'
  proof -
    have "f' \<noteq> T" using that(1) T(1) D below_special(1) [OF below_user [OF ck(5)]] by (auto simp: data_frame_def)
    then have "unat f' \<in> frames_in_use s'"
      using that use by (auto simp: data_frame_def word_unat_eq_iff [symmetric])
    then show ?thesis using that(1) tab unfolding data_frame_def by blast
  qed
  ultimately show thesis using that [OF s'(1) _ tab] by blast
qed

lemma unmap_pages_ok:
  assumes "user_range start n" and "k \<le> n" and "mm_ok DS s" and "as_ok DS s as"
    and "\<And>m. k \<le> m \<Longrightarrow> m < n \<Longrightarrow> page_entry s (dir_of s as) (chunk start m) = Some (e m)"
    and "\<And>m. free \<Longrightarrow> k \<le> m \<Longrightarrow> m < n \<Longrightarrow> data_frame DS s (entry_frame (e m))"
    and "free \<Longrightarrow> inj_on (\<lambda>m. entry_frame (e m)) {k..<n}"
  shows "\<exists>s'. unmap_pages as start free [k..<n] s = Some s' \<and>
    unmapped_range DS (dir_of s as) start k n (if free then (\<lambda>m. unat (entry_frame (e m))) ` {k..<n} else {}) s s'"
  using assms(2-)
proof (induction "n - k" arbitrary: k s)
  case 0
  then show ?case by (auto simp: unmapped_range_def in_pages_def)
next
  case (Suc d)
  then have k: "k < n" by simp
  let ?D = "dir_of s as"
  obtain s1 where s1: "unmap_page_in as (chunk start k) free s = Some s1"
    "unmapped_range DS ?D start k (Suc k) (if free then {unat (entry_frame (e k))} else {}) s s1"
    "\<And>D i T. D \<in> DS \<Longrightarrow> table s1 D i = Some T \<Longrightarrow> table s D i = Some T"
    "\<And>f. data_frame DS s f \<Longrightarrow> free \<longrightarrow> f \<noteq> entry_frame (e k) \<Longrightarrow> data_frame DS s1 f"
    using unmap_pages_step [OF Suc.prems(2,3) assms(1) k Suc.prems(4) [OF order_refl k] Suc.prems(5) [OF _ order_refl k]]
    by metis
  have D: "?D \<in> DS" using Suc.prems(3) by (simp add: as_ok_def)
  have r1: "mm_ok DS s1" "same_cpu s s1" using s1(2) by (simp_all add: unmapped_range_def)
  note sel = same_cpu_sel [OF r1(2)]
  have "\<exists>s'. unmap_pages as start free [Suc k..<n] s1 = Some s' \<and> unmapped_range DS (dir_of s1 as) start (Suc k) n
      (if free then (\<lambda>m. unat (entry_frame (e m))) ` {Suc k..<n} else {}) s1 s'"
  proof (rule Suc.hyps(1))
    show "d = n - Suc k" "Suc k \<le> n" using Suc.hyps(2) k by simp_all
    show "mm_ok DS s1" "as_ok DS s1 as" using r1 sel Suc.prems(3) by simp_all
    fix m
    assume m: "Suc k \<le> m" "m < n"
    have "\<not> in_pages start k (Suc k) (chunk start m)"
      using chunk_ok(4) [OF assms(1) m(2)] m by (simp add: in_pages_def)
    then show "page_entry s1 (dir_of s1 as) (chunk start m) = Some (e m)"
      using s1(2) D Suc.prems(4) [of m] m sel(9) below_user [OF chunk_ok(5) [OF assms(1) m(2)]]
      by (simp add: unmapped_range_def)
    show "data_frame DS s1 (entry_frame (e m))" if free
    proof (rule s1(4) [OF Suc.prems(5) [OF that]])
      show "free \<longrightarrow> entry_frame (e m) \<noteq> entry_frame (e k)"
        using inj_onD [OF Suc.prems(6), of m k] m k by auto
    qed (use m in simp_all)
  next
    show "inj_on (\<lambda>m. entry_frame (e m)) {Suc k..<n}" if free
      using Suc.prems(6) [OF that] by (rule inj_on_subset) auto
  qed
  then obtain s' where s': "unmap_pages as start free [Suc k..<n] s1 = Some s'"
    "unmapped_range DS ?D start (Suc k) n (if free then (\<lambda>m. unat (entry_frame (e m))) ` {Suc k..<n} else {}) s1 s'"
    using sel(9) by auto
  have "table_frames s1 ?D \<subseteq> table_frames s ?D" using s1(3) D unfolding table_frames_def by blast
  note both = unmapped_range_trans [OF s1(2) s'(2) _ _ this]
  have "{k..<n} = insert k {Suc k..<n}" using k by auto
  then have "unmapped_range DS ?D start k n (if free then (\<lambda>m. unat (entry_frame (e m))) ` {k..<n} else {}) s s'"
    using both k by (cases free) simp_all
  then show ?case using s1(1) s'(1) k by (simp add: upt_conv_Cons)
qed

subsection \<open>Mapping a range\<close>

definition mapped_range ::
  "u32 set \<Rightarrow> u32 \<Rightarrow> addr \<Rightarrow> addr \<Rightarrow> u32 \<Rightarrow> nat \<Rightarrow> 'a paging_state_scheme \<Rightarrow> 'a paging_state_scheme \<Rightarrow> bool" where
  "mapped_range DS D start_phy start_virt flags n s s' \<longleftrightarrow> mm_ok DS s' \<and> same_cpu s s' \<and> error_list s' = error_list s \<and>
     (\<forall>D' \<in> DS. \<forall>v. pde_index v < 1022 \<longrightarrow> page_entry s' D' v =
        (if D' = D \<and> in_pages start_virt 0 n v
         then Some (make_pte (garbage s) flags (chunk start_phy (pgno v - pgno start_virt)))
         else page_entry s D' v))"

lemma mapped_range_view:
  assumes "mapped_range DS D sp sv flags n s s'" and "D' \<in> DS" and "pde_index v < 1022"
  shows "page_entry s' D' v = (if D' = D \<and> in_pages sv 0 n v
     then Some (make_pte (garbage s) flags (chunk sp (pgno v - pgno sv))) else page_entry s D' v)"
  using assms unfolding mapped_range_def by blast

definition same_views :: "u32 set \<Rightarrow> 'a paging_state_scheme \<Rightarrow> 'a paging_state_scheme \<Rightarrow> bool" where
  "same_views DS s s' \<longleftrightarrow> mm_ok DS s' \<and> same_cpu s s' \<and>
     (\<forall>D \<in> DS. \<forall>v. pde_index v < 1022 \<longrightarrow> page_entry s' D v = page_entry s D v)"

lemma finite_frames: "finite (frames_in_use s)"
  by (simp add: frames_in_use_def set_bits_of_def)

text \<open>The state of the loop before page \<open>k\<close>.\<close>

definition map_progress where
  "map_progress DS as sp sv flags k s0 s \<longleftrightarrow> mapped_range DS (dir_of s0 as) sp sv flags k s0 s \<and> alloc_returns s \<and>
     (error_list s \<noteq> [] \<or> next_desc s) \<and> bm_size (FRAME_BITMAP s) = bm_size (FRAME_BITMAP s0) \<and>
     card (frames_in_use s) \<le> card (frames_in_use s0) + k"

lemma map_progress_step:
  assumes prog: "map_progress DS as sp sv flags k s0 s" and as: "as_ok DS s0 as" and k: "k < n" and range: "user_range sv n"
    and maps: "maps_page DS (dir_of s as) (chunk sv k) T (make_pte (garbage s) flags (chunk sp k)) s s'"
    and ret: "alloc_returns s'"
  shows "map_progress DS as sp sv flags (Suc k) s0 s'"
proof -
  have r: "mapped_range DS (dir_of s0 as) sp sv flags k s0 s" using prog by (simp add: map_progress_def)
  then have mm: "mm_ok DS s" and same: "same_cpu s0 s" by (simp_all add: mapped_range_def)
  note sel = same_cpu_sel [OF same] and ck = chunk_ok [OF range k]
  have D: "dir_of s0 as \<in> DS" using as by (simp add: as_ok_def)
  have m: "mm_ok DS s'" "same_cpu s s'" "error_list s' = error_list s" "frames_in_use s' = insert (unat T) (frames_in_use s)"
    "bm_size (FRAME_BITMAP s') = bm_size (FRAME_BITMAP s)" "error_descs s' = error_descs s"
    using maps by (simp_all add: maps_page_def)
  have "page_entry s' D' v = (if D' = dir_of s0 as \<and> in_pages sv 0 (Suc k) v
     then Some (make_pte (garbage s0) flags (chunk sp (pgno v - pgno sv))) else page_entry s0 D' v)"
    if v: "D' \<in> DS" "pde_index v < 1022" for D' v
    using maps_user_view [OF mm maps [unfolded sel(5,9)] D v(1) ck(5) v(2)] mapped_range_view [OF r v] ck(4)
    by (auto simp: in_pages_def less_Suc_eq)
  then have "mapped_range DS (dir_of s0 as) sp sv flags (Suc k) s0 s'"
    using m r same_cpu_trans [OF same m(2)] by (simp add: mapped_range_def)
  moreover have "card (frames_in_use s') \<le> Suc (card (frames_in_use s))"
    using m(4) finite_frames [of s] by (simp add: card_insert_if)
  ultimately show ?thesis
    using prog m ret by (simp add: map_progress_def next_desc_def)
qed

lemma undo_pages:
  assumes prog: "map_progress DS as sp sv flags k s0 s" and as: "as_ok DS s0 as" and range: "user_range sv n" and k: "k < n"
    and free: "\<forall>m < n. page_entry s0 (dir_of s0 as) (chunk sv m) = None"
    and s1: "same_views DS s s1"
  obtains s2 where "unmap_pages as sv False [0..<k] s1 = Some s2" and "same_views DS s0 s2" and "error_list s2 = error_list s1"
proof -
  let ?D = "dir_of s0 as"
  have r: "mapped_range DS ?D sp sv flags k s0 s" using prog by (simp add: map_progress_def)
  then have same: "same_cpu s0 s" by (simp add: mapped_range_def)
  have m1: "mm_ok DS s1" "same_cpu s0 s1" using s1 same_cpu_trans [OF same] by (simp_all add: same_views_def)
  note sel = same_cpu_sel [OF m1(2)]
  have D: "?D \<in> DS" using as by (simp add: as_ok_def)
  have view: "page_entry s1 D' v = (if D' = ?D \<and> in_pages sv 0 k v
      then Some (make_pte (garbage s0) flags (chunk sp (pgno v - pgno sv))) else page_entry s0 D' v)"
    if "D' \<in> DS" "pde_index v < 1022" for D' v
    using mapped_range_view [OF r that] s1 that by (simp add: same_views_def)
  have range': "user_range sv k" using range k by (simp add: user_range_def)
  have mapped: "page_entry s1 (dir_of s1 as) (chunk sv m) = Some (make_pte (garbage s0) flags (chunk sp m))" if "m < k" for m
    using view [OF D below_user [OF chunk_ok(5) [OF range' that]]] chunk_ok(4) [OF range' that] that sel(9)
    by (simp add: in_pages_def)
  obtain s2 where s2: "unmap_pages as sv False [0..<k] s1 = Some s2"
    "unmapped_range DS (dir_of s1 as) sv 0 k {} s1 s2"
    using unmap_pages_ok [OF range', of 0 DS s1 as "\<lambda>m. make_pte (garbage s0) flags (chunk sp m)" False] m1(1) as sel mapped
    by auto
  have "page_entry s2 D' v = page_entry s0 D' v" if v: "D' \<in> DS" "pde_index v < 1022" for D' v
  proof (cases "D' = ?D \<and> in_pages sv 0 k v")
    case True
    then have "pgno v - pgno sv < n" "pgno (chunk sv (pgno v - pgno sv)) = pgno v"
      using k chunk_ok(4) [OF range, of "pgno v - pgno sv"] by (auto simp: in_pages_def)
    then have "page_entry s0 ?D v = None" using free page_entry_pgno by metis
    then show ?thesis using unmapped_range_view [OF s2(2) v] True sel(9) by simp
  qed (use unmapped_range_view [OF s2(2) v] view [OF v] sel(9) in auto)
  moreover have "mm_ok DS s2" "same_cpu s0 s2" "error_list s2 = error_list s1"
    using s2(2) same_cpu_trans [OF m1(2)] by (simp_all add: unmapped_range_def)
  ultimately show thesis using that [OF s2(1)] by (simp add: same_views_def)
qed

lemma mm_ok_set_error:
  assumes mm: "mm_ok DS s" and run: "set_error code s = Some s'"
  shows "mm_ok DS s'"
proof -
  note e = same_cpu_set_error [OF run]
  show ?thesis
    by (rule mm_ok_same_tables [OF mm e(1)])
      (use e mm_okD [OF mm] mem_cong(3) [OF e(1,2)] tables_okD(2) [OF mm_okD(2) [OF mm]] in auto)
qed

lemma map_pages_ok:
  assumes range: "user_range sv n" and sp: "is_4kib_aligned sp" and as: "as_ok DS s0 as"
    and free: "\<forall>m < n. page_entry s0 (dir_of s0 as) (chunk sv m) = None"
    and prog: "map_progress DS as sp sv flags k s0 s" and "k \<le> n"
  shows "\<exists>ok s'. map_pages as sp sv flags [k..<n] s = Some (ok, s') \<and>
    (if ok then map_progress DS as sp sv flags n s0 s'
     else same_views DS s0 s' \<and> error_list s' \<noteq> [] \<and>
       (OOM_SIMULATION s0 \<or> unat (bm_size (FRAME_BITMAP s0)) < card (frames_in_use s0) + n))"
  using prog \<open>k \<le> n\<close>
proof (induction "n - k" arbitrary: k s)
  case 0
  then show ?case by (intro exI [of _ True]) simp
next
  case (Suc d)
  then have k: "k < n" by simp
  note ck = chunk_ok [OF range k]
  have r: "mapped_range DS (dir_of s0 as) sp sv flags k s0 s" using Suc.prems(1) by (simp add: map_progress_def)
  then have mm: "mm_ok DS s" and same: "same_cpu s0 s" by (simp_all add: mapped_range_def)
  note sel = same_cpu_sel [OF same]
  have D: "dir_of s0 as \<in> DS" using as by (simp add: as_ok_def)
  have can: "can_map DS as s" using Suc.prems(1) mm as sel by (simp add: can_map_def map_progress_def)
  have here: "page_entry s (dir_of s as) (chunk sv k) = None"
    using mapped_range_view [OF r D below_user [OF ck(5)]] free k ck(4) sel(9) by (simp add: in_pages_def)
  from can chunk_aligned [OF sp, of k] ck(2) disjI2 [OF ck(3)] below_user [OF ck(5)] here
  show ?case
  proof (cases rule: map_page_cases [where flags = flags])
    case (mapped s' T)
    have "map_progress DS as sp sv flags (Suc k) s0 s'"
      using map_progress_step [OF Suc.prems(1) as k range mapped(2,3)] .
    from Suc.hyps(1) [OF _ this] Suc.hyps(2) k mapped(1) show ?thesis by (simp add: upt_conv_Cons)
  next
    case (full s1)
    obtain s2 where s2: "set_error ENONE s1 = Some s2" "error_list s2 \<noteq> []" using set_error_again [OF full(6)] .
    note e = same_cpu_set_error [OF s2(1)]
    have mem: "mem_same {} s s2" using full(4) e(2) by (simp add: mem_same_def)
    have "mm_ok DS s2" using mm_ok_set_error [OF full(2) s2(1)] .
    then have sv: "same_views DS s s2"
      using same_cpu_trans [OF full(3) e(1)] mem_same_view [OF mm mem] by (simp add: same_views_def)
    obtain s3 where s3: "unmap_pages as sv False [0..<k] s2 = Some s3" "same_views DS s0 s3"
      "error_list s3 = error_list s2" by (rule undo_pages [OF Suc.prems(1) as range k free sv])
    have "OOM_SIMULATION s0 \<or> unat (bm_size (FRAME_BITMAP s0)) < card (frames_in_use s0) + n"
    proof (cases "OOM_SIMULATION s0")
      case False
      then have "card (frames_in_use s) = unat (bm_size (FRAME_BITMAP s))" using full(7) sel(11) by (simp add: no_frames_def)
      then show ?thesis using Suc.prems(1) k unfolding map_progress_def by simp
    qed simp
    then show ?thesis
      using full(1) s2 s3 k by (intro exI [of _ False] exI [of _ s3]) (simp add: upt_conv_Cons)
  qed
qed

subsection \<open>The calls\<close>

text \<open>The lock of an address space, as the calls take it and give it back.\<close>

definition relock :: "addr \<Rightarrow> spinlock \<Rightarrow> bool \<Rightarrow> 'a paging_state_scheme \<Rightarrow> 'a paging_state_scheme" where
  "relock as l b s = s\<lparr>int_flag := b, addr_spaces := (addr_spaces s)(as := (addr_spaces s as)\<lparr>as_lock := l\<rparr>)\<rparr>"

lemma relock_sel [simp]:
  "pmem (relock as l b s) = pmem s" "garbage (relock as l b s) = garbage s" "error_list (relock as l b s) = error_list s"
  "as_lock (addr_spaces (relock as l b s) as) = l" "int_flag (relock as l b s) = b" "cpu_id (relock as l b s) = cpu_id s"
  "dir_of (relock as l b s) = dir_of s" "frames_in_use (relock as l b s) = frames_in_use s"
  "page_entry (relock as l b s) = page_entry s" "table (relock as l b s) = table s" "alloc_returns (relock as l b s) = alloc_returns s"
  "next_desc (relock as l b s) = next_desc s" "FRAME_BITMAP (relock as l b s) = FRAME_BITMAP s"
  "OOM_SIMULATION (relock as l b s) = OOM_SIMULATION s" "mm_ok DS (relock as l b s) = mm_ok DS s"
  "as_ok DS (relock as l b s) as' = as_ok DS s as'" "paging_on (relock as l b s) = paging_on s"
  "data_frame DS (relock as l b s) = data_frame DS s"
proof -
  have e: "entry_at (relock as l b s) f i = entry_at s f i" for f i by (simp add: relock_def entry_at_def)
  have d: "page_dir_phy_addr (addr_spaces (relock as l b s) a) = page_dir_phy_addr (addr_spaces s a)" for a
    by (simp add: relock_def)
  have c: "get_curr_addr_space (relock as l b s) = get_curr_addr_space s" "cr3 (relock as l b s) = cr3 s"
    "top_dir (relock as l b s) = top_dir s" "paging_on (relock as l b s) = paging_on s"
    by (simp_all add: relock_def get_curr_addr_space_def top_dir_def)
  show t: "table (relock as l b s) = table s" by (simp add: fun_eq_iff table_def e)
  show di: "dir_of (relock as l b s) = dir_of s" by (simp add: fun_eq_iff dir_of_def d)
  show "page_entry (relock as l b s) = page_entry s" by (simp add: fun_eq_iff page_entry_def t e)
  have w: "frames_in_use (relock as l b s) = frames_in_use s" "wf_frames (relock as l b s) = wf_frames s"
    by (simp_all add: relock_def frames_in_use_def wf_frames_def)
  show "mm_ok DS (relock as l b s) = mm_ok DS s"
    by (simp add: mm_ok_def tables_ok_def paged_ok_def t w c d)
  show "as_ok DS (relock as l b s) as' = as_ok DS s as'" by (simp add: as_ok_def d di c)
  show "data_frame DS (relock as l b s) = data_frame DS s" by (simp add: fun_eq_iff data_frame_def t w)
qed (simp_all add: relock_def frames_in_use_def alloc_returns_def next_desc_def)

lemma lock_addr_space_free:
  "lock_free (as_lock (addr_spaces s as)) \<Longrightarrow>
    lock_addr_space as s = Some (relock as (held_by (cpu_id s) (int_flag s)) False s)"
  by (simp add: lock_addr_space_def relock_def)

lemma unlock_addr_space_held:
  "as_lock (addr_spaces s as) = held_by (cpu_id s) irq \<Longrightarrow>
    unlock_addr_space as s = Some (relock as (released irq) irq s)"
  by (simp add: unlock_addr_space_def relock_def)

text \<open>The pages that the bytes of a range touch.\<close>

definition range_pages :: "addr \<Rightarrow> u32 \<Rightarrow> nat" where
  "range_pages v len = ceil_div (unat len + unat (page_offset v)) 4096"

definition user_bytes :: "addr \<Rightarrow> u32 \<Rightarrow> bool" where
  "user_bytes v len \<longleftrightarrow> unat v + unat len \<le> 0xC0000000"

lemma page_split:
  "unat (page_offset v) = unat v mod 4096" "unat (get_page_addr v) = unat v - unat v mod 4096"
  "v - get_page_addr v = page_offset v" "is_4kib_aligned (get_page_addr v)" "pgno (get_page_addr v) = pgno v"
proof -
  have sum: "get_page_addr v + page_offset v = v"
    using get_page_addr_split [of v] by (simp only: page_offset_def page_mask take_bit_eq_mask)
  then show "v - get_page_addr v = page_offset v" by (metis add_diff_cancel_left')
  show o: "unat (page_offset v) = unat v mod 4096"
    unfolding page_offset_def page_mask take_bit_eq_mask [symmetric] by (simp add: take_bit_eq_mod unat_mod_distrib)
  have "get_page_addr v \<le> v" by (simp add: get_page_addr_def word_and_le2)
  then have "unat (v - get_page_addr v) = unat v - unat (get_page_addr v)" "unat (get_page_addr v) \<le> unat v"
    by (simp_all add: unat_sub word_le_nat_alt)
  with o \<open>v - get_page_addr v = page_offset v\<close> show u: "unat (get_page_addr v) = unat v - unat v mod 4096" by simp
  show "is_4kib_aligned (get_page_addr v)" by (simp add: aligned_mod u minus_mod_eq_mult_div)
  show "pgno (get_page_addr v) = pgno v" by (simp add: pgno_def u minus_mod_eq_mult_div)
qed

lemma user_bytes_range:
  assumes "user_bytes v len"
  shows "user_range (get_page_addr v) (range_pages v len)"
proof -
  have "unat v mod 4096 \<le> unat v" by simp
  have "unat (get_page_addr v) mod 4096 = 0" using page_split(4) by (simp add: aligned_mod)
  then obtain a where a: "unat (get_page_addr v) = a * 4096"
    using div_mult_mod_eq [of "unat (get_page_addr v)" 4096] by (metis add.right_neutral)
  have below: "unat (get_page_addr v) \<le> unat v" by (simp add: page_split(2))
  have "a * 4096 \<le> 786432 * 4096" using a below assms by (simp add: user_bytes_def)
  then have "a \<le> 786432" by simp
  have "unat len + unat (page_offset v) \<le> (786432 - a) * 4096"
    using assms a page_split(1,2) [of v] \<open>a \<le> 786432\<close> \<open>unat v mod 4096 \<le> unat v\<close>
    by (simp add: user_bytes_def diff_mult_distrib)
  then have "range_pages v len \<le> 786432 - a"
    unfolding range_pages_def by (simp add: ceil_div_least)
  then have "range_pages v len * 4096 \<le> (786432 - a) * 4096" by simp
  then show ?thesis
    using a \<open>a \<le> 786432\<close> page_split(4) [of v] by (simp add: user_range_def diff_mult_distrib)
qed

lemma page_count:
  assumes "user_bytes v len" and "page_offset p = page_offset v"
  obtains k where "ceil_x_over_y_u32 (len + (p - get_page_addr p)) PAGE_SIZE = Some k" and "unat k = range_pages v len"
proof -
  have "unat v mod 4096 \<le> unat v" by simp
  then have "unat len + unat (page_offset v) < 2 ^ 32" using assms(1) by (simp add: user_bytes_def page_split(1))
  then have "unat (len + (p - get_page_addr p)) = unat len + unat (page_offset v)"
    unfolding page_split(3) assms(2) by (simp add: unat_add_no_overflow)
  moreover obtain k where "ceil_x_over_y_u32 (len + (p - get_page_addr p)) PAGE_SIZE = Some k"
    "unat k = ceil_div (unat (len + (p - get_page_addr p))) (unat PAGE_SIZE)"
    using ceil_x_over_y_u32_value [of PAGE_SIZE] by (auto simp: PAGE_SIZE_def)
  ultimately show thesis using that by (simp add: range_pages_def PAGE_SIZE_def)
qed

text \<open>The pages of a range of user bytes are not mapped, or are mapped to given entries.\<close>

definition range_free :: "'a paging_state_scheme \<Rightarrow> addr \<Rightarrow> addr \<Rightarrow> u32 \<Rightarrow> bool" where
  "range_free s as v len \<longleftrightarrow>
     (\<forall>m < range_pages v len. page_entry s (dir_of s as) (chunk (get_page_addr v) m) = None)"

lemma do_paging_map_in_ok:
  assumes can: "can_map DS as s" and bytes: "user_bytes v len" and off: "page_offset p = page_offset v"
    and free: "range_free s as v len"
  obtains (mapped) s' where "do_paging_map_in as p v len flags s = Some (True, s')"
      and "mapped_range DS (dir_of s as) (get_page_addr p) (get_page_addr v) flags (range_pages v len) s s'"
  | (failed) s' where "do_paging_map_in as p v len flags s = Some (False, s')" and "same_views DS s s'"
      and "OOM_SIMULATION s \<or> unat (bm_size (FRAME_BITMAP s)) < card (frames_in_use s) + range_pages v len"
proof -
  let ?n = "range_pages v len"
  have c: "mm_ok DS s" "as_ok DS s as" "alloc_returns s" "error_list s \<noteq> [] \<or> next_desc s"
    using can by (simp_all add: can_map_def)
  obtain k where k: "ceil_x_over_y_u32 (len + (p - get_page_addr p)) PAGE_SIZE = Some k" "unat k = ?n"
    using page_count [OF bytes off] .
  have "map_progress DS as (get_page_addr p) (get_page_addr v) flags 0 s s"
    using c by (auto simp: map_progress_def mapped_range_def in_pages_def)
  from map_pages_ok [OF user_bytes_range [OF bytes] page_split(4) c(2) free [unfolded range_free_def] this]
  obtain ok s' where run: "map_pages as (get_page_addr p) (get_page_addr v) flags [0..<?n] s = Some (ok, s')"
    and res: "if ok then map_progress DS as (get_page_addr p) (get_page_addr v) flags ?n s s'
      else same_views DS s s' \<and> error_list s' \<noteq> [] \<and>
        (OOM_SIMULATION s \<or> unat (bm_size (FRAME_BITMAP s)) < card (frames_in_use s) + ?n)" by auto
  have "do_paging_map_in as p v len flags s = Some (ok, s')"
    using k run off by (simp add: do_paging_map_in_def Let_def)
  then show thesis using mapped failed res by (cases ok) (auto simp: map_progress_def)
qed

lemma do_paging_unmap_in_ok:
  assumes mm: "mm_ok DS s" and as: "as_ok DS s as" and bytes: "user_bytes v len"
    and mapped: "\<forall>m < range_pages v len. page_entry s (dir_of s as) (chunk (get_page_addr v) m) = Some (e m)"
    and f: "free \<Longrightarrow> \<forall>m < range_pages v len. data_frame DS s (entry_frame (e m))"
      "free \<Longrightarrow> inj_on (\<lambda>m. entry_frame (e m)) {0..<range_pages v len}"
  obtains s' where "do_paging_unmap_in as v len free s = Some s'"
    and "unmapped_range DS (dir_of s as) (get_page_addr v) 0 (range_pages v len)
      (if free then (\<lambda>m. unat (entry_frame (e m))) ` {0..<range_pages v len} else {}) s s'"
proof -
  obtain k where k: "ceil_x_over_y_u32 (len + (v - get_page_addr v)) PAGE_SIZE = Some k" "unat k = range_pages v len"
    using page_count [OF bytes refl] .
  have "\<exists>s'. unmap_pages as (get_page_addr v) free [0..<range_pages v len] s = Some s' \<and>
    unmapped_range DS (dir_of s as) (get_page_addr v) 0 (range_pages v len)
      (if free then (\<lambda>m. unat (entry_frame (e m))) ` {0..<range_pages v len} else {}) s s'"
    by (rule unmap_pages_ok [OF user_bytes_range [OF bytes] _ mm as]) (use mapped f in auto)
  then obtain s' where "unmap_pages as (get_page_addr v) free [0..<range_pages v len] s = Some s'"
    "unmapped_range DS (dir_of s as) (get_page_addr v) 0 (range_pages v len)
      (if free then (\<lambda>m. unat (entry_frame (e m))) ` {0..<range_pages v len} else {}) s s'" by blast
  then show thesis using that k by (simp add: do_paging_unmap_in_def Let_def)
qed

lemma same_cpu_relock:
  assumes "same_cpu (relock as l b s) s'"
  shows "as_lock (addr_spaces s' as) = l" "int_flag s' = b" "cpu_id s' = cpu_id s" "as_ok DS s' a = as_ok DS s a"
    "dir_of s' a = dir_of s a" "garbage s' = garbage s"
  using same_cpu_sel [OF assms] by simp_all

text \<open>What a call leaves behind besides the views: the lock is free and the cpu as it was.\<close>

definition settled :: "u32 set \<Rightarrow> addr \<Rightarrow> 'a paging_state_scheme \<Rightarrow> 'a paging_state_scheme \<Rightarrow> bool" where
  "settled DS as s s' \<longleftrightarrow> mm_ok DS s' \<and> lock_free (as_lock (addr_spaces s' as)) \<and> int_flag s' = int_flag s \<and>
     cpu_id s' = cpu_id s \<and> as_ok DS s' as = as_ok DS s as \<and> dir_of s' as = dir_of s as"

lemma settled_relock:
  assumes "same_cpu (relock as l b s) s'" and "mm_ok DS s'"
  shows "settled DS as s (relock as (released (int_flag s)) (int_flag s) s')"
  using same_cpu_relock [OF assms(1)] assms(2) by (simp add: settled_def)

lemma paging_map_in_ok:
  assumes can: "can_map DS as s" and lock: "lock_free (as_lock (addr_spaces s as))"
    and bytes: "user_bytes v len" and off: "page_offset p = page_offset v" and free: "range_free s as v len"
  obtains ok s' where "paging_map_in as p v len flags s = Some (ok, s')" and "settled DS as s s'"
    and "\<not> ok \<Longrightarrow> OOM_SIMULATION s \<or> unat (bm_size (FRAME_BITMAP s)) < card (frames_in_use s) + range_pages v len"
    and "\<And>D w. D \<in> DS \<Longrightarrow> pde_index w < 1022 \<Longrightarrow> page_entry s' D w =
      (if ok \<and> D = dir_of s as \<and> in_pages v 0 (range_pages v len) w
       then Some (make_pte (garbage s) flags (chunk (get_page_addr p) (pgno w - pgno v))) else page_entry s D w)"
proof -
  let ?l = "held_by (cpu_id s) (int_flag s)"
  define s0 where "s0 = relock as ?l False s"
  have can0: "can_map DS as s0" and free0: "range_free s0 as v len"
    using can free by (simp_all add: s0_def can_map_def range_free_def)
  have start: "lock_addr_space as s = Some s0" using lock by (simp add: lock_addr_space_free s0_def)
  have finish: "unlock_addr_space as s1 = Some (relock as (released (int_flag s)) (int_flag s) s1)"
    if "same_cpu s0 s1" for s1
    using same_cpu_relock [OF that [unfolded s0_def]] by (simp add: unlock_addr_space_held)
  have pages: "in_pages (get_page_addr v) 0 n w = in_pages v 0 n w" for n w by (simp add: in_pages_def page_split(5))
  from can0 bytes off free0 show thesis
  proof (cases rule: do_paging_map_in_ok [where flags = flags])
    case (mapped s1)
    then have same: "same_cpu s0 s1" "mm_ok DS s1" by (simp_all add: mapped_range_def)
    show thesis
    proof (rule that [of True "relock as (released (int_flag s)) (int_flag s) s1"])
      show "paging_map_in as p v len flags s = Some (True, relock as (released (int_flag s)) (int_flag s) s1)"
        using start mapped(1) finish [OF same(1)] by (simp add: paging_map_in_def)
      show "settled DS as s (relock as (released (int_flag s)) (int_flag s) s1)"
        using settled_relock same unfolding s0_def by metis
    qed (use mapped_range_view [OF mapped(2)] in \<open>simp_all add: s0_def pages page_split(5)\<close>)
  next
    case (failed s1)
    then have same: "same_cpu s0 s1" "mm_ok DS s1" by (simp_all add: same_views_def)
    show thesis
    proof (rule that [of False "relock as (released (int_flag s)) (int_flag s) s1"])
      show "paging_map_in as p v len flags s = Some (False, relock as (released (int_flag s)) (int_flag s) s1)"
        using start failed(1) finish [OF same(1)] by (simp add: paging_map_in_def)
      show "settled DS as s (relock as (released (int_flag s)) (int_flag s) s1)"
        using settled_relock same unfolding s0_def by metis
    qed (use failed(2,3) in \<open>simp_all add: s0_def same_views_def\<close>)
  qed
qed

lemma paging_unmap_in_ok:
  assumes mm: "mm_ok DS s" and as: "as_ok DS s as" and lock: "lock_free (as_lock (addr_spaces s as))"
    and bytes: "user_bytes v len"
    and mapped: "\<forall>m < range_pages v len. page_entry s (dir_of s as) (chunk (get_page_addr v) m) = Some (e m)"
  obtains s' where "paging_unmap_in as v len s = Some s'" and "settled DS as s s'"
    and "\<And>D w. D \<in> DS \<Longrightarrow> pde_index w < 1022 \<Longrightarrow> page_entry s' D w =
      (if D = dir_of s as \<and> in_pages v 0 (range_pages v len) w then None else page_entry s D w)"
proof -
  let ?l = "held_by (cpu_id s) (int_flag s)"
  define s0 where "s0 = relock as ?l False s"
  have start: "lock_addr_space as s = Some s0" using lock by (simp add: lock_addr_space_free s0_def)
  obtain s1 where s1: "do_paging_unmap_in as v len False s0 = Some s1"
    "unmapped_range DS (dir_of s0 as) (get_page_addr v) 0 (range_pages v len) {} s0 s1"
    using do_paging_unmap_in_ok [of DS s0 as v len e False] mm as bytes mapped by (auto simp: s0_def)
  then have same: "same_cpu s0 s1" "mm_ok DS s1" by (simp_all add: unmapped_range_def)
  show thesis
  proof (rule that [of "relock as (released (int_flag s)) (int_flag s) s1"])
    show "paging_unmap_in as v len s = Some (relock as (released (int_flag s)) (int_flag s) s1)"
      using start s1(1) same_cpu_relock [OF same(1) [unfolded s0_def]]
      by (simp add: paging_unmap_in_def unlock_addr_space_held)
    show "settled DS as s (relock as (released (int_flag s)) (int_flag s) s1)"
      using settled_relock same unfolding s0_def by metis
  qed (use unmapped_range_view [OF s1(2)] in \<open>simp_all add: s0_def in_pages_def page_split(5)\<close>)
qed

subsection \<open>An example\<close>

text \<open>
  A machine with five frames and two address spaces, whose directories are frames 2 (the kernel's, in use) and
  1; frame 4 is the table of the temporary mappings.
\<close>

definition example_dir :: "u32 \<Rightarrow> u32 \<Rightarrow> u32" where
  "example_dir self i = (if i = 1023 then self else if i = 1022 then 0x4001 else 0)"

definition paged_example :: paging_state where
  "paged_example = \<lparr>cpu_id = 0, int_flag = True, error_list = [], error_descs = [True],
     kmalloc_answers = [300], kmalloc_live = {},
     FRAME_ALLOC_LOCK = INIT_SPINLOCK,
     FRAME_BITMAP = \<lparr>bm_size = 5, bm_free = 2, bm_data = [9]\<rparr>, OOM_SIMULATION = False,
     pmem = (\<lambda>f. if f = 1 then example_dir 0x1001 else if f = 2 then example_dir 0x2001 else (\<lambda>_. 0)),
     paging_on = True, cr3 = 0x2000, kernel_as = 100, curr_addr_space = (\<lambda>_. 100),
     addr_spaces = (\<lambda>a. \<lparr>as_lock = INIT_SPINLOCK, page_dir_phy_addr = (if a = 100 then 0x2000 else 0x1000)\<rparr>),
     garbage = 0\<rparr>"

lemma paged_example_table:
  "table paged_example D i =
    (if D \<in> {1, 2} then if i = 1023 then Some D else if i = 1022 then Some 4 else None else None)"
  by (auto simp: table_def entry_at_def paged_example_def example_dir_def present_def entry_frame_def)

lemma paged_example_frames: "frames_in_use paged_example = {1, 2, 4}"
  by (simp add: frames_in_use_def paged_example_def bits_eval) (simp add: numeral_eq_Suc)

lemma paged_example_ok: "mm_ok {1, 2} paged_example"
proof -
  have "wf_frames paged_example"
    by (simp add: wf_frames_def paged_example_def wf_bitmap_def bits_eval)
  moreover have "tables_ok {1, 2} paged_example"
    by (rule tables_okI) (auto simp: paged_example_table paged_example_frames split: if_splits)
  moreover have "paged_ok {1, 2} paged_example"
    unfolding paged_ok_def paged_example_table
    by (simp add: paged_example_def top_dir_def get_curr_addr_space_def)
  ultimately show ?thesis by (simp add: mm_ok_def)
qed

lemma paged_example_dir: "dir_of paged_example as = (if as = 100 then 2 else 1)"
  by (simp add: dir_of_def paged_example_def)

lemma paged_example_as: "as_ok {1, 2} paged_example as"
  unfolding as_ok_def paged_example_dir
  by (simp add: paged_example_def top_dir_def get_curr_addr_space_def is_4kib_aligned_def)

lemma paged_example_can: "can_map {1, 2} as paged_example"
  using paged_example_ok paged_example_as
  by (simp add: can_map_def) (simp add: alloc_returns_def paged_example_def next_desc_def)

lemma paged_example_free:
  assumes "pde_index v < 1022"
  shows "page_entry paged_example D v = None"
proof -
  have "pde_index v \<noteq> 1022" "pde_index v \<noteq> 1023" using assms by (auto simp: word_bounds)
  then show ?thesis by (simp add: page_entry_def paged_example_table)
qed

lemma paged_example_range: "user_bytes v len \<Longrightarrow> range_free paged_example as v len"
  using paged_example_free below_user [OF chunk_ok(5) [OF user_bytes_range]] by (simp add: range_free_def)

subsection \<open>Properties\<close>




lemma paged_example_maps:
  obtains s' where "paging_map_in 200 0x5123 0x8123 8 VM_USER paged_example = Some (True, s')"
proof -
  have b: "user_bytes 0x8123 8" by (simp add: user_bytes_def)
  have n: "range_pages 0x8123 8 = 1" by (simp add: range_pages_def page_offset_def ceil_div_def)
  have lock: "lock_free (as_lock (addr_spaces paged_example 200))" by (simp add: paged_example_def)
  have off: "page_offset 0x5123 = page_offset 0x8123" by (simp add: page_offset_def)
  have sz: "unat (bm_size (FRAME_BITMAP paged_example)) = 5" "\<not> OOM_SIMULATION paged_example"
    by (simp_all add: paged_example_def)
  obtain ok s' where s': "paging_map_in 200 0x5123 0x8123 8 VM_USER paged_example = Some (ok, s')"
    "\<not> ok \<Longrightarrow> OOM_SIMULATION paged_example \<or>
      unat (bm_size (FRAME_BITMAP paged_example)) < card (frames_in_use paged_example) + range_pages 0x8123 8"
    using paging_map_in_ok [OF paged_example_can lock b off paged_example_range [OF b]] by metis
  have ok using s'(2) sz(2) unfolding sz(1) paged_example_frames n by fastforce
  then show thesis using s'(1) that by simp
qed


text \<open>
  C38: unmapping the last page of a kernel page table leaves every other address space with a dangling page table.
  \<open>unmap_page_in\<close> frees the table's frame and takes it out of the kernel's directory only; the directories of the
  processes still point to the frame, which the allocator may now hand out to anybody.
\<close>

theorem kernel_table_dangles:
  assumes "mm_ok DS s" and "as_ok DS s as" and "as = kernel_as s" and "is_4kib_aligned v" and "pde_index v < 1022"
    and "table s (dir_of s as) (pde_index v) = Some T" and "entry_at s T (pte_index v) = Some e" and "last_page s T v"
    and "D \<in> DS" and "D \<noteq> dir_of s as" and "table s D (pde_index v) = Some T"
  shows "\<exists>s'. unmap_page_in as v False s = Some s' \<and> table s' D (pde_index v) = Some T \<and> unat T \<in> frames_in_use s \<and>
    unat T \<notin> frames_in_use s'"
proof -
  obtain s1 where s1: "unmap_page_in as v False s = drop_table as (pde_index v) s1" "mm_ok DS s1" "same_cpu s s1"
    "\<And>D j. D \<in> DS \<Longrightarrow> table s1 D j = table s D j"
    using clear_entry [OF assms(1,2,6,7,5), of False] assms(3,4,8) by metis
  note sel = same_cpu_sel [OF s1(3)]
  have D: "dir_of s as \<in> DS" using assms(2) by (simp add: as_ok_def)
  have as1: "as_ok DS s1 as" "table s1 (dir_of s1 as) (pde_index v) = Some T"
    using assms(2,6) sel s1(4) [OF D] by simp_all
  obtain s2 where "drop_table as (pde_index v) s1 = Some s2" "frames_in_use s2 = frames_in_use s1 - {unat T}"
    "\<And>D' j. D' \<in> DS \<Longrightarrow> table s2 D' j = (if D' = dir_of s1 as \<and> j = pde_index v then None else table s1 D' j)"
    using drop_table_run [OF s1(2) as1 assms(5)] by metis
  moreover have "unat T \<in> frames_in_use s"
    using tables_okD(2) [OF mm_okD(2) [OF assms(1)] D below_special(1) [OF assms(5)] assms(6)] .
  ultimately show ?thesis using s1(1,4) assms(9-11) sel(9) by auto
qed

text \<open>The example with a kernel page table, frame 0, that both directories have, holding one page.\<close>

definition shared_example :: paging_state where
  "shared_example = paged_example
     \<lparr>FRAME_BITMAP := \<lparr>bm_size = 5, bm_free = 1, bm_data = [8]\<rparr>,
      pmem := (\<lambda>f. if f = 1 then (example_dir 0x1001)(800 := 1) else if f = 2 then (example_dir 0x2001)(800 := 1)
                   else if f = 0 then (\<lambda>_. 0)(5 := 0x3001) else (\<lambda>_. 0))\<rparr>"

lemma shared_example_table:
  "table shared_example D i =
    (if D \<in> {1, 2} then if i = 1023 then Some D else if i = 1022 then Some 4 else if i = 800 then Some 0 else None
     else if D = 0 \<and> i = 5 then Some 3 else None)"
  by (auto simp: table_def entry_at_def shared_example_def paged_example_def example_dir_def present_def entry_frame_def)

lemma shared_example_ok: "mm_ok {1, 2} shared_example"
proof -
  have frames: "frames_in_use shared_example = {0, 1, 2, 4}"
    by (simp add: frames_in_use_def shared_example_def bits_eval) (simp add: numeral_eq_Suc)
  have "wf_frames shared_example"
    by (simp add: wf_frames_def shared_example_def paged_example_def wf_bitmap_def bits_eval)
  moreover have "tables_ok {1, 2} shared_example"
    by (rule tables_okI) (auto simp: shared_example_table frames split: if_splits)
  moreover have "paged_ok {1, 2} shared_example"
    unfolding paged_ok_def shared_example_table
    by (simp add: shared_example_def paged_example_def top_dir_def get_curr_addr_space_def)
  ultimately show ?thesis by (simp add: mm_ok_def)
qed

theorem kernel_table_dangles_witness:
  "\<exists>s'. unmap_page_in 100 0xC8005000 False shared_example = Some s' \<and> table s' 1 800 = Some 0 \<and> 0 \<notin> frames_in_use s'"
proof -
  have idx: "pde_index 0xC8005000 = 800" "pte_index 0xC8005000 = 5" by (simp_all add: pde_index_def pte_index_def)
  have a: "as_ok {1, 2} shared_example 100" and d: "dir_of shared_example 100 = 2" and k: "100 = kernel_as shared_example"
    by (simp_all add: as_ok_def dir_of_def shared_example_def paged_example_def top_dir_def get_curr_addr_space_def
        is_4kib_aligned_def)
  have e: "entry_at shared_example 0 (pte_index 0xC8005000) = Some 0x3001"
    by (simp add: idx entry_at_def shared_example_def present_def)
  have l: "last_page shared_example 0 0xC8005000"
    by (simp add: last_page_def idx entry_at_def shared_example_def)
  have al: "is_4kib_aligned 0xC8005000" by (simp add: is_4kib_aligned_def)
  have i: "pde_index 0xC8005000 < 1022" by (simp add: idx)
  have t: "table shared_example (dir_of shared_example 100) (pde_index 0xC8005000) = Some 0"
    "table shared_example 1 (pde_index 0xC8005000) = Some 0" "1 \<noteq> dir_of shared_example 100"
    by (simp_all add: idx d shared_example_table)
  have "1 \<in> {1, 2 :: u32}" by simp
  from kernel_table_dangles [OF shared_example_ok a k al i t(1) e l this t(3,2)]
  show ?thesis unfolding idx by auto
qed

end
