(* ===== verification/Paging_Holes.thy ===== *)
theory Paging_Holes
  imports Paging_Ranges
begin

text \<open>
  The search for unmapped pages in the address space the cpu uses: it ends, and it returns the lowest address
  from the given one on with enough consecutive unmapped pages, or reports that there is none.
\<close>

subsection \<open>Pages by number\<close>

text \<open>The pages below the table of the temporary mappings.\<close>

definition MAXP :: nat where
  "MAXP = 1022 * 1024"

definition page_addr :: "nat \<Rightarrow> addr" where
  "page_addr k = of_nat (k * 4096)"

definition free_page :: "'a paging_state_scheme \<Rightarrow> u32 \<Rightarrow> nat \<Rightarrow> bool" where
  "free_page s D k \<longleftrightarrow> page_entry s D (page_addr k) = None"

lemma page_addr_ok:
  assumes "k \<le> MAXP"
  shows "unat (page_addr k) = k * 4096" "pgno (page_addr k) = k" "is_4kib_aligned (page_addr k)"
    "page_addr k + PAGE_SIZE = page_addr (Suc k)" "page_addr k < max_ptr \<longleftrightarrow> k < MAXP" "page_addr k \<noteq> NO_REGION"
proof -
  have "k * 4096 < 2 ^ LENGTH(32)" using assms by (simp add: MAXP_def)
  then show u: "unat (page_addr k) = k * 4096" unfolding page_addr_def by (rule unat_of_nat_bounded)
  show "pgno (page_addr k) = k" by (simp add: pgno_def u)
  show "is_4kib_aligned (page_addr k)" by (simp add: aligned_mod u)
  show "page_addr k + PAGE_SIZE = page_addr (Suc k)" by (simp add: page_addr_def PAGE_SIZE_def)
  show "page_addr k < max_ptr \<longleftrightarrow> k < MAXP" by (simp add: word_bounds u max_ptr_value MAXP_def)
  show "page_addr k \<noteq> NO_REGION"
  proof
    assume "page_addr k = NO_REGION"
    then have "k * 4096 = 4294967295" using u by (simp add: NO_REGION_def)
    then show False using assms by (simp add: MAXP_def)
  qed
qed

lemma page_index_ok:
  assumes "k < MAXP"
  shows "unat (pde_index (page_addr k)) = k div 1024" "unat (pte_index (page_addr k)) = k mod 1024"
    "pde_index (page_addr k) < 1022"
proof -
  show d: "unat (pde_index (page_addr k)) = k div 1024" "unat (pte_index (page_addr k)) = k mod 1024"
    using pgno_indices [of "page_addr k"] page_addr_ok(2) [of k] assms by simp_all
  have "k div 1024 < 1022" using assms by (simp add: MAXP_def div_less_iff_less_mult)
  then show "pde_index (page_addr k) < 1022" by (simp add: word_bounds d)
qed

subsection \<open>The current address space\<close>

definition running :: "u32 set \<Rightarrow> 'a paging_state_scheme \<Rightarrow> addr \<Rightarrow> bool" where
  "running DS s as \<longleftrightarrow> mm_ok DS s \<and> paging_on s \<and> as = get_curr_addr_space s"

lemma running_dir:
  assumes "running DS s as"
  shows "dir_of s as \<in> DS" "dir_of s as = top_dir s" "get_page_dir create_temp_mapping as s = Some (0xFFFFF000, s)"
    "i < 1024 \<Longrightarrow> load (entry_addr 0xFFFFF000 i) s = Some (pmem s (dir_of s as) i)"
proof -
  have r: "mm_ok DS s" "paging_on s" "as = get_curr_addr_space s" using assms by (simp_all add: running_def)
  note d = mm_paged [OF r(1,2)]
  show t: "dir_of s as = top_dir s" using current_dir [OF r(1,2)] r(3) by simp
  show "dir_of s as \<in> DS" using t d(1) by simp
  show "get_page_dir create_temp_mapping as s = Some (0xFFFFF000, s)"
    using r by (simp add: get_page_dir_def RECURSIVE_PDE_IDX_def)
  show "i < 1024 \<Longrightarrow> load (entry_addr 0xFFFFF000 i) s = Some (pmem s (dir_of s as) i)"
    using recursive_dir(1) [OF r(2) d(2) [OF d(1)]] t by simp
qed

lemma running_table:
  assumes run: "running DS s as" and i: "i < 1022" and T: "table s (dir_of s as) i = Some T"
  obtains pt where "get_page_table create_temp_mapping 0xFFFFF000 i s = Some (pt, s)" and "window s pt T"
proof -
  have r: "mm_ok DS s" "paging_on s" using run by (simp_all add: running_def)
  note d = mm_paged [OF r] and rd = running_dir [OF run]
  have "T \<notin> DS" using tables_okD(1) [OF mm_okD(2) [OF r(1)] rd(1) below_special(1) [OF i] T] .
  then have "T \<noteq> top_dir s" using d(1) by metis
  then have "window s (push_bit 22 RECURSIVE_PDE_IDX OR push_bit 12 i) T"
    using recursive_table [OF r(2) d(2) [OF d(1)] _ below_special(2) [OF i]] T rd(2) by simp
  moreover have "get_page_table create_temp_mapping 0xFFFFF000 i s =
      Some (push_bit 22 RECURSIVE_PDE_IDX OR push_bit 12 i, s)"
    using r(2) by (simp add: get_page_table_def)
  ultimately show thesis using that by blast
qed

lemma page_is_mapped_running:
  assumes run: "running DS s as" and k: "k < MAXP"
  shows "page_is_mapped as (page_addr k) s = Some (\<not> free_page s (dir_of s as) k, s)"
proof -
  let ?v = "page_addr k" and ?D = "dir_of s as"
  note rd = running_dir [OF run] and ix = page_index_ok [OF k]
  have al: "is_4kib_aligned ?v" using page_addr_ok(3) k by simp
  note load = rd(4) [OF index_bounds(1) [of ?v]]
  show ?thesis
  proof (cases "table s ?D (pde_index ?v)")
    case None
    then have "\<not> present (pmem s ?D (pde_index ?v))" by (simp add: table_None)
    then show ?thesis
      using al rd(3) load None by (simp add: page_is_mapped_def free_page_def page_entry_def)
  next
    case (Some T)
    then obtain pt where "get_page_table create_temp_mapping 0xFFFFF000 (pde_index ?v) s = Some (pt, s)" "window s pt T"
      using running_table [OF run ix(3)] by blast
    moreover have "present (pmem s ?D (pde_index ?v))" using Some by (simp add: table_Some)
    ultimately show ?thesis
      using al rd(3) load Some window_load [of s pt T "pte_index ?v"]
      by (simp add: page_is_mapped_def free_page_def page_entry_def entry_at_None)
  qed
qed

text \<open>The next unmapped page.\<close>

lemma find_next_running:
  assumes run: "running DS s as" and "k \<le> MAXP"
  obtains (found) m where "find_next_non_mapped_page as (page_addr k) s = Some (page_addr m, s)" and "k \<le> m" and "m < MAXP"
      and "free_page s (dir_of s as) m" and "\<And>j. k \<le> j \<Longrightarrow> j < m \<Longrightarrow> \<not> free_page s (dir_of s as) j"
  | (none) "find_next_non_mapped_page as (page_addr k) s = Some (NO_REGION, s)"
      and "\<And>j. k \<le> j \<Longrightarrow> j < MAXP \<Longrightarrow> \<not> free_page s (dir_of s as) j"
  using assms(2)
proof (induction "MAXP - k" arbitrary: k thesis)
  case 0
  then have "k = MAXP" by simp
  with 0 page_addr_ok(5) [of k] show ?case by (simp add: find_next_non_mapped_page.simps)
next
  case (Suc d)
  then have k: "k < MAXP" by simp
  have step: "find_next_non_mapped_page as (page_addr k) s =
      (if free_page s (dir_of s as) k then Some (page_addr k, s) else find_next_non_mapped_page as (page_addr (Suc k)) s)"
    using page_addr_ok(4,5) [of k] k page_is_mapped_running [OF run k]
    by (subst find_next_non_mapped_page.simps) simp
  show ?case
  proof (cases "free_page s (dir_of s as) k")
    case True
    with step k show ?thesis by (intro Suc.prems(1) [of k]) simp_all
  next
    case False
    have d: "d = MAXP - Suc k" "Suc k \<le> MAXP" using Suc.hyps(2) k by simp_all
    show ?thesis
    proof (rule Suc.hyps(1) [OF d(1) _ _ d(2)])
      fix m
      assume m: "find_next_non_mapped_page as (page_addr (Suc k)) s = Some (page_addr m, s)" "Suc k \<le> m" "m < MAXP"
        "free_page s (dir_of s as) m" "\<And>j. Suc k \<le> j \<Longrightarrow> j < m \<Longrightarrow> \<not> free_page s (dir_of s as) j"
      have "\<not> free_page s (dir_of s as) j" if "k \<le> j" "j < m" for j
        using m(5) [of j] False that by (cases "j = k") auto
      then show thesis using Suc.prems(1) [of m] m step False by simp
    next
      assume none: "find_next_non_mapped_page as (page_addr (Suc k)) s = Some (NO_REGION, s)"
        "\<And>j. Suc k \<le> j \<Longrightarrow> j < MAXP \<Longrightarrow> \<not> free_page s (dir_of s as) j"
      have "\<not> free_page s (dir_of s as) j" if "k \<le> j" "j < MAXP" for j
        using none(2) [of j] False that by (cases "j = k") auto
      then show thesis using Suc.prems(2) none(1) step False by simp
    qed
  qed
qed

subsection \<open>The size of a hole\<close>

definition hole :: "'a paging_state_scheme \<Rightarrow> u32 \<Rightarrow> nat \<Rightarrow> nat" where
  "hole s D k = length (takeWhile (free_page s D) [k..<MAXP])"

lemma hole_in_table_run:
  assumes win: "window s pt T" and "\<forall>j \<in> set js. j < 1024"
  shows "hole_in_table pt js count s =
    Some (\<exists>j \<in> set js. present (pmem s T (of_nat j)),
      count + of_nat (length (takeWhile (\<lambda>j. \<not> present (pmem s T (of_nat j))) js)))"
  using assms(2)
proof (induction js arbitrary: count)
  case (Cons j js)
  have "(of_nat j :: u32) < 1024" using Cons.prems by (simp add: word_bounds unat_of_nat_bounded)
  then show ?case using window_load [OF win] Cons by simp
qed simp

text \<open>The pages of one table, from the entry \<open>j\<close> on.\<close>

lemma takeWhile_pages:
  assumes "\<forall>j < 1024. P (i * 1024 + j) \<longleftrightarrow> Q j"
  shows "length (takeWhile P [i * 1024 + j..<i * 1024 + 1024]) = length (takeWhile Q [j..<1024])"
    "(\<forall>x \<in> set [i * 1024 + j..<i * 1024 + 1024]. P x) \<longleftrightarrow> (\<forall>x \<in> set [j..<1024]. Q x)"
proof -
  have m: "map (\<lambda>x. x + i * 1024) [j..<1024] = [i * 1024 + j..<i * 1024 + 1024]"
    by (rule nth_equalityI) auto
  have eq: "takeWhile (P \<circ> (\<lambda>x. x + i * 1024)) [j..<1024] = takeWhile Q [j..<1024]"
    by (rule takeWhile_cong) (use assms in \<open>auto simp: add.commute\<close>)
  show "length (takeWhile P [i * 1024 + j..<i * 1024 + 1024]) = length (takeWhile Q [j..<1024])"
    unfolding m [symmetric] takeWhile_map length_map eq ..
  show "(\<forall>x \<in> set [i * 1024 + j..<i * 1024 + 1024]. P x) \<longleftrightarrow> (\<forall>x \<in> set [j..<1024]. Q x)"
  proof -
    have "P (x + i * 1024) \<longleftrightarrow> Q x" if "x \<in> set [j..<1024]" for x
      using that assms by (simp add: add.commute)
    then show ?thesis unfolding m [symmetric] set_map by blast
  qed
qed

lemma free_in_table:
  assumes "i < 1022" and "j < 1024"
  shows "free_page s D (i * 1024 + j) \<longleftrightarrow>
    (case table s D (of_nat i) of None \<Rightarrow> True | Some T \<Rightarrow> \<not> present (pmem s T (of_nat j)))"
proof -
  have "i * 1024 + j < MAXP" using assms by (simp add: MAXP_def)
  note ix = page_index_ok [OF this]
  have "pde_index (page_addr (i * 1024 + j)) = of_nat i" "pte_index (page_addr (i * 1024 + j)) = of_nat j"
    using ix(1,2) assms by (simp_all add: word_unat_eq_iff unat_of_nat_bounded)
  then show ?thesis
    by (simp add: free_page_def page_entry_def entry_at_None split: option.split)
qed

lemma hole_in_dir_run:
  assumes run: "running DS s as" and v: "v = page_addr k" and k: "k < MAXP"
    and "k div 1024 \<le> i" and "i \<le> 1022"
  defines "D \<equiv> dir_of s as"
  shows "hole_in_dir 0xFFFFF000 v [i..<1022] count s =
    Some (count + of_nat (length (takeWhile (free_page s D) [(if i = k div 1024 then k else i * 1024)..<MAXP])), s)"
  using assms(4,5)
proof (induction "1022 - i" arbitrary: i count)
  case 0
  then have "i = 1022" by simp
  moreover have "k div 1024 < 1022" using k by (simp add: MAXP_def div_less_iff_less_mult)
  ultimately show ?case by (simp add: MAXP_def)
next
  case (Suc d)
  then have i: "i < 1022" by simp
  define j0 where "j0 = (if i = k div 1024 then k mod 1024 else 0)"
  have j: "j0 < 1024" by (simp add: j0_def)
  have start: "(if i = k div 1024 then k else i * 1024) = i * 1024 + j0" by (simp add: j0_def)
  have split: "[i * 1024 + j0..<MAXP] = [i * 1024 + j0..<i * 1024 + 1024] @ [Suc i * 1024..<MAXP]"
    using i j upt_add_eq_append [of "i * 1024 + j0" "i * 1024 + 1024" "MAXP - (i * 1024 + 1024)"]
    by (simp add: MAXP_def add.commute)
  have iw: "(of_nat i :: u32) < 1022" "unat (of_nat i :: u32) = i" using i by (simp_all add: word_bounds unat_of_nat_bounded)
  have here: "of_nat i = pde_index v \<longleftrightarrow> i = k div 1024"
    using page_index_ok(1) [OF k] iw(2) by (simp add: v word_unat_eq_iff)
  have jw: "(if of_nat i = pde_index v then pte_index v else 0) = of_nat j0"
  proof -
    have "pte_index v = of_nat (k mod 1024)"
      using page_index_ok(2) [OF k] by (simp add: v word_unat_eq_iff unat_of_nat_bounded)
    then show ?thesis unfolding here by (simp add: j0_def)
  qed
  note rd = running_dir [OF run]
  have load: "load (entry_addr 0xFFFFF000 (of_nat i)) s = Some (pmem s D (of_nat i))"
    using rd(4) [of "of_nat i"] below_special(2) [OF iw(1)] by (simp add: D_def)
  have rest: "hole_in_dir 0xFFFFF000 v [Suc i..<1022] c s =
      Some (c + of_nat (length (takeWhile (free_page s D) [Suc i * 1024..<MAXP])), s)" for c
    using Suc.hyps(1) [of "Suc i" c] Suc.hyps(2) Suc.prems i by simp
  show ?case
  proof (cases "table s D (of_nat i)")
    case None
    have "\<forall>x \<in> set [i * 1024 + j0..<i * 1024 + 1024]. free_page s D x"
    proof -
      have "\<forall>x < 1024. free_page s D (i * 1024 + x) \<longleftrightarrow> True" using free_in_table [OF i, of _ s D] None by simp
      from takeWhile_pages(2) [of "free_page s D" i "\<lambda>_. True" j0, OF this] show ?thesis by simp
    qed
    then have "takeWhile (free_page s D) [i * 1024 + j0..<MAXP] =
        [i * 1024 + j0..<i * 1024 + 1024] @ takeWhile (free_page s D) [Suc i * 1024..<MAXP]"
      unfolding split by - (rule takeWhile_append2, blast)
    moreover have "(if of_nat i = pde_index v then count + (of_nat PTES_PER_PAGE - pte_index v)
        else count + of_nat PTES_PER_PAGE) = count + of_nat (1024 - j0)"
    proof -
      have "of_nat (1024 - j0) = (1024 - of_nat j0 :: u32)" using j by (simp add: of_nat_diff)
      then show ?thesis using jw by (auto simp: PTES_PER_PAGE_def split: if_splits)
    qed
    moreover have "\<not> present (pmem s D (of_nat i))" using None by (simp add: table_None)
    ultimately show ?thesis
      using load rest unfolding start by (simp add: upt_conv_Cons i add_ac)
  next
    case (Some T)
    let ?Q = "\<lambda>j. \<not> present (pmem s T (of_nat j))"
    obtain pt where pt: "get_page_table create_temp_mapping 0xFFFFF000 (of_nat i) s = Some (pt, s)" "window s pt T"
      using running_table [OF run iw(1)] Some unfolding D_def by blast
    have P: "\<forall>x < 1024. free_page s D (i * 1024 + x) \<longleftrightarrow> ?Q x"
      using free_in_table [OF i, of _ s D] Some by simp
    note tw = takeWhile_pages [of "free_page s D" i ?Q j0, OF P]
    have tab: "hole_in_table pt [j0..<1024] count s =
        Some (\<not> (\<forall>x \<in> set [j0..<1024]. ?Q x), count + of_nat (length (takeWhile ?Q [j0..<1024])))"
      using hole_in_table_run [OF pt(2), of "[j0..<1024]" count] by simp
    have "present (pmem s D (of_nat i))" using Some by (simp add: table_Some)
    moreover have "unat (of_nat j0 :: u32) = j0" using j by (simp add: unat_of_nat_bounded)
    ultimately have step: "hole_in_dir 0xFFFFF000 v [i..<1022] count s =
        (if \<forall>x \<in> set [j0..<1024]. ?Q x
         then hole_in_dir 0xFFFFF000 v [Suc i..<1022] (count + of_nat (length (takeWhile ?Q [j0..<1024]))) s
         else Some (count + of_nat (length (takeWhile ?Q [j0..<1024])), s))"
      using load pt(1) tab by (simp add: upt_conv_Cons i jw PTES_PER_PAGE_def del: upt.simps set_upt)
    show ?thesis
    proof (cases "\<forall>x \<in> set [j0..<1024]. ?Q x")
      case True
      then have all: "\<forall>x \<in> set [i * 1024 + j0..<i * 1024 + 1024]. free_page s D x" using tw(2) by blast
      then have "takeWhile (free_page s D) [i * 1024 + j0..<MAXP] =
          [i * 1024 + j0..<i * 1024 + 1024] @ takeWhile (free_page s D) [Suc i * 1024..<MAXP]"
        unfolding split by - (rule takeWhile_append2, blast)
      moreover have "length (takeWhile ?Q [j0..<1024]) = 1024 - j0"
        using True by (metis length_upt takeWhile_eq_all_conv)
      ultimately show ?thesis using step rest True unfolding start by (simp add: add_ac)
    next
      case False
      then obtain x where "x \<in> set [i * 1024 + j0..<i * 1024 + 1024]" "\<not> free_page s D x" using tw(2) by blast
      then have "takeWhile (free_page s D) [i * 1024 + j0..<MAXP] =
          takeWhile (free_page s D) [i * 1024 + j0..<i * 1024 + 1024]"
        unfolding split by (rule takeWhile_append1)
      then show ?thesis using step tw(1) unfolding start if_not_P [OF False] by simp
    qed
  qed
qed

lemma compute_hole_size_running:
  assumes run: "running DS s as" and k: "k < MAXP"
  shows "compute_hole_size as (page_addr k) s = Some (of_nat (hole s (dir_of s as) k), s)"
proof -
  have le: "k div 1024 \<le> 1022" using k by (simp add: MAXP_def div_le_mono less_imp_le_nat div_less_iff_less_mult)
  show ?thesis
    using running_dir(3) [OF run] hole_in_dir_run [OF run refl k order_refl le, of 0] page_index_ok(1) [OF k]
    by (simp add: compute_hole_size_def hole_def)
qed

subsection \<open>The search\<close>

definition fits :: "'a paging_state_scheme \<Rightarrow> u32 \<Rightarrow> nat \<Rightarrow> nat \<Rightarrow> nat \<Rightarrow> bool" where
  "fits s D k n m \<longleftrightarrow> k \<le> m \<and> m + n \<le> MAXP \<and> (\<forall>j. m \<le> j \<and> j < m + n \<longrightarrow> free_page s D j)"

lemma fits_below: "fits s D k n m \<Longrightarrow> m \<le> MAXP"
  by (simp add: fits_def)

lemma takeWhile_upt_length:
  assumes "m \<le> M"
  shows "n \<le> length (takeWhile P [m..<M]) \<longleftrightarrow> m + n \<le> M \<and> (\<forall>j. m \<le> j \<and> j < m + n \<longrightarrow> P j)"
proof
  let ?w = "takeWhile P [m..<M]"
  assume n: "n \<le> length ?w"
  have "length ?w \<le> M - m" using length_takeWhile_le [of P "[m..<M]"] by simp
  then have "m + n \<le> M" using n assms by simp
  moreover have "P j" if "m \<le> j" "j < m + n" for j
  proof -
    have l: "j - m < length ?w" using that n by simp
    then have "?w ! (j - m) = j" using takeWhile_nth [OF l] \<open>m + n \<le> M\<close> that by simp
    then show "P j" using set_takeWhileD [of j P "[m..<M]"] l by (metis nth_mem)
  qed
  ultimately show "m + n \<le> M \<and> (\<forall>j. m \<le> j \<and> j < m + n \<longrightarrow> P j)" by blast
next
  let ?w = "takeWhile P [m..<M]"
  assume r: "m + n \<le> M \<and> (\<forall>j. m \<le> j \<and> j < m + n \<longrightarrow> P j)"
  show "n \<le> length ?w"
  proof (rule ccontr)
    assume "\<not> n \<le> length ?w"
    then have l: "length ?w < n" by simp
    moreover have "m + n \<le> M" using r by blast
    ultimately have "length ?w < length [m..<M]" by simp
    from nth_length_takeWhile [OF this] have "\<not> P (m + length ?w)" using l r by simp
    then show False using r l by simp
  qed
qed

lemma hole_fits:
  assumes "k \<le> MAXP"
  shows "n \<le> hole s D k \<longleftrightarrow> fits s D k n k"
  using takeWhile_upt_length [OF assms, of n "free_page s D"] by (simp add: hole_def fits_def)

lemma fits_skip:
  assumes "0 < n" and "k \<le> m" and "\<And>j. k \<le> j \<Longrightarrow> j < m \<Longrightarrow> \<not> fits s D k n j"
  shows "fits s D k n = fits s D m n"
  using assms by (auto simp: fun_eq_iff fits_def) (metis not_le)

definition search_result where
  "search_result s D k n = (if \<exists>m. fits s D k n m then (page_addr (LEAST m. fits s D k n m), s) else (NO_REGION, log_enomem s))"

lemma find_hole_none: "find_hole_from as n NO_REGION s = Some (NO_REGION, log_enomem s)"
  by (simp add: find_hole_from.simps)

lemma find_hole_running:
  assumes run: "running DS s as" and n: "0 < unat n" and "k < MAXP"
  shows "find_hole_from as n (page_addr k) s = Some (search_result s (dir_of s as) k (unat n))"
  using assms(3)
proof (induction "MAXP - k" arbitrary: k rule: less_induct)
  case less
  let ?D = "dir_of s as"
  have k: "k \<le> MAXP" using less.prems by simp
  have "hole s ?D k \<le> MAXP" using length_takeWhile_le [of "free_page s ?D" "[k..<MAXP]"] by (simp add: hole_def)
  then have "hole s ?D k < 2 ^ LENGTH(32)" by (simp add: MAXP_def)
  then have cmp: "n \<le> of_nat (hole s ?D k) \<longleftrightarrow> fits s ?D k (unat n) k"
    using hole_fits [OF k, of "unat n" s ?D] by (simp add: word_le_nat_alt unat_of_nat_bounded)
  have step: "find_hole_from as n (page_addr k) s =
      (if fits s ?D k (unat n) k then Some (page_addr k, s)
       else Option.bind (find_next_non_mapped_page as (page_addr (Suc k)) s) (\<lambda>(ptr, s). find_hole_from as n ptr s))"
    using compute_hole_size_running [OF run less.prems] page_addr_ok(4,6) [OF k] cmp
    by (subst find_hole_from.simps) simp
  show ?case
  proof (cases "fits s ?D k (unat n) k")
    case True
    then have "(LEAST m. fits s ?D k (unat n) m) = k" by (intro Least_equality) (simp_all add: fits_def)
    with True step show ?thesis by (auto simp: search_result_def)
  next
    case False
    have "Suc k \<le> MAXP" using less.prems by simp
    from run this show ?thesis
    proof (cases rule: find_next_running)
      case (found m)
      have "\<not> fits s ?D k (unat n) j" if "k \<le> j" "j < m" for j
        using False found(5) [of j] that n by (cases "j = k") (auto simp: fits_def)
      then have "fits s ?D k (unat n) = fits s ?D m (unat n)"
        using n found(2) by (intro fits_skip) simp_all
      then have "search_result s ?D k (unat n) = search_result s ?D m (unat n)" by (simp add: search_result_def)
      then show ?thesis using step False found(1,2,3) less.hyps [of m] less.prems by simp
    next
      case none
      have "\<not> fits s ?D k (unat n) j" for j
        using False none(2) [of j] n by (cases "j = k") (auto simp: fits_def)
      then show ?thesis using step False none(1) by (simp add: search_result_def find_hole_none)
    qed
  qed
qed

lemma do_find_running:
  assumes run: "running DS s as" and n: "0 < unat n" and k: "k \<le> MAXP"
  shows "do_paging_find_contiguous_non_mapped_pages_in as (page_addr k) n s = Some (search_result s (dir_of s as) k (unat n))"
  using run k
proof (cases rule: find_next_running)
  case (found m)
  have "\<not> fits s (dir_of s as) k (unat n) j" if "k \<le> j" "j < m" for j
    using found(5) [OF that] n by (auto simp: fits_def)
  then have "fits s (dir_of s as) k (unat n) = fits s (dir_of s as) m (unat n)"
    using n found(2) by (intro fits_skip) simp_all
  then have "search_result s (dir_of s as) k (unat n) = search_result s (dir_of s as) m (unat n)"
    by (simp add: search_result_def)
  then show ?thesis
    using found(1) find_hole_running [OF run n found(3)]
    by (simp add: do_paging_find_contiguous_non_mapped_pages_in_def)
next
  case none
  have "\<not> fits s (dir_of s as) k (unat n) j" for j using none(2) [of j] n by (auto simp: fits_def)
  then show ?thesis
    using none(1) by (simp add: do_paging_find_contiguous_non_mapped_pages_in_def search_result_def find_hole_none)
qed

subsection \<open>The lock\<close>

text \<open>No operation on pages touches the records of the address spaces.\<close>

lemma store_spaces: "store v x s = Some s' \<Longrightarrow> addr_spaces s' = addr_spaces s"
  by (auto simp: store_def bind_eq_Some_conv)

lemma memzero_spaces: "memzero_words page is s = Some s' \<Longrightarrow> addr_spaces s' = addr_spaces s"
  by (induction "is" arbitrary: s) (auto simp: bind_eq_Some_conv dest!: store_spaces)

lemma lock_frames_spaces:
  "get_bitmap_and_lock s = Some (b, s') \<Longrightarrow> addr_spaces s' = addr_spaces s"
  "unlock_frames s = Some s' \<Longrightarrow> addr_spaces s' = addr_spaces s"
  by (auto simp: get_bitmap_and_lock_def unlock_frames_def spinlock_lock_eq_Some spinlock_unlock_def bind_eq_Some_conv
      cpu_set_interrupt_flag_def Let_def split: if_splits)

lemma set_error_spaces: "set_error code s = Some s' \<Longrightarrow> addr_spaces s' = addr_spaces s"
  by (auto elim: set_error_shape)

lemma alloc_frame_spaces: "alloc_frame s = Some (f, s') \<Longrightarrow> addr_spaces s' = addr_spaces s"
  by (auto simp: alloc_frame_def do_allocation_def bind_eq_Some_conv Let_def log_enomem_def
      split: if_splits dest!: lock_frames_spaces)

lemma free_frame_spaces: "free_frame p s = Some s' \<Longrightarrow> addr_spaces s' = addr_spaces s"
  by (auto simp: free_frame_def bind_eq_Some_conv Let_def split: if_splits dest!: lock_frames_spaces)

text \<open>
  \<open>leaves out A m\<close>: when \<open>m\<close> returns, the records of the address spaces are \<open>A\<close>.  The rules below follow the
  composition of an operation.
\<close>

definition leaves :: "('r \<Rightarrow> 'a paging_state_scheme) \<Rightarrow> (addr \<Rightarrow> addr_space) \<Rightarrow> 'r option \<Rightarrow> bool" where
  "leaves out A m \<longleftrightarrow> (\<forall>r. m = Some r \<longrightarrow> addr_spaces (out r) = A)"

lemma leavesD: "leaves out (addr_spaces s) m \<Longrightarrow> m = Some r \<Longrightarrow> addr_spaces (out r) = addr_spaces s"
  by (simp add: leaves_def)

lemma leaves_end:
  "leaves out A None"
  "addr_spaces s = A \<Longrightarrow> leaves id A (Some s)"
  "addr_spaces s = A \<Longrightarrow> leaves snd A (Some (x, s))"
  by (simp_all add: leaves_def)

lemma leaves_if: "leaves out A m \<Longrightarrow> leaves out A n \<Longrightarrow> leaves out A (if c then m else n)"
  by simp

lemma leaves_bind_state:
  assumes "leaves id A m" "\<And>s. addr_spaces s = A \<Longrightarrow> leaves out A (f s)"
  shows "leaves out A (Option.bind m f)"
  using assms by (cases m) (auto simp: leaves_def)

lemma leaves_bind_pair:
  assumes "leaves snd A m" "\<And>x s. addr_spaces s = A \<Longrightarrow> leaves out A (f x s)"
  shows "leaves out A (Option.bind m (\<lambda>(x, s). f x s))"
  using assms by (cases m) (auto simp: leaves_def)

lemma leaves_bind_value:
  fixes v :: "u32 option" and b :: "bool option" and u :: "unit option"
  shows "(\<And>x. leaves out A (f x)) \<Longrightarrow> leaves out A (Option.bind v f)"
    "(\<And>x. leaves out A (g x)) \<Longrightarrow> leaves out A (Option.bind b g)"
    "(\<And>x. leaves out A (h x)) \<Longrightarrow> leaves out A (Option.bind u h)"
  by (auto simp: leaves_def bind_eq_Some_conv)

lemmas leaves_rules = leaves_end leaves_if leaves_bind_state leaves_bind_pair leaves_bind_value

lemma leaves_basic:
  assumes "addr_spaces s = A"
  shows "leaves id A (store v x s)" "leaves id A (memzero_page page s)" "leaves id A (set_error code s)"
    "leaves snd A (alloc_frame s)" "leaves id A (free_frame p s)"
  using assms
  by (auto simp: leaves_def memzero_page_def
      dest: store_spaces memzero_spaces set_error_spaces alloc_frame_spaces free_frame_spaces)

definition keeps_spaces :: "(addr \<Rightarrow> 'a paging_op) \<Rightarrow> bool" where
  "keeps_spaces tmp \<longleftrightarrow> (\<forall>p s. leaves snd (addr_spaces s) (tmp p s))"

lemma leaves_tmp: "keeps_spaces tmp \<Longrightarrow> addr_spaces s = A \<Longrightarrow> leaves snd A (tmp p s)"
  unfolding keeps_spaces_def by blast

lemma leaves_tables:
  assumes "keeps_spaces tmp" and s: "addr_spaces s = A"
  shows "leaves snd A (get_page_dir tmp as s)" "leaves snd A (get_page_table tmp pd i s)"
  unfolding get_page_dir_def get_page_table_def
  by (intro leaves_rules s leaves_tmp [OF assms])+

lemma leaves_map_page:
  assumes "keeps_spaces tmp" "addr_spaces s = A"
  shows "leaves snd A (map_page_with tmp as p v flags s)"
  unfolding map_page_with_def Let_def
  by (intro leaves_rules leaves_tables leaves_basic assms; assumption)

lemma create_temp_mapping_keeps: "keeps_spaces create_temp_mapping"
proof -
  have none: "keeps_spaces (\<lambda>_ _. None)" by (simp add: keeps_spaces_def leaves_end)
  have "leaves snd (addr_spaces s) (create_temp_mapping p s)" for p and s :: "'a paging_state_scheme"
    unfolding create_temp_mapping_def Let_def
    by (intro leaves_rules leaves_map_page none leaves_basic refl; assumption)
  then show ?thesis unfolding keeps_spaces_def by blast
qed

lemma leaves_unmap_page: "addr_spaces s = A \<Longrightarrow> leaves id A (unmap_page_in as v free s)"
  unfolding unmap_page_in_def Let_def
  by (intro leaves_rules leaves_tables create_temp_mapping_keeps leaves_basic; assumption)

lemma leaves_unmap_pages: "addr_spaces s = A \<Longrightarrow> leaves id A (unmap_pages as v free is s)"
proof (induction "is" arbitrary: s)
  case (Cons i "is")
  show ?case unfolding unmap_pages.simps
    by (intro leaves_rules leaves_unmap_page Cons) assumption
qed (simp add: leaves_end)

lemma leaves_map_pages: "addr_spaces s = A \<Longrightarrow> leaves snd A (map_pages as p v flags is s)"
proof (induction "is" arbitrary: s)
  case (Cons i "is")
  show ?case unfolding map_pages.simps map_page_in_def
    by (intro leaves_rules leaves_map_page create_temp_mapping_keeps leaves_basic leaves_unmap_pages Cons; assumption)
qed (simp add: leaves_end)

lemma leaves_map_frames: "addr_spaces s = A \<Longrightarrow> leaves snd A (map_frames as v fs flags s)"
proof (induction fs arbitrary: s)
  case (Cons f fs)
  obtain i frame where f: "f = (i, frame)" by fastforce
  show ?case unfolding f map_frames.simps do_paging_map_in_def Let_def
    by (intro leaves_rules leaves_map_pages leaves_basic Cons; assumption)
qed (simp add: leaves_end)

text \<open>Without frames the first page fails when its page table is missing.\<close>

lemma map_frames_fails:
  assumes mm: "mm_ok DS s" and as: "as_ok DS s as" and none: "table s (dir_of s as) (pde_index v) = None"
    and al: "is_4kib_aligned p" "is_4kib_aligned v" and perm: "as = kernel_as s \<or> is_user_addr v"
    and out: "alloc_returns s" "no_frames s" and report: "error_list s \<noteq> [] \<or> next_desc s"
  obtains s' where "map_frames as v ((0, p) # fs) flags s = Some (False, s')"
proof -
  have page: "page_offset x = 0" "get_page_addr x = x" if "is_4kib_aligned x" for x
    using that get_page_addr_split [of x] page_split(3) [of x]
    by (simp_all add: is_4kib_aligned_def page_offset_def PAGE_SIZE_def)
  obtain s1 where s1: "map_page_in as p v flags s = Some (False, s1)" "error_list s1 \<noteq> []"
    using map_page_full [OF mm as none al perm alloc_returns_ok [OF mm_okD(1) [OF mm] out(1)]
        out(2) [unfolded no_frames_def] report] .
  obtain s2 where s2: "set_error ENONE s1 = Some s2" "error_list s2 \<noteq> []" using set_error_again [OF s1(2)] .
  obtain s3 where s3: "set_error ENONE s2 = Some s3" using set_error_again [OF s2(2)] .
  have "ceil_x_over_y_u32 PAGE_SIZE PAGE_SIZE = Some 1" by (simp add: ceil_x_over_y_u32_def PAGE_SIZE_def)
  then have "do_paging_map_in as p v PAGE_SIZE flags s = Some (False, s2)"
    using s1 s2 al by (simp add: do_paging_map_in_def page chunk_def)
  then show thesis using s3 that by (simp add: chunk_def)
qed

text \<open>When there is room the search finds it in the locked state.\<close>

lemma frames_above_found:
  assumes "running DS s as" and "lock_free (as_lock (addr_spaces s as))"
    and "frames \<noteq> []" "length frames < 2 ^ 32" and "k \<le> MAXP"
    and "\<exists>m. fits s (dir_of s as) k (length frames) m"
  defines "s0 \<equiv> relock as (held_by (cpu_id s) (int_flag s)) False s"
    and "m \<equiv> page_addr (LEAST m. fits s (dir_of s as) k (length frames) m)"
  shows "lock_addr_space as s = Some s0" and "m \<noteq> NO_REGION"
    and "do_paging_find_contiguous_non_mapped_pages_in as (page_addr k) (of_nat (length frames)) s0 = Some (m, s0)"
proof -
  show "lock_addr_space as s = Some s0" unfolding s0_def by (rule lock_addr_space_free [OF assms(2)])
  have run0: "running DS s0 as"
    using assms(1) by (simp add: running_def s0_def) (simp add: relock_def get_curr_addr_space_def)
  have n: "unat (of_nat (length frames) :: u32) = length frames"
    using assms(4) by (simp add: unat_of_nat take_bit_nat_eq_self)
  have fits0: "fits s0 (dir_of s0 as) k (length frames) = fits s (dir_of s as) k (length frames)"
    by (simp add: fun_eq_iff fits_def free_page_def s0_def)
  have "search_result s0 (dir_of s0 as) k (length frames) = (m, s0)"
    unfolding search_result_def fits0 if_P [OF assms(6)] m_def by simp
  then show "do_paging_find_contiguous_non_mapped_pages_in as (page_addr k) (of_nat (length frames)) s0 = Some (m, s0)"
    using do_find_running [OF run0 _ assms(5), of "of_nat (length frames)"] assms(3) n by simp
  have "fits s (dir_of s as) k (length frames) (LEAST m. fits s (dir_of s as) k (length frames) m)"
    using assms(6) by (rule LeastI_ex)
  then have "(LEAST m. fits s (dir_of s as) k (length frames) m) \<le> MAXP" by (rule fits_below)
  then show "m \<noteq> NO_REGION" unfolding m_def by (rule page_addr_ok(6))
qed

subsection \<open>Properties\<close>



text \<open>
  C40: \<open>paging_map_frames_above_in\<close> finds room and then runs out of frames for the page tables: it returns
  \<open>NO_REGION\<close> with the lock of the address space still held, and the next operation on this address space never
  returns, on any cpu.
\<close>

theorem map_frames_above_keeps_lock:
  assumes "running DS s as" and "lock_free (as_lock (addr_spaces s as))"
    and "frames \<noteq> []" "length frames < 2 ^ 32" and "k \<le> MAXP"
    and "\<exists>m. fits s (dir_of s as) k (length frames) m"
    and "paging_map_frames_above_in as (page_addr k) frames flags s = Some (NO_REGION, s')"
  shows "as_lock (addr_spaces s' as) = held_by (cpu_id s) (int_flag s) \<and>
    (\<forall>t :: 'b paging_state_scheme. addr_spaces t as = addr_spaces s' as \<longrightarrow> lock_addr_space as t = None)"
proof -
  note found = frames_above_found [OF assms(1-6)]
  let ?s0 = "relock as (held_by (cpu_id s) (int_flag s)) False s"
  have "\<exists>m. map_frames as m (enumerate 0 frames) flags ?s0 = Some (False, s')"
    using assms(7) found(2)
    unfolding paging_map_frames_above_in_def found(1,3) Option.bind.bind_lunit prod.case if_not_P [OF found(2)]
    by (auto simp: bind_eq_Some_conv split: if_splits)
  then have "addr_spaces s' = addr_spaces ?s0" using leavesD [OF leaves_map_frames [OF refl]] by fastforce
  then have "as_lock (addr_spaces s' as) = held_by (cpu_id s) (int_flag s)" by simp
  then show ?thesis by (simp add: lock_addr_space_def spinlock_lock_taken)
qed

theorem map_frames_above_keeps_lock_witness:
  "\<exists>s'. paging_map_frames_above_in 100 (page_addr 7) [0x3000] 0 (paged_example\<lparr>OOM_SIMULATION := True\<rparr>) = Some (NO_REGION, s') \<and>
     lock_addr_space 100 s' = None"
proof -
  define s where "s = paged_example\<lparr>OOM_SIMULATION := True\<rparr>"
  have view: "table s D i = table paged_example D i" "page_entry s D v = page_entry paged_example D v"
    "dir_of s as = dir_of paged_example as" for D i v as
    by (simp_all add: s_def table_def entry_at_def page_entry_def dir_of_def)
  have mm: "mm_ok {1, 2} s" and as: "as_ok {1, 2} s 100"
    using paged_example_ok paged_example_as [of 100]
    by (simp_all add: mm_ok_def tables_ok_def paged_ok_def as_ok_def view)
      (simp_all add: s_def wf_frames_def frames_in_use_def top_dir_def get_curr_addr_space_def)
  have cpu: "paging_on s" "get_curr_addr_space s = 100" "kernel_as s = 100" "cpu_id s = 0" "int_flag s" "next_desc s"
    "OOM_SIMULATION s" "lock_free (as_lock (addr_spaces s 100))"
    by (simp_all add: s_def paged_example_def get_curr_addr_space_def next_desc_def)
  have run: "running {1, 2} s 100" using mm cpu by (simp add: running_def)
  have fit: "fits s (dir_of s 100) 7 (length [0x3000 :: addr]) 7"
    using page_index_ok(3) paged_example_free by (simp add: fits_def free_page_def view MAXP_def)
  then have least: "(LEAST m. fits s (dir_of s 100) 7 (length [0x3000 :: addr]) m) = 7"
    by (intro Least_equality) (simp_all add: fits_def)
  have pre: "[0x3000 :: addr] \<noteq> []" "length [0x3000 :: addr] < 2 ^ 32" "7 \<le> MAXP"
    "\<exists>m. fits s (dir_of s 100) 7 (length [0x3000 :: addr]) m" using fit by (auto simp: MAXP_def)
  note found = frames_above_found [OF run cpu(8) pre, unfolded least]
  let ?s0 = "relock 100 (held_by (cpu_id s) (int_flag s)) False s"
  have "pde_index (page_addr 7) = 0" by (simp add: pde_index_def page_addr_def)
  then have none: "table ?s0 (dir_of ?s0 100) (pde_index (page_addr 7)) = None" by (simp add: view paged_example_table)
  have al: "is_4kib_aligned 0x3000" "is_4kib_aligned (page_addr 7)"
    using page_addr_ok(3) [OF pre(3)] by (simp_all add: is_4kib_aligned_def)
  have s0: "mm_ok {1, 2} ?s0" "as_ok {1, 2} ?s0 100" "alloc_returns ?s0" "no_frames ?s0" "next_desc ?s0"
    using mm as cpu by (simp_all add: no_frames_def alloc_returns_def)
  have perm: "100 = kernel_as ?s0 \<or> is_user_addr (page_addr 7)" using cpu(3) by (simp add: relock_def)
  obtain s' where "map_frames 100 (page_addr 7) ((0, 0x3000) # []) 0 ?s0 = Some (False, s')"
    using map_frames_fails [OF s0(1,2) none al perm s0(3,4) disjI2 [OF s0(5)]] .
  then have res: "paging_map_frames_above_in 100 (page_addr 7) [0x3000] 0 s = Some (NO_REGION, s')"
    unfolding paging_map_frames_above_in_def found(1,3) Option.bind.bind_lunit prod.case if_not_P [OF found(2)]
    by simp
  from map_frames_above_keeps_lock [OF run cpu(8) pre res] show ?thesis using res unfolding s_def by blast
qed

end
