(* ===== verification/Addr_Space.thy ===== *)
theory Addr_Space
  imports Paging
begin

text \<open>
  The address spaces of \<open>addr_space.c\<close> and the way \<open>init_paging\<close> enables paging. Of \<open>init_paging\<close> the calls
  that reload the GDT and the IDTR are left out.
\<close>

subsection \<open>Address spaces\<close>

fun copy_entries :: "addr \<Rightarrow> addr \<Rightarrow> nat list \<Rightarrow> 'a paging_state_scheme \<Rightarrow> 'a paging_state_scheme option" where
  "copy_entries dest_pd curr_pd [] s = Some s"
| "copy_entries dest_pd curr_pd (i # is) s = do {
     e \<leftarrow> load (entry_addr curr_pd (of_nat i)) s;
     s \<leftarrow> store (entry_addr dest_pd (of_nat i)) e s;
     copy_entries dest_pd curr_pd is s }"

definition paging_setup_new_page_dir :: "addr \<Rightarrow> 'a paging_state_scheme \<Rightarrow> 'a paging_state_scheme option" where
  "paging_setup_new_page_dir new_phy_addr s = do {
     (curr_pd, s) \<leftarrow> get_page_dir create_temp_mapping (get_curr_addr_space s) s;
     (dest_pd, s) \<leftarrow> create_temp_mapping new_phy_addr s;
     ASSERT (curr_pd \<noteq> dest_pd);
     s \<leftarrow> memzero_page dest_pd s;
     let start_idx = unat (pde_index KERNEL_PHY_OFFSET);
     s \<leftarrow> copy_entries dest_pd curr_pd [start_idx..<1024 - 1] s;
     temp \<leftarrow> load (entry_addr curr_pd TEMP_MAP_PDE_IDX) s;
     s \<leftarrow> store (entry_addr dest_pd TEMP_MAP_PDE_IDX) temp s;
     rec \<leftarrow> load (entry_addr curr_pd RECURSIVE_PDE_IDX) s;
     let curr_pd_addr = page_dir_phy_addr (addr_spaces s (get_curr_addr_space s));
     ASSERT (entry_frame rec = drop_bit 12 curr_pd_addr);
     store (entry_addr dest_pd RECURSIVE_PDE_IDX)
       (take_bit 12 rec OR push_bit 12 (drop_bit 12 new_phy_addr)) s }"

fun free_table_frames :: "addr \<Rightarrow> nat list \<Rightarrow> 'a paging_state_scheme \<Rightarrow> 'a paging_state_scheme option" where
  "free_table_frames page_table [] s = Some s"
| "free_table_frames page_table (j # js) s = do {
     pte \<leftarrow> load (entry_addr page_table (of_nat j)) s;
     s \<leftarrow> (if present pte then free_frame (push_bit 12 (entry_frame pte)) s else Some s);
     free_table_frames page_table js s }"

fun free_tables :: "addr \<Rightarrow> nat list \<Rightarrow> 'a paging_state_scheme \<Rightarrow> 'a paging_state_scheme option" where
  "free_tables as [] s = Some s"
| "free_tables as (i # is) s = do {
     (page_dir, s) \<leftarrow> get_page_dir create_temp_mapping as s;
     pde \<leftarrow> load (entry_addr page_dir (of_nat i)) s;
     if \<not> present pde then free_tables as is s
     else do {
       (page_table, s) \<leftarrow> get_page_table create_temp_mapping page_dir (of_nat i) s;
       s \<leftarrow> free_table_frames page_table [0..<PTES_PER_PAGE] s;
       s \<leftarrow> free_frame (push_bit 12 (entry_frame pde)) s;
       free_tables as is s } }"

definition paging_free_addr_space :: "addr \<Rightarrow> 'a paging_state_scheme \<Rightarrow> 'a paging_state_scheme option" where
  "paging_free_addr_space as s = do {
     let max_index = unat (pde_index KERNEL_PHY_OFFSET);
     s \<leftarrow> free_tables as [0..<max_index] s;
     free_frame (page_dir_phy_addr (addr_spaces s as)) s }"

definition switch_to_addr_space :: "addr \<Rightarrow> 'a paging_state_scheme \<Rightarrow> 'a paging_state_scheme option" where
  "switch_to_addr_space as s = do {
     ASSERT (page_dir_phy_addr (addr_spaces s as) \<noteq> 0);
     let irqs = int_flag s;
     let s = cpu_set_interrupt_flag False s;
     let s = s\<lparr>curr_addr_space := (curr_addr_space s)(cpu_id s := as)\<rparr>;
     let s = s\<lparr>cr3 := page_dir_phy_addr (addr_spaces s as)\<rparr>;
     Some (cpu_set_interrupt_flag irqs s) }"

definition init_kernel_addr_space :: "addr \<Rightarrow> 'a paging_state_scheme \<Rightarrow> 'a paging_state_scheme option" where
  "init_kernel_addr_space phy_addr s =
     (if page_dir_phy_addr (addr_spaces s (kernel_as s)) \<noteq> 0 then PANIC
      else Some (s\<lparr>addr_spaces := (addr_spaces s)
        (kernel_as s := (addr_spaces s (kernel_as s))\<lparr>page_dir_phy_addr := phy_addr\<rparr>)\<rparr>))"

definition create_new_addr_space :: "'a paging_op" where
  "create_new_addr_space s = do {
     let (clone, s) = kmalloc s;
     if clone = 0 then do {
       s \<leftarrow> set_error ENONE s;
       Some (0, s) }
     else do {
       (page_dir, s) \<leftarrow> alloc_frame s;
       if page_dir = NO_FRAME then do {
         s \<leftarrow> set_error ENONE s;
         s \<leftarrow> kfree clone s;
         Some (0, s) }
       else do {
         let s = s\<lparr>addr_spaces := (addr_spaces s)
           (clone := \<lparr>as_lock = INIT_SPINLOCK, page_dir_phy_addr = page_dir\<rparr>)\<rparr>;
         s \<leftarrow> paging_setup_new_page_dir (page_dir_phy_addr (addr_spaces s clone)) s;
         Some (clone, s) } } }"

text \<open>\<open>ncpus\<close> is what \<open>acpi_get_number_cpus\<close> returns.\<close>

definition delete_addr_space :: "nat \<Rightarrow> addr \<Rightarrow> 'a paging_state_scheme \<Rightarrow> 'a paging_state_scheme option" where
  "delete_addr_space ncpus as s =
     (if as = kernel_as s then PANIC
      else if \<exists>cpu \<in> set [0..<ncpus]. curr_addr_space s (of_nat cpu) = as then PANIC
      else do {
        s \<leftarrow> paging_free_addr_space as s;
        kfree as s })"

subsection \<open>Enabling paging\<close>

text \<open>The linker's symbols: the last byte of the kernel and the first and last of its read-only sections.\<close>

record kernel_layout =
  KERNEL_END_ADDR :: addr
  SECTION_TEXT :: "addr \<times> addr"
  SECTION_RODATA :: "addr \<times> addr"

definition in_text_section :: "kernel_layout \<Rightarrow> addr \<Rightarrow> bool" where
  "in_text_section k p \<longleftrightarrow> ptr_in_range p (fst (SECTION_TEXT k)) (snd (SECTION_TEXT k))"

definition in_rodata_section :: "kernel_layout \<Rightarrow> addr \<Rightarrow> bool" where
  "in_rodata_section k p \<longleftrightarrow> ptr_in_range p (fst (SECTION_RODATA k)) (snd (SECTION_RODATA k))"

definition create_recursive_entry :: "addr \<Rightarrow> 'a paging_state_scheme \<Rightarrow> 'a paging_state_scheme option" where
  "create_recursive_entry page_dir s =
     store (entry_addr page_dir RECURSIVE_PDE_IDX)
       (make_pde (garbage s AND 0xFC0) True False True True (drop_bit 12 (to_phys page_dir))) s"

definition create_temp_mapping_entry :: "addr \<Rightarrow> 'a paging_state_scheme \<Rightarrow> 'a paging_state_scheme option" where
  "create_temp_mapping_entry page_dir s = do {
     (page_table, s) \<leftarrow> alloc_frame s;
     if page_table = NO_FRAME then PANIC
     else do {
       s \<leftarrow> memzero_page (to_virt page_table) s;
       old \<leftarrow> load (entry_addr page_dir TEMP_MAP_PDE_IDX) s;
       ASSERT (\<not> present old);
       store (entry_addr page_dir TEMP_MAP_PDE_IDX)
         (make_pde (garbage s AND 0xFE0) True False True True (drop_bit 12 page_table)) s } }"

fun preallocate_tables :: "addr \<Rightarrow> nat list \<Rightarrow> 'a paging_state_scheme \<Rightarrow> 'a paging_state_scheme option" where
  "preallocate_tables page_dir [] s = Some s"
| "preallocate_tables page_dir (i # is) s = do {
     pde \<leftarrow> load (entry_addr page_dir (of_nat i)) s;
     if present pde then preallocate_tables page_dir is s
     else do {
       (page_table, s) \<leftarrow> alloc_frame s;
       if page_table = NO_FRAME then PANIC
       else do {
         s \<leftarrow> memzero_page (to_virt page_table) s;
         s \<leftarrow> store (entry_addr page_dir (of_nat i))
                (make_pde (garbage s AND 0xFC0) True False False False (drop_bit 12 page_table)) s;
         preallocate_tables page_dir is s } } }"

definition preallocate_kernel_page_table :: "addr \<Rightarrow> 'a paging_state_scheme \<Rightarrow> 'a paging_state_scheme option" where
  "preallocate_kernel_page_table page_dir s =
     preallocate_tables page_dir [unat KERNEL_MIN_PDE_IDX..<unat KERNEL_MAX_PDE_IDX] s"

text \<open>The loop over the pages of the kernel; the list holds the pages from \<open>start\<close> to \<open>end\<close>.\<close>

fun map_kernel_pages :: "kernel_layout \<Rightarrow> addr \<Rightarrow> nat list \<Rightarrow> 'a paging_state_scheme \<Rightarrow> 'a paging_state_scheme option" where
  "map_kernel_pages k as [] s = Some s"
| "map_kernel_pages k as (i # is) s = do {
     let ptr = chunk KERNEL_PHY_OFFSET i;
     let flags = (if in_low_mem ptr then VM_WRITE OR VM_WRITE_THROUGH OR VM_CACHE_DISABLE
                  else if in_text_section k ptr \<or> in_rodata_section k ptr then 0 else VM_WRITE);
     let paddr = to_phys ptr;
     (res, s) \<leftarrow> map_page_in as paddr ptr flags s;
     if \<not> res then PANIC
     else do {
       (res, s) \<leftarrow> map_page_in as paddr paddr flags s;
       if \<not> res then PANIC else map_kernel_pages k as is s } }"

definition kernel_pages :: "kernel_layout \<Rightarrow> nat" where
  "kernel_pages k = ceil_div (unat (to_phys (KERNEL_END_ADDR k))) 4096"

definition create_identity_and_higher_half_mappings ::
  "kernel_layout \<Rightarrow> 'a paging_state_scheme \<Rightarrow> 'a paging_state_scheme option" where
  "create_identity_and_higher_half_mappings k s =
     map_kernel_pages k (get_curr_addr_space s) [0..<kernel_pages k] s"

fun remove_entries :: "addr \<Rightarrow> nat list \<Rightarrow> 'a paging_state_scheme \<Rightarrow> 'a paging_state_scheme option" where
  "remove_entries page_dir [] s = Some s"
| "remove_entries page_dir (i # is) s = do {
     pde \<leftarrow> load (entry_addr page_dir (of_nat i)) s;
     ASSERT (present pde);
     s \<leftarrow> store (entry_addr page_dir (of_nat i)) 0 s;
     remove_entries page_dir is s }"

definition remove_identity_mapping :: "kernel_layout \<Rightarrow> 'a paging_state_scheme \<Rightarrow> 'a paging_state_scheme option" where
  "remove_identity_mapping k s = do {
     (page_dir, s) \<leftarrow> get_page_dir create_temp_mapping (get_curr_addr_space s) s;
     num_frames \<leftarrow> ceil_x_over_y_u32 (to_phys (KERNEL_END_ADDR k)) PAGE_SIZE;
     num_page_tables \<leftarrow> ceil_x_over_y_u32 num_frames 1024;
     remove_entries page_dir [0..<unat num_page_tables] s }"

definition init_paging :: "kernel_layout \<Rightarrow> 'a paging_state_scheme \<Rightarrow> 'a paging_state_scheme option" where
  "init_paging k s = do {
     (page_dir_phy, s) \<leftarrow> alloc_frame s;
     if page_dir_phy = NO_FRAME then PANIC
     else do {
       let page_dir = to_virt page_dir_phy;
       s \<leftarrow> memzero_page page_dir s;
       s \<leftarrow> init_kernel_addr_space page_dir_phy s;
       s \<leftarrow> switch_to_addr_space (kernel_as s) s;
       s \<leftarrow> create_identity_and_higher_half_mappings k s;
       s \<leftarrow> create_recursive_entry page_dir s;
       s \<leftarrow> create_temp_mapping_entry page_dir s;
       s \<leftarrow> preallocate_kernel_page_table page_dir s;
       let s = s\<lparr>paging_on := True\<rparr>;
       remove_identity_mapping k s } }"

end
