(* ===== verification/Spec2Isabelle.thy ===== *)
theory Spec2Isabelle
  imports Kernel_List Lock_Protocol Multiboot_Map Error_Log Syscalls Paging_Holes Addr_Space
begin

text \<open>
  A verification library for a small multiprocessor kernel for 32-bit x86 (sources under \<open>src/src/\<close>).

  \<^bold>\<open>How programs are modelled.\<close> Machine integers are words of their width, so additions wrap as they do
  in C. A function that can fail to return, because it panics, fails an \<open>ASSERT\<close>, traps, dereferences a
  null pointer, reads beyond an array or loops forever, has an \<open>option\<close> as result, and \<^const>\<open>None\<close> means
  that the cpu never comes back. Values returned on failure (\<open>NULL\<close>, \<open>false\<close>, \<open>NO_FRAME\<close>) are ordinary values.
  State is passed explicitly. The states of the components are records that extend each other: the
  running cpu (\<open>cpu_state\<close>), the allocator as seen by its clients (\<open>heap_state\<close>), the scheduler
  (\<open>sched_state\<close>), the virtual file system (\<open>vfs_state\<close>) and the system calls (\<open>sys_state\<close>). The frame
  allocator (\<open>frame_state\<close>), the virtual memory on top of it (\<open>paging_state\<close>) and the error log (\<open>err_state\<close>)
  extend \<open>heap_state\<close>. Loops over a list or a counter are
  recursive functions with termination proofs, loops that may not end are \<open>partial_function (option)\<close>,
  and their theorems say that they return.

  \<^bold>\<open>The parts.\<close>

  \<^item> \<open>Kernel_Prelude\<close>: types, \<open>ASSERT\<close> and \<open>PANIC\<close> (\<open>debug.h\<close>), address helpers of \<open>kernel_map.h\<close> and
    facts about words, lists and options that the other theories share.

  \<^item> \<open>Kernel_List\<close> (\<open>list.h\<close>, \<open>list.c\<close>): the circular doubly linked list over a heap of nodes. The
    operations refine the operations on sequences; other theories use the sequences.

  \<^item> \<open>Kernel_Math\<close> (\<open>math.c\<close>), \<open>Bitmap\<close> (\<open>bitmap.c\<close>, \<open>bitmap_asm.S\<close>): the bitmap with its word-wise
    search for a free bit, against the set of its bits.

  \<^item> \<open>Kernel_Memory\<close>, \<open>Byte_Buffers\<close> (\<open>memory.c\<close>, \<open>string.c\<close>): the routines on memory, and the same
    routines on buffers as lists of bytes, which agree where memory holds the buffers.

  \<^item> \<open>Cpu_Locks\<close> (\<open>atomic.c\<close>, \<open>spinlock_def.c\<close>, \<open>rw_lock.c\<close>): the locks as seen by the cpu that calls
    them, and \<open>set_error\<close>. \<open>Lock_Protocol\<close> has the same locks as step relations of all cpus, down to the
    \<open>cmpxchg\<close> of \<open>spinlock.S\<close>: mutual exclusion, restored interrupt flags, progress.

  \<^item> \<open>Frame_Alloc\<close> (\<open>frame_alloc.c\<close>): the physical frame allocator on top of the bitmap. Its clients are
    served from a locale of frame servers: no frame is ever held twice.

  \<^item> \<open>Multiboot_Map\<close> (\<open>multiboot.c\<close>): the memory map of the boot loader, and the construction of the frame
    bitmap from it, which leaves exactly the available frames free.

  \<^item> \<open>Heap_Client\<close>: \<open>kmalloc\<close> as its clients see it. \<open>Error_Log\<close> (\<open>error.c\<close>): the log behind \<open>SET_ERROR\<close>,
    which refines \<open>set_error\<close>.

  \<^item> \<open>Disk_Io\<close> (\<open>disk.c\<close>, \<open>memdisk.c\<close>): reads and writes at any offset, built from sector operations. The
    locale \<open>sector_device\<close> is the contract of a disk; the memory disk is its instance.

  \<^item> \<open>Ustar\<close> (\<open>ustar.c\<close>), \<open>Vfs\<close> (\<open>vfs.c\<close>, \<open>fs.h\<close>): the archive file system, and mounting, opening, sharing and
    closing of files with the invariant \<open>vfs_ok\<close>. The locale \<open>file_system\<close> is what the VFS relies on.

  \<^item> \<open>Sched\<close> (\<open>sched_core.c\<close>, \<open>ts.c\<close>, the context switch of \<open>proc.c\<close> and \<open>proc_asm.S\<close>): preemption, the
    run queue and \<open>schedule\<close>. \<open>schedule\<close> takes fuel because \<open>preempt_enable\<close> may call it again; one unit is
    enough (\<open>schedule_fuel\<close>), since everything \<open>schedule\<close> calls runs with preemption disabled.

  \<^item> \<open>Syscalls\<close> (\<open>syscalls.c\<close>): descriptors, the calls and their dispatch, on top of all of the above.

  \<^item> \<open>Paging\<close> (\<open>paging.c\<close>): physical memory as frames of 1024 words, the walk of the memory management unit, and
    the operations that reach page tables through the recursive entry or a temporary mapping of the cpu.
    \<open>Paging_Pages\<close> has the invariant \<open>mm_ok\<close>: page tables are in use, are not directories and are shared between
    directories only in the kernel's half. \<open>Paging_Maps\<close> shows what mapping and unmapping one page does to every
    directory, \<open>Paging_Ranges\<close> the same for ranges, undo after a failure included, and \<open>Paging_Holes\<close> the
    search for unmapped pages and the lock of the address space.

  \<^item> \<open>Addr_Space\<close> (\<open>addr_space.c\<close>, the start-up part of \<open>paging.c\<close>): creating, switching and deleting address
    spaces, and the first page directory. These are definitions only; no theorem is stated about them.

  \<^bold>\<open>What is shown.\<close> The main theorems go through the layers: a file opened and read by system calls
  delivers the bytes that are on the disk; no interleaving of the cpus runs a process twice; locks
  exclude; frames are never shared; mapping a range of pages maps exactly that range in exactly one address
  space, or nothing. Each component has its own theorems on functional behaviour, its
  invariant, its error paths and boundaries; where the code does not do what it means to, a theorem
  states what it does.

  \<^bold>\<open>Not modelled.\<close> The heap allocator (\<open>kmalloc.c\<close>) keeps its headers in the pages it hands out and is
  present only as \<open>Heap_Client\<close>. The ELF loader, the initial ramdisk and the creation of processes write to the
  data pages of new address spaces; the model of memory in \<open>Paging\<close> is used for page tables only. The translation
  cache and access rights are not part of the walk. The interrupt and segment descriptor tables, the interrupt
  entry code and its callbacks, messages between cpus, the local and I/O APIC registers, the ACPI tables in
  firmware memory, the start of the other cpus, the boot code, the serial, VGA and TTY output and the tests are
  left out: they are device and instruction accesses, or nothing that is modelled depends on their result.
\<close>

end
